(* ===== verification/Prelude.thy ===== *)
theory Prelude
  imports Main "HOL-Library.Word" "HOL-Library.Multiset"
begin

text \<open>
  Shared vocabulary of the development: the machine integer and byte string types of the
  code, ordered containers (the model of \<open>std::map\<close>, \<open>std::set\<close> and their
  \<open>boost::interprocess\<close> counterparts) and their generic lemmas.
\<close>

unbundle bit_operations_syntax

named_theorems om_simps \<open>laws of the ordered maps\<close>
named_theorems keeps_intro \<open>rules that push an invariant through a computation\<close>


section \<open>Types of the code\<close>

type_synonym u8 = "8 word"
type_synonym u32 = "32 word"
type_synonym u64 = "64 word"
type_synonym u128 = "128 word"
type_synonym u160 = "160 word"
type_synonym u256 = "256 word"
type_synonym h256 = "256 word"
type_synonym address = "160 word"
type_synonym bytes = "8 word list"


section \<open>Ordered maps\<close>

text \<open>
  A \<open>std::map\<close> is an association list with strictly increasing keys. The
  representation is canonical (\<open>om_eqI\<close>): two well-formed maps with the same lookup
  function are the same list, so equality of container states is equality of lists, and
  the order of the list is the iteration order of the container.
\<close>

type_synonym ('k, 'v) omap = "('k \<times> 'v) list"

definition om_wf :: "('k::linorder, 'v) omap \<Rightarrow> bool" where
  "om_wf m \<longleftrightarrow> sorted_wrt (<) (map fst m)"

definition om_find :: "('k, 'v) omap \<Rightarrow> 'k \<Rightarrow> 'v option" where
  "om_find m k = map_of m k"

text \<open>\<open>m[k] = v\<close>: inserts or overwrites.\<close>

fun om_put :: "'k::linorder \<Rightarrow> 'v \<Rightarrow> ('k, 'v) omap \<Rightarrow> ('k, 'v) omap" where
  "om_put k v [] = [(k, v)]"
| "om_put k v ((a, b) # m) =
     (if k < a then (k, v) # (a, b) # m
      else if k = a then (k, v) # m
      else (a, b) # om_put k v m)"

text \<open>\<open>m.emplace(k, v)\<close>, \<open>m.insert\<close>: an existing entry is kept.\<close>

definition om_emplace :: "'k::linorder \<Rightarrow> 'v \<Rightarrow> ('k, 'v) omap \<Rightarrow> ('k, 'v) omap" where
  "om_emplace k v m = (case om_find m k of None \<Rightarrow> om_put k v m | Some _ \<Rightarrow> m)"

definition om_erase :: "'k \<Rightarrow> ('k, 'v) omap \<Rightarrow> ('k, 'v) omap" where
  "om_erase k m = filter (\<lambda>(a, _). a \<noteq> k) m"

lemma om_wf_Nil [simp]: "om_wf []"
  by (simp add: om_wf_def)

lemma om_wf_Cons: "om_wf ((k, v) # m) \<longleftrightarrow> (\<forall>x \<in> fst ` set m. k < x) \<and> om_wf m"
  by (auto simp: om_wf_def)

lemma om_wf_distinct: "om_wf m \<Longrightarrow> distinct (map fst m)"
  by (auto simp: om_wf_def strict_sorted_iff)

lemma om_find_Nil [simp]: "om_find [] k = None"
  by (simp add: om_find_def)

lemma om_find_Cons: "om_find ((a, b) # m) k = (if a = k then Some b else om_find m k)"
  by (simp add: om_find_def)

lemma om_find_None: "om_find m k = None \<longleftrightarrow> k \<notin> fst ` set m"
  by (simp add: om_find_def map_of_eq_None_iff)

lemma om_find_in_set: "om_wf m \<Longrightarrow> (om_find m k = Some v) = ((k, v) \<in> set m)"
  by (simp add: om_find_def om_wf_distinct)

lemma om_find_SomeD: "om_find m k = Some v \<Longrightarrow> (k, v) \<in> set m"
  by (simp add: om_find_def map_of_SomeD)

lemma om_find_key: "k \<in> fst ` set m \<longleftrightarrow> (\<exists>v. om_find m k = Some v)"
  using om_find_None [of m k] by (cases "om_find m k") auto

lemma om_find_put [om_simps, simp]:
  "om_find (om_put k v m) j = (if j = k then Some v else om_find m j)"
  by (induction m) (auto simp: om_find_Cons)

lemma om_keys_put: "fst ` set (om_put k v m) = insert k (fst ` set m)"
  by (induction k v m rule: om_put.induct) (auto simp: image_iff)

lemma om_wf_put [simp, intro]: "om_wf m \<Longrightarrow> om_wf (om_put k v m)"
proof (induction k v m rule: om_put.induct)
  case (1 k v)
  then show ?case by (simp add: om_wf_Cons)
next
  case (2 k v a b m)
  then show ?case
    by (cases k a rule: linorder_cases) (force simp: om_wf_Cons om_keys_put)+
qed

lemma om_find_emplace [om_simps, simp]:
  "om_find (om_emplace k v m) j =
     (if j = k then Some (case om_find m k of None \<Rightarrow> v | Some w \<Rightarrow> w) else om_find m j)"
  by (auto simp: om_emplace_def split: option.splits)

lemma om_wf_emplace [simp, intro]: "om_wf m \<Longrightarrow> om_wf (om_emplace k v m)"
  by (auto simp: om_emplace_def split: option.splits)

lemma om_find_erase [om_simps, simp]:
  "om_find (om_erase k m) j = (if j = k then None else om_find m j)"
  by (induction m) (auto simp: om_erase_def om_find_Cons)

lemma om_wf_erase [simp, intro]: "om_wf m \<Longrightarrow> om_wf (om_erase k m)"
  by (induction m) (auto simp: om_erase_def om_wf_Cons)

lemma om_wf_filter: "om_wf m \<Longrightarrow> om_wf (filter P m)"
  by (simp add: om_wf_def sorted_wrt_map sorted_wrt_filter)

lemma om_find_filter:
  "om_wf m \<Longrightarrow> om_find (filter P m) k =
     (case om_find m k of None \<Rightarrow> None | Some v \<Rightarrow> if P (k, v) then Some v else None)"
proof -
  assume "om_wf m"
  then have e: "om_find (filter P m) k = Some v \<longleftrightarrow> om_find m k = Some v \<and> P (k, v)" for v
    by (auto simp: om_find_in_set om_wf_filter)
  show ?thesis
  proof (cases "om_find (filter P m) k")
    case None
    with e have "om_find m k = Some v \<Longrightarrow> \<not> P (k, v)" for v by simp
    with None show ?thesis by (simp split: option.split)
  next
    case (Some v)
    with e [of v] show ?thesis by simp
  qed
qed

lemma om_eqI:
  assumes "om_wf m" "om_wf n" "\<And>k. om_find m k = om_find n k"
  shows "m = n"
proof -
  have "set m = set n"
    using assms by (auto simp flip: om_find_in_set)
  moreover have "sorted (map fst m)" "sorted (map fst n)"
    using assms(1,2) by (auto simp: om_wf_def strict_sorted_imp_sorted)
  moreover have "distinct (map fst m)" "distinct (map fst n)"
    using assms(1,2) by (auto dest: om_wf_distinct)
  ultimately show ?thesis
    using map_sorted_distinct_set_unique [of fst m n] by (simp add: distinct_map)
qed

lemma om_put_put [simp]: "om_wf m \<Longrightarrow> om_put k v (om_put k w m) = om_put k v m"
  by (rule om_eqI) auto

lemma om_put_same: "om_wf m \<Longrightarrow> om_find m k = Some v \<Longrightarrow> om_put k v m = m"
  by (rule om_eqI) auto

lemma om_erase_put: "om_wf m \<Longrightarrow> om_find m k = None \<Longrightarrow> om_erase k (om_put k v m) = m"
  by (rule om_eqI) auto

lemma om_put_erase: "om_wf m \<Longrightarrow> om_find m k = Some v \<Longrightarrow> om_put k v (om_erase k m) = m"
  by (rule om_eqI) auto


section \<open>Ordered sets\<close>

text \<open>A \<open>std::set\<close> is a strictly increasing list.\<close>

definition os_insert :: "'k::linorder \<Rightarrow> 'k list \<Rightarrow> 'k list" where
  "os_insert x xs = (if x \<in> set xs then xs else insort x xs)"

definition os_erase :: "'k \<Rightarrow> 'k list \<Rightarrow> 'k list" where
  "os_erase x xs = removeAll x xs"

lemma set_os_insert [simp]: "set (os_insert x xs) = insert x (set xs)"
  by (auto simp: os_insert_def set_insort_key)

lemma set_os_erase [simp]: "set (os_erase x xs) = set xs - {x}"
  by (simp add: os_erase_def)

lemma distinct_os_insert [simp]: "distinct xs \<Longrightarrow> distinct (os_insert x xs)"
  by (simp add: os_insert_def distinct_insort)

lemma distinct_os_erase [simp]: "distinct xs \<Longrightarrow> distinct (os_erase x xs)"
  by (simp add: os_erase_def removeAll_filter_not_eq)

end
