(* ===== verification/Exc.thy ===== *)
theory Exc
  imports Prelude
begin

text \<open>
  Computations with a state and exceptions: the C++ methods that modify the database or
  their object and may throw. A computation maps a state to an outcome (\<open>Inl\<close> the
  exception in flight, \<open>Inr\<close> the result) and the state it leaves behind; the state is
  kept when an exception is thrown, as it is in the code, so that the effect of a handler
  or of a destructor that runs during unwinding can be stated.
\<close>

type_synonym ('e, 's, 'a) exc = "'s \<Rightarrow> ('e + 'a) \<times> 's"

definition ret :: "'a \<Rightarrow> ('e, 's, 'a) exc" where
  "ret x s = (Inr x, s)"

definition throw :: "'e \<Rightarrow> ('e, 's, 'a) exc" where
  "throw e s = (Inl e, s)"

definition bindE :: "('e, 's, 'a) exc \<Rightarrow> ('a \<Rightarrow> ('e, 's, 'b) exc) \<Rightarrow> ('e, 's, 'b) exc" where
  "bindE m f s = (case m s of (Inl e, t) \<Rightarrow> (Inl e, t) | (Inr x, t) \<Rightarrow> f x t)"

definition thenE :: "('e, 's, 'a) exc \<Rightarrow> ('e, 's, 'b) exc \<Rightarrow> ('e, 's, 'b) exc" where
  "thenE m n = bindE m (\<lambda>_. n)"

definition getE :: "('s \<Rightarrow> 'a) \<Rightarrow> ('e, 's, 'a) exc" where
  "getE f s = (Inr (f s), s)"

definition updE :: "('s \<Rightarrow> 's) \<Rightarrow> ('e, 's, unit) exc" where
  "updE f s = (Inr (), f s)"

text \<open>\<open>if (c) throw e;\<close>\<close>

definition throwIf :: "bool \<Rightarrow> 'e \<Rightarrow> ('e, 's, unit) exc" where
  "throwIf c e = (if c then throw e else ret ())"

text \<open>A pointer that must not be null, an iterator that must not be \<open>end()\<close>.\<close>

definition theE :: "'e \<Rightarrow> 'a option \<Rightarrow> ('e, 's, 'a) exc" where
  "theE e x = (case x of None \<Rightarrow> throw e | Some v \<Rightarrow> ret v)"

text \<open>A range-based \<open>for\<close> over a container that the body does not change.\<close>

primrec forE :: "'a list \<Rightarrow> ('a \<Rightarrow> ('e, 's, unit) exc) \<Rightarrow> ('e, 's, unit) exc" where
  "forE [] f = ret ()"
| "forE (x # xs) f = thenE (f x) (forE xs f)"

text \<open>\<open>try { m } catch (...) { h }\<close>.\<close>

definition catchE :: "('e, 's, 'a) exc \<Rightarrow> ('e \<Rightarrow> ('e, 's, 'a) exc) \<Rightarrow> ('e, 's, 'a) exc" where
  "catchE m h s = (case m s of (Inl e, t) \<Rightarrow> h e t | (Inr x, t) \<Rightarrow> (Inr x, t))"

text \<open>A computation on a component of the state.\<close>

definition zoomE :: "('s \<Rightarrow> 't) \<Rightarrow> (('t \<Rightarrow> 't) \<Rightarrow> 's \<Rightarrow> 's) \<Rightarrow> ('e, 't, 'a) exc \<Rightarrow> ('e, 's, 'a) exc" where
  "zoomE get upd m s = (case m (get s) of (r, t) \<Rightarrow> (r, upd (\<lambda>_. t) s))"

lemmas exc_defs = ret_def throw_def bindE_def thenE_def getE_def updE_def throwIf_def theE_def
  catchE_def zoomE_def

lemma bindE_ret [simp]: "bindE (ret x) f = f x"
  by (simp add: exc_defs fun_eq_iff)

lemma bindE_getE [simp]: "bindE (getE g) f s = f (g s) s"
  by (simp add: exc_defs)

lemma thenE_updE [simp]: "thenE (updE g) m s = m (g s)"
  by (simp add: exc_defs)

lemma ret_app [simp]: "ret x s = (Inr x, s)"
  by (simp add: ret_def)

lemma throw_app [simp]: "throw e s = (Inl e, s)"
  by (simp add: throw_def)

lemma updE_app [simp]: "updE f s = (Inr (), f s)"
  by (simp add: updE_def)

lemma getE_app [simp]: "getE f s = (Inr (f s), s)"
  by (simp add: getE_def)

lemma bindE_throw [simp]: "bindE (throw e) f = throw e"
  by (simp add: exc_defs fun_eq_iff)

lemma bindE_Inl: "m s = (Inl e, t) \<Longrightarrow> bindE m f s = (Inl e, t)"
  by (simp add: bindE_def)

lemma bindE_Inr: "m s = (Inr x, t) \<Longrightarrow> bindE m f s = f x t"
  by (simp add: bindE_def)

lemma bindE_InrD: "bindE m f s = (Inr y, u) \<Longrightarrow> \<exists>x t. m s = (Inr x, t) \<and> f x t = (Inr y, u)"
  by (auto simp: bindE_def split: prod.splits sum.splits)

lemma bindE_InlD:
  "bindE m f s = (Inl e, u) \<Longrightarrow> m s = (Inl e, u) \<or> (\<exists>x t. m s = (Inr x, t) \<and> f x t = (Inl e, u))"
  by (auto simp: bindE_def split: prod.splits sum.splits)

lemma thenE_InrD: "thenE m n s = (Inr y, u) \<Longrightarrow> \<exists>x t. m s = (Inr x, t) \<and> n t = (Inr y, u)"
  by (auto simp: thenE_def dest: bindE_InrD)

lemma thenE_InlD:
  "thenE m n s = (Inl e, u) \<Longrightarrow> m s = (Inl e, u) \<or> (\<exists>x t. m s = (Inr x, t) \<and> n t = (Inl e, u))"
  by (auto simp: thenE_def dest: bindE_InlD)


section \<open>Triples\<close>

text \<open>
  \<open>hoareE P m Q R\<close>: from a state with \<open>P\<close>, \<open>m\<close> ends normally with \<open>Q\<close> or throws
  with \<open>R\<close>. \<open>keeps I m\<close> is the special case of an invariant that survives both.
\<close>

definition hoareE ::
    "('s \<Rightarrow> bool) \<Rightarrow> ('e, 's, 'a) exc \<Rightarrow> ('a \<Rightarrow> 's \<Rightarrow> bool) \<Rightarrow> ('e \<Rightarrow> 's \<Rightarrow> bool) \<Rightarrow> bool" where
  "hoareE P m Q R \<longleftrightarrow>
     (\<forall>s. P s \<longrightarrow> (case m s of (Inl e, t) \<Rightarrow> R e t | (Inr x, t) \<Rightarrow> Q x t))"

definition keeps :: "('s \<Rightarrow> bool) \<Rightarrow> ('e, 's, 'a) exc \<Rightarrow> bool" where
  "keeps I m \<longleftrightarrow> (\<forall>s. I s \<longrightarrow> I (snd (m s)))"

lemma hoareE_bind:
  assumes "hoareE P m B R" "\<And>x. hoareE (B x) (f x) Q R"
  shows "hoareE P (bindE m f) Q R"
proof (unfold hoareE_def, intro allI impI)
  fix s assume P: "P s"
  obtain r t where m: "m s = (r, t)" by (cases "m s")
  show "case bindE m f s of (Inl e, t) \<Rightarrow> R e t | (Inr x, t) \<Rightarrow> Q x t"
  proof (cases r)
    case (Inl e)
    with P m assms(1) [unfolded hoareE_def, rule_format, of s] show ?thesis
      by (simp add: bindE_def)
  next
    case (Inr x)
    with P m assms(1) [unfolded hoareE_def, rule_format, of s] have "B x t" by simp
    with assms(2) [of x] m Inr show ?thesis by (simp add: hoareE_def bindE_def)
  qed
qed

lemma hoareE_weaken:
  assumes "hoareE P' m Q' R'" "\<And>s. P s \<Longrightarrow> P' s" "\<And>x s. Q' x s \<Longrightarrow> Q x s" "\<And>e s. R' e s \<Longrightarrow> R e s"
  shows "hoareE P m Q R"
proof (unfold hoareE_def, intro allI impI)
  fix s assume "P s"
  then have r: "case m s of (Inl e, t) \<Rightarrow> R' e t | (Inr x, t) \<Rightarrow> Q' x t"
    using assms(1) [unfolded hoareE_def, rule_format, OF assms(2)] by simp
  obtain o' t where m: "m s = (o', t)" by (cases "m s")
  with r show "case m s of (Inl e, t) \<Rightarrow> R e t | (Inr x, t) \<Rightarrow> Q x t"
    by (cases o') (simp_all add: assms(3,4))
qed

lemma hoareE_InrD: "hoareE P m Q R \<Longrightarrow> P s \<Longrightarrow> m s = (Inr x, t) \<Longrightarrow> Q x t"
  unfolding hoareE_def by (drule spec [of _ s]) simp

lemma hoareE_InlD: "hoareE P m Q R \<Longrightarrow> P s \<Longrightarrow> m s = (Inl e, t) \<Longrightarrow> R e t"
  unfolding hoareE_def by (drule spec [of _ s]) simp

lemma keepsD: "keeps I m \<Longrightarrow> I s \<Longrightarrow> m s = (r, t) \<Longrightarrow> I t"
  unfolding keeps_def by (drule spec [of _ s]) simp

lemma keepsI:
  assumes "\<And>s r t. I s \<Longrightarrow> m s = (r, t) \<Longrightarrow> I t"
  shows "keeps I m"
proof (unfold keeps_def, intro allI impI)
  fix s assume "I s"
  from assms [OF this] show "I (snd (m s))" by (cases "m s") simp
qed

lemma keeps_ret [simp, keeps_intro]: "keeps I (ret x)"
  by (simp add: keeps_def ret_def)

lemma keeps_throw [simp, keeps_intro]: "keeps I (throw e)"
  by (simp add: keeps_def throw_def)

lemma keeps_getE [simp, keeps_intro]: "keeps I (getE f)"
  by (simp add: keeps_def getE_def)

lemma keeps_theE [simp, keeps_intro]: "keeps I (theE e x)"
  by (cases x) (simp_all add: theE_def)

lemma keeps_throwIf [simp, keeps_intro]: "keeps I (throwIf c e)"
  by (simp add: throwIf_def)

lemma keeps_updE: "(\<And>s. I s \<Longrightarrow> I (f s)) \<Longrightarrow> keeps I (updE f)"
  by (simp add: keeps_def updE_def)

lemma keeps_bindE [keeps_intro]: "keeps I m \<Longrightarrow> (\<And>x. keeps I (f x)) \<Longrightarrow> keeps I (bindE m f)"
  unfolding keeps_def bindE_def by (simp split: prod.split sum.split) fastforce

lemma keeps_thenE [keeps_intro]: "keeps I m \<Longrightarrow> keeps I n \<Longrightarrow> keeps I (thenE m n)"
  by (simp add: thenE_def keeps_bindE)

lemma keeps_if [keeps_intro]: "(c \<Longrightarrow> keeps I m) \<Longrightarrow> (\<not> c \<Longrightarrow> keeps I n) \<Longrightarrow> keeps I (if c then m else n)"
  by simp

lemma keeps_forE [keeps_intro]: "(\<And>x. x \<in> set xs \<Longrightarrow> keeps I (f x)) \<Longrightarrow> keeps I (forE xs f)"
  by (induction xs) (auto intro: keeps_thenE)

lemma keeps_catchE [keeps_intro]: "keeps I m \<Longrightarrow> (\<And>e. keeps I (h e)) \<Longrightarrow> keeps I (catchE m h)"
  unfolding keeps_def catchE_def by (simp split: prod.split sum.split) fastforce

lemma keeps_case_option [keeps_intro]:
  "(x = None \<Longrightarrow> keeps I m) \<Longrightarrow> (\<And>v. x = Some v \<Longrightarrow> keeps I (n v)) \<Longrightarrow> keeps I (case x of None \<Rightarrow> m | Some v \<Rightarrow> n v)"
  by (cases x) simp_all

lemma keeps_conj: "keeps I m \<Longrightarrow> keeps J m \<Longrightarrow> keeps (\<lambda>s. I s \<and> J s) m"
  by (simp add: keeps_def)


section \<open>Undoable states\<close>

text \<open>
  The contract of a state with an undo log, shared by the undo database and by the account
  state with its change log: \<open>start\<close> opens a session, \<open>undo\<close> closes it by restoring the
  state before it, and \<open>track b s\<close> is what every operation between them must keep.
  \<open>transact\<close> is the RAII pattern of the code: the session object undoes its changes when
  an exception destroys it.
\<close>

definition transact ::
    "('s \<Rightarrow> 's) \<Rightarrow> ('e, 's, unit) exc \<Rightarrow> ('e, 's, 'a) exc \<Rightarrow> ('e, 's, 'a) exc" where
  "transact start undo body s =
     (case body (start s) of
        (Inl e, t) \<Rightarrow> (Inl e, snd (undo t))
      | (Inr x, t) \<Rightarrow> (Inr x, t))"

locale undoable =
  fixes start :: "'s \<Rightarrow> 's"
    and undo :: "('e, 's, unit) exc"
    and ok :: "'s \<Rightarrow> bool"
    and track :: "'s \<Rightarrow> 's \<Rightarrow> bool"
  assumes track_start: "ok s \<Longrightarrow> track s (start s)"
    and undo_track: "track b s \<Longrightarrow> undo s = (Inr (), b)"
begin

lemma undo_after:
  assumes "ok s" "keeps (track s) m" "m (start s) = (r, t)"
  shows "undo t = (Inr (), s)"
  using keepsD [OF assms(2) track_start [OF assms(1)] assms(3)] by (rule undo_track)

lemma transact_atomic:
  assumes "ok s" "keeps (track s) m" "transact start undo m s = (Inl e, t)"
  shows "t = s"
  using assms undo_after [OF assms(1,2)]
  by (auto simp: transact_def split: prod.splits sum.splits)

lemma transact_result: "fst (transact start undo m s) = fst (m (start s))"
  by (auto simp: transact_def split: prod.splits sum.splits)

end

text \<open>
  A weaker contract: going back to the marked state is only promised up to what can be
  observed of it (\<open>eqv\<close>), and the way back may depend on the mark.
\<close>

locale revertible =
  fixes mark :: "'s \<Rightarrow> 's"
    and revert :: "'s \<Rightarrow> ('e, 's, unit) exc"
    and ok :: "'s \<Rightarrow> bool"
    and track :: "'s \<Rightarrow> 's \<Rightarrow> bool"
    and eqv :: "'s \<Rightarrow> 's \<Rightarrow> bool"
  assumes track_mark: "ok s \<Longrightarrow> track s (mark s)"
    and revert_track: "track b s \<Longrightarrow> \<exists>t. revert b s = (Inr (), t) \<and> eqv b t"
begin

lemma revert_after:
  assumes "ok s" "keeps (track s) m" "m (mark s) = (r, t)"
  shows "\<exists>u. revert s t = (Inr (), u) \<and> eqv s u"
  using keepsD [OF assms(2) track_mark [OF assms(1)] assms(3)] by (rule revert_track)

lemma revert_after_steps:
  assumes "ok s" and step: "\<And>x y. track s x \<Longrightarrow> step x y \<Longrightarrow> track s y" and "step\<^sup>*\<^sup>* (mark s) t"
  shows "\<exists>u. revert s t = (Inr (), u) \<and> eqv s u"
proof -
  from assms(3) track_mark [OF assms(1)] have "track s t"
    by (induction rule: rtranclp_induct) (auto intro: step)
  then show ?thesis by (rule revert_track)
qed

end

sublocale undoable \<subseteq> revertible start "\<lambda>_. undo" ok track "(=)"
  by unfold_locales (simp_all add: track_start undo_track)

end
