(* ===== verification/Chainbase.thy ===== *)
theory Chainbase
  imports Exc
begin

text \<open>
  The undo database of libproducer (\<open>chainbase.hpp\<close>, \<open>chainbase.cpp\<close>):
  \<open>generic_index\<close>, a container of objects with unique keys and a stack of undo states,
  and its operations \<open>emplace\<close>, \<open>modify\<close>, \<open>remove\<close>, \<open>undo\<close>, \<open>squash\<close>,
  \<open>commit\<close>.

  The \<open>boost::multi_index\<close> container is an ordered map from the primary key \<open>id\<close> to
  the object without its \<open>id\<close> field. Its unique secondary indices are one parameter
  \<open>clash v w\<close>, true when two objects agree on a unique secondary key; non-unique
  indices are orderings computed where they are iterated. Every operation takes the
  \<open>clash\<close> of the container it works on. Ids and revisions, \<open>int64_t\<close> in the code, are
  unbounded integers: they are counters that start at zero and grow by one per object or
  session, and the model agrees with the code as long as fewer than \<open>2 ^ 63\<close> are counted.
\<close>

section \<open>Data\<close>

text \<open>The exceptions thrown in libproducer, and the undefined behaviour of the C++ code.\<close>

datatype exn =
    LogicError \<comment> \<open>\<open>std::logic_error\<close>: a uniqueness constraint was violated\<close>
  | OutOfRange \<comment> \<open>\<open>std::out_of_range\<close>: unknown key\<close>
  | OverflowError \<comment> \<open>\<open>std::overflow_error\<close>: producer race time has overflowed\<close>
  | InvalidSignature
  | InvalidProducer
  | InvlidRuningVersion
  | UnknownHardfork
  | HardforkApplyOutOfOrder
  | NoEnoughProducers
  | OtherException \<comment> \<open>an exception of another library\<close>
  | UndefinedBehaviour \<comment> \<open>a dereferenced \<open>end()\<close> iterator, an index out of range\<close>

record 'v undo_state =
  old_values :: "(int, 'v) omap"
  removed_values :: "(int, 'v) omap"
  new_ids :: "int list"
  old_next_id :: int
  us_revision :: int

text \<open>\<open>gx_stack\<close> is the deque \<open>_stack\<close> with its back first.\<close>

record 'v gindex =
  gx_stack :: "'v undo_state list"
  gx_revision :: int
  gx_next_id :: int
  gx_indices :: "(int, 'v) omap"

definition undo_state_init :: "int \<Rightarrow> int \<Rightarrow> 'v undo_state" where
  "undo_state_init nid r =
     \<lparr>old_values = [], removed_values = [], new_ids = [], old_next_id = nid, us_revision = r\<rparr>"

definition gindex_init :: "'v gindex" where
  "gindex_init = \<lparr>gx_stack = [], gx_revision = 0, gx_next_id = 0, gx_indices = []\<rparr>"


section \<open>Operations\<close>

definition enabled :: "'v gindex \<Rightarrow> bool" where
  "enabled gx \<longleftrightarrow> gx_stack gx \<noteq> []"

definition upd_head :: "('v undo_state \<Rightarrow> 'v undo_state) \<Rightarrow> 'v gindex \<Rightarrow> 'v gindex" where
  "upd_head f gx = (case gx_stack gx of [] \<Rightarrow> gx | h # rest \<Rightarrow> gx\<lparr>gx_stack := f h # rest\<rparr>)"

definition on_modify :: "int \<Rightarrow> 'v \<Rightarrow> 'v gindex \<Rightarrow> 'v gindex" where
  "on_modify i v = upd_head (\<lambda>head.
     if i \<in> set (new_ids head) then head
     else if om_find (old_values head) i \<noteq> None then head
     else head\<lparr>old_values := om_emplace i v (old_values head)\<rparr>)"

definition on_remove :: "int \<Rightarrow> 'v \<Rightarrow> 'v gindex \<Rightarrow> 'v gindex" where
  "on_remove i v = upd_head (\<lambda>head.
     if i \<in> set (new_ids head) then head\<lparr>new_ids := os_erase i (new_ids head)\<rparr>
     else case om_find (old_values head) i of
       Some w \<Rightarrow> head\<lparr>removed_values := om_emplace i w (removed_values head),
                      old_values := om_erase i (old_values head)\<rparr>
     | None \<Rightarrow>
         if om_find (removed_values head) i \<noteq> None then head
         else head\<lparr>removed_values := om_emplace i v (removed_values head)\<rparr>)"

definition on_create :: "int \<Rightarrow> 'v gindex \<Rightarrow> 'v gindex" where
  "on_create i = upd_head (\<lambda>head. head\<lparr>new_ids := os_insert i (new_ids head)\<rparr>)"

text \<open>No other object of the container shares a unique secondary key with \<open>v\<close>.\<close>

definition fits :: "('v \<Rightarrow> 'v \<Rightarrow> bool) \<Rightarrow> int \<Rightarrow> 'v \<Rightarrow> (int, 'v) omap \<Rightarrow> bool" where
  "fits clash i v m = list_all (\<lambda>(j, w). j \<noteq> i \<longrightarrow> \<not> clash v w) m"

text \<open>
  The constructor passed to \<open>emplace\<close> may throw; it then leaves the container as it was.
\<close>

definition emplace :: "('v \<Rightarrow> 'v \<Rightarrow> bool) \<Rightarrow> (exn + 'v) \<Rightarrow> (exn, 'v gindex, int) exc" where
  "emplace clash c gx =
     (let new_id = gx_next_id gx in
      case c of
        Inl e \<Rightarrow> (Inl e, gx)
      | Inr v \<Rightarrow>
          if om_find (gx_indices gx) new_id = None \<and> fits clash new_id v (gx_indices gx)
          then (Inr new_id, on_create new_id
                 (gx\<lparr>gx_indices := om_put new_id v (gx_indices gx), gx_next_id := new_id + 1\<rparr>))
          else (Inl LogicError, gx))"

text \<open>
  A modifier returns the object it leaves and, where it throws, the exception: an element
  whose modifier throws stays in the container as the modifier left it, and an element
  that violates a uniqueness constraint after its modification is erased.
\<close>

definition modify ::
    "('v \<Rightarrow> 'v \<Rightarrow> bool) \<Rightarrow> int \<Rightarrow> ('v \<Rightarrow> 'v \<times> exn option) \<Rightarrow> (exn, 'v gindex, unit) exc" where
  "modify clash i m gx =
     (case om_find (gx_indices gx) i of
        None \<Rightarrow> (Inl UndefinedBehaviour, gx)
      | Some v \<Rightarrow>
          let gx' = on_modify i v gx in
          case m v of
            (w, Some e) \<Rightarrow> (Inl e, gx'\<lparr>gx_indices := om_put i w (gx_indices gx')\<rparr>)
          | (w, None) \<Rightarrow>
              if fits clash i w (gx_indices gx')
              then (Inr (), gx'\<lparr>gx_indices := om_put i w (gx_indices gx')\<rparr>)
              else (Inl LogicError, gx'\<lparr>gx_indices := om_erase i (gx_indices gx')\<rparr>))"

definition remove :: "int \<Rightarrow> (exn, 'v gindex, unit) exc" where
  "remove i gx =
     (case om_find (gx_indices gx) i of
        None \<Rightarrow> (Inl UndefinedBehaviour, gx)
      | Some v \<Rightarrow>
          let gx' = on_remove i v gx
          in (Inr (), gx'\<lparr>gx_indices := om_erase i (gx_indices gx')\<rparr>))"

definition gx_find :: "int \<Rightarrow> 'v gindex \<Rightarrow> 'v option" where
  "gx_find i gx = om_find (gx_indices gx) i"

definition gx_get :: "int \<Rightarrow> (exn, 'v gindex, 'v) exc" where
  "gx_get i = bindE (getE (gx_find i)) (theE OutOfRange)"

definition remove_object :: "int \<Rightarrow> (exn, 'v gindex, unit) exc" where
  "remove_object i =
     bindE (getE (gx_find i)) (\<lambda>val. thenE (throwIf (val = None) OutOfRange) (remove i))"

text \<open>
  \<open>start_undo_session\<close> returns the session's revision, \<open>-1\<close> for a disabled session.
\<close>

definition start_undo_session :: "bool \<Rightarrow> (exn, 'v gindex, int) exc" where
  "start_undo_session on gx =
     (if on then
        let r = gx_revision gx + 1
        in (Inr r, gx\<lparr>gx_stack := undo_state_init (gx_next_id gx) r # gx_stack gx,
                      gx_revision := r\<rparr>)
      else (Inr (-1), gx))"

definition restore_old :: "('v \<Rightarrow> 'v \<Rightarrow> bool) \<Rightarrow> int \<Rightarrow> 'v \<Rightarrow> (exn, 'v gindex, unit) exc" where
  "restore_old clash i v gx =
     (if om_find (gx_indices gx) i = None then (Inl UndefinedBehaviour, gx)
      else if fits clash i v (gx_indices gx)
      then (Inr (), gx\<lparr>gx_indices := om_put i v (gx_indices gx)\<rparr>)
      else (Inl LogicError, gx\<lparr>gx_indices := om_erase i (gx_indices gx)\<rparr>))"

definition erase_new :: "int \<Rightarrow> (exn, 'v gindex, unit) exc" where
  "erase_new i gx =
     (if om_find (gx_indices gx) i = None then (Inl UndefinedBehaviour, gx)
      else (Inr (), gx\<lparr>gx_indices := om_erase i (gx_indices gx)\<rparr>))"

definition restore_removed :: "('v \<Rightarrow> 'v \<Rightarrow> bool) \<Rightarrow> int \<Rightarrow> 'v \<Rightarrow> (exn, 'v gindex, unit) exc" where
  "restore_removed clash i v gx =
     (if om_find (gx_indices gx) i = None \<and> fits clash i v (gx_indices gx)
      then (Inr (), gx\<lparr>gx_indices := om_put i v (gx_indices gx)\<rparr>)
      else (Inl LogicError, gx))"

definition undo :: "('v \<Rightarrow> 'v \<Rightarrow> bool) \<Rightarrow> (exn, 'v gindex, unit) exc" where
  "undo clash gx =
     (case gx_stack gx of
        [] \<Rightarrow> ret () gx
      | head # rest \<Rightarrow>
          thenE (forE (old_values head) (\<lambda>(i, v). restore_old clash i v))
         (thenE (forE (new_ids head) erase_new)
         (thenE (updE (\<lambda>g. g\<lparr>gx_next_id := old_next_id head\<rparr>))
         (thenE (forE (removed_values head) (\<lambda>(i, v). restore_removed clash i v))
                (updE (\<lambda>g. g\<lparr>gx_stack := rest, gx_revision := gx_revision g - 1\<rparr>))))) gx)"

text \<open>
  \<open>squash\<close>. The \<open>asserts\<close> of the code print a message and continue, so the
  combinations the comment table marks N/A fall through to the statement after them.
\<close>

definition squash_old :: "'v undo_state \<Rightarrow> int \<times> 'v \<Rightarrow> 'v undo_state" where
  "squash_old prev item =
     (case item of (i, v) \<Rightarrow>
        if i \<in> set (new_ids prev) then prev
        else if om_find (old_values prev) i \<noteq> None then prev
        else prev\<lparr>old_values := om_emplace i v (old_values prev)\<rparr>)"

definition squash_new :: "'v undo_state \<Rightarrow> int \<Rightarrow> 'v undo_state" where
  "squash_new prev i = prev\<lparr>new_ids := os_insert i (new_ids prev)\<rparr>"

definition squash_removed :: "'v undo_state \<Rightarrow> int \<times> 'v \<Rightarrow> 'v undo_state" where
  "squash_removed prev item =
     (case item of (i, v) \<Rightarrow>
        if i \<in> set (new_ids prev) then prev\<lparr>new_ids := os_erase i (new_ids prev)\<rparr>
        else case om_find (old_values prev) i of
          Some x \<Rightarrow> prev\<lparr>removed_values := om_emplace i x (removed_values prev),
                         old_values := om_erase i (old_values prev)\<rparr>
        | None \<Rightarrow> prev\<lparr>removed_values := om_emplace i v (removed_values prev)\<rparr>)"

definition merge_states :: "'v undo_state \<Rightarrow> 'v undo_state \<Rightarrow> 'v undo_state" where
  "merge_states state prev =
     (let p1 = foldl squash_old prev (old_values state);
          p2 = foldl squash_new p1 (new_ids state)
      in foldl squash_removed p2 (removed_values state))"

fun squash :: "'v gindex \<Rightarrow> 'v gindex" where
  "squash gx =
     (case gx_stack gx of
        [] \<Rightarrow> gx
      | [_] \<Rightarrow> gx\<lparr>gx_stack := []\<rparr>
      | state # prev # rest \<Rightarrow>
          gx\<lparr>gx_stack := merge_states state prev # rest, gx_revision := gx_revision gx - 1\<rparr>)"

text \<open>\<open>commit\<close> pops from the front of the deque, the end of the list.\<close>

definition commit :: "int \<Rightarrow> 'v gindex \<Rightarrow> 'v gindex" where
  "commit r gx = gx\<lparr>gx_stack := rev (dropWhile (\<lambda>u. us_revision u \<le> r) (rev (gx_stack gx)))\<rparr>"

primrec undo_times :: "('v \<Rightarrow> 'v \<Rightarrow> bool) \<Rightarrow> nat \<Rightarrow> (exn, 'v gindex, unit) exc" where
  "undo_times clash 0 = ret ()"
| "undo_times clash (Suc n) = thenE (undo clash) (undo_times clash n)"

definition undo_all :: "('v \<Rightarrow> 'v \<Rightarrow> bool) \<Rightarrow> (exn, 'v gindex, unit) exc" where
  "undo_all clash gx = undo_times clash (length (gx_stack gx)) gx"

definition set_revision :: "int \<Rightarrow> (exn, 'v gindex, unit) exc" where
  "set_revision r gx =
     (if gx_stack gx \<noteq> [] then (Inl LogicError, gx) else (Inr (), gx\<lparr>gx_revision := r\<rparr>))"

end
