(* ===== verification/Chainbase_Undo.thy ===== *)
theory Chainbase_Undo
  imports Chainbase
begin

text \<open>
  Correctness of the undo machinery: what an undo state records about the objects created,
  modified and removed since its session started is enough to restore the container, and
  squashing two sessions loses nothing of it.
\<close>

section \<open>Uniqueness constraints\<close>

definition uniq :: "('v \<Rightarrow> 'v \<Rightarrow> bool) \<Rightarrow> (int, 'v) omap \<Rightarrow> bool" where
  "uniq clash m \<longleftrightarrow>
     (\<forall>i v j w. om_find m i = Some v \<longrightarrow> om_find m j = Some w \<longrightarrow> i \<noteq> j \<longrightarrow> \<not> clash v w)"

definition same_keys :: "('v \<Rightarrow> 'v \<Rightarrow> bool) \<Rightarrow> 'v \<Rightarrow> 'v \<Rightarrow> bool" where
  "same_keys clash v w \<longleftrightarrow> (\<forall>u. clash v u = clash w u \<and> clash u v = clash u w)"

text \<open>A modifier that leaves the unique keys of the object alone.\<close>

definition keeps_keys :: "('v \<Rightarrow> 'v \<Rightarrow> bool) \<Rightarrow> ('v \<Rightarrow> 'v \<times> exn option) \<Rightarrow> bool" where
  "keeps_keys clash m \<longleftrightarrow> (\<forall>v. same_keys clash v (fst (m v)))"

lemma same_keys_refl [simp]: "same_keys clash v v"
  by (simp add: same_keys_def)

lemma same_keys_trans: "same_keys clash u v \<Longrightarrow> same_keys clash v w \<Longrightarrow> same_keys clash u w"
  by (simp add: same_keys_def)

lemma same_keys_sym: "same_keys clash u v \<Longrightarrow> same_keys clash v u"
  by (simp add: same_keys_def)

lemma fits_iff:
  "om_wf m \<Longrightarrow> fits clash i v m \<longleftrightarrow> (\<forall>j w. om_find m j = Some w \<longrightarrow> j \<noteq> i \<longrightarrow> \<not> clash v w)"
  by (auto simp: fits_def list_all_iff om_find_in_set split: prod.splits)

lemma uniq_put:
  "uniq clash m \<Longrightarrow> om_find m i = Some v \<Longrightarrow> same_keys clash v w \<Longrightarrow> uniq clash (om_put i w m)"
  by (auto simp: uniq_def same_keys_def split: if_splits) blast+

lemma uniq_put_fresh:
  "om_wf m \<Longrightarrow> uniq clash m \<Longrightarrow> fits clash i v m \<Longrightarrow> (\<And>u. clash u v = clash v u) \<Longrightarrow>
   uniq clash (om_put i v m)"
  by (auto simp: uniq_def fits_iff split: if_splits)

lemma uniq_fits:
  "om_wf m \<Longrightarrow> uniq clash m \<Longrightarrow> om_find m i = Some v \<Longrightarrow> same_keys clash v w \<Longrightarrow> fits clash i w m"
  by (auto simp: uniq_def fits_iff same_keys_def) blast

lemma uniq_erase: "uniq clash m \<Longrightarrow> uniq clash (om_erase i m)"
  by (auto simp: uniq_def split: if_splits)

lemma uniq_submap:
  "uniq clash m \<Longrightarrow> (\<And>i v. om_find n i = Some v \<Longrightarrow> om_find m i = Some v) \<Longrightarrow> uniq clash n"
  unfolding uniq_def by blast


section \<open>What an undo state records\<close>

text \<open>
  \<open>tracks clash m0 n0 h m n\<close>: the undo state \<open>h\<close> leads from the container \<open>m\<close> with
  next id \<open>n\<close> back to the container \<open>m0\<close> with next id \<open>n0\<close>. Ids from \<open>n0\<close> on are the
  new ones; below it a missing object is in \<open>removed_values\<close> with its old value, and a
  present object is either unchanged or in \<open>old_values\<close> with its old value.
\<close>

definition gx_ok :: "('v \<Rightarrow> 'v \<Rightarrow> bool) \<Rightarrow> (int, 'v) omap \<Rightarrow> int \<Rightarrow> bool" where
  "gx_ok clash m n \<longleftrightarrow> om_wf m \<and> uniq clash m \<and> (\<forall>i. om_find m i \<noteq> None \<longrightarrow> i < n)"

definition tracks ::
    "('v \<Rightarrow> 'v \<Rightarrow> bool) \<Rightarrow> (int, 'v) omap \<Rightarrow> int \<Rightarrow> 'v undo_state \<Rightarrow> (int, 'v) omap \<Rightarrow> int \<Rightarrow> bool" where
  "tracks clash m0 n0 h m n \<longleftrightarrow>
     gx_ok clash m0 n0 \<and> gx_ok clash m n \<and> n0 \<le> n \<and> old_next_id h = n0 \<and>
     om_wf (old_values h) \<and> om_wf (removed_values h) \<and> distinct (new_ids h) \<and>
     (\<forall>i. i \<in> set (new_ids h) \<longleftrightarrow> n0 \<le> i \<and> om_find m i \<noteq> None) \<and>
     (\<forall>i. n0 \<le> i \<longrightarrow> om_find (old_values h) i = None \<and> om_find (removed_values h) i = None) \<and>
     (\<forall>i. i < n0 \<longrightarrow> om_find m i = None \<longrightarrow>
        om_find (old_values h) i = None \<and> om_find (removed_values h) i = om_find m0 i) \<and>
     (\<forall>i w. i < n0 \<longrightarrow> om_find m i = Some w \<longrightarrow>
        om_find (removed_values h) i = None \<and>
        (\<exists>v. om_find m0 i = Some v \<and> same_keys clash v w \<and>
             (om_find (old_values h) i = Some v \<or> om_find (old_values h) i = None \<and> v = w)))"

lemma tracks_present:
  assumes "tracks clash m0 n0 h m n" "i < n0" "om_find m i = Some w"
  obtains v where "om_find m0 i = Some v" "same_keys clash v w" "om_find (removed_values h) i = None"
    "om_find (old_values h) i = Some v \<or> om_find (old_values h) i = None \<and> v = w"
  using assms unfolding tracks_def by blast

lemma tracks_absent:
  "tracks clash m0 n0 h m n \<Longrightarrow> i < n0 \<Longrightarrow> om_find m i = None \<Longrightarrow>
   om_find (old_values h) i = None \<and> om_find (removed_values h) i = om_find m0 i"
  unfolding tracks_def by blast

lemma tracks_beyond:
  "tracks clash m0 n0 h m n \<Longrightarrow> n0 \<le> i \<Longrightarrow>
   om_find m0 i = None \<and> om_find (old_values h) i = None \<and> om_find (removed_values h) i = None"
  unfolding tracks_def gx_ok_def by (metis linorder_not_less)

lemma tracks_new: "tracks clash m0 n0 h m n \<Longrightarrow> i \<in> set (new_ids h) \<longleftrightarrow> n0 \<le> i \<and> om_find m i \<noteq> None"
  unfolding tracks_def by blast

lemma tracks_wf:
  assumes "tracks clash m0 n0 h m n"
  shows "om_wf m0" "om_wf m" "uniq clash m0" "uniq clash m" "om_wf (old_values h)"
    "om_wf (removed_values h)" "distinct (new_ids h)" "old_next_id h = n0"
  using assms by (auto simp: tracks_def gx_ok_def)

lemma tracks_old:
  assumes t: "tracks clash m0 n0 h m n" and o: "om_find (old_values h) i = Some v"
  shows "i < n0 \<and> om_find (removed_values h) i = None \<and> (\<exists>w. om_find m i = Some w \<and> same_keys clash w v)"
proof -
  have i: "i < n0" using tracks_beyond [OF t, of i] o by (force simp: not_le)
  then obtain w where w: "om_find m i = Some w"
    using tracks_absent [OF t i] o by (cases "om_find m i") auto
  show ?thesis
    using i w o by (rule_tac tracks_present [OF t i w]) (auto dest: same_keys_sym)
qed

lemma tracks_removed:
  assumes t: "tracks clash m0 n0 h m n" and r: "om_find (removed_values h) i = Some v"
  shows "i < n0 \<and> om_find m i = None \<and> om_find m0 i = Some v"
proof -
  have i: "i < n0" using tracks_beyond [OF t, of i] r by (force simp: not_le)
  then have "om_find m i = None"
    using r by (cases "om_find m i") (auto elim: tracks_present [OF t i])
  with i r tracks_absent [OF t i] show ?thesis by simp
qed

lemma tracks_base:
  assumes t: "tracks clash m0 n0 h m n"
  shows "om_find m0 i =
     (if n0 \<le> i then None
      else case om_find (removed_values h) i of Some v \<Rightarrow> Some v
      | None \<Rightarrow> (case om_find (old_values h) i of Some v \<Rightarrow> Some v | None \<Rightarrow> om_find m i))"
proof (cases "n0 \<le> i")
  case True
  with tracks_beyond [OF t] show ?thesis by simp
next
  case False
  then have i: "i < n0" by simp
  show ?thesis
  proof (cases "om_find m i")
    case None
    with i tracks_absent [OF t i] show ?thesis by (auto split: option.splits)
  next
    case (Some w)
    with i show ?thesis by (rule_tac tracks_present [OF t i Some]) auto
  qed
qed

lemma tracks_init:
  "gx_ok clash m n \<Longrightarrow> tracks clash m n (undo_state_init n r) m n"
  by (auto simp: tracks_def undo_state_init_def gx_ok_def)

lemma tracks_create:
  assumes t: "tracks clash m0 n0 h m n" and f: "om_find m n = None" "fits clash n v m"
    and s: "\<And>u. clash u v = clash v u"
  shows "tracks clash m0 n0 (h\<lparr>new_ids := os_insert n (new_ids h)\<rparr>) (om_put n v m) (n + 1)"
proof -
  from t have ok: "om_wf m" "uniq clash m" "\<And>i. om_find m i \<noteq> None \<Longrightarrow> i < n"
    by (auto simp: tracks_def gx_ok_def)
  then have "gx_ok clash (om_put n v m) (n + 1)"
    using uniq_put_fresh [OF ok(1,2) f(2) s] by (auto simp: gx_ok_def zless_add1_eq intro: less_imp_le)
  then show ?thesis
    using t by (auto simp: tracks_def)
qed

lemma tracks_modify:
  assumes t: "tracks clash m0 n0 h m n" and f: "om_find m i = Some v" and k: "same_keys clash v w"
  shows "tracks clash m0 n0
           (if i \<in> set (new_ids h) then h
            else if om_find (old_values h) i \<noteq> None then h
            else h\<lparr>old_values := om_emplace i v (old_values h)\<rparr>)
           (om_put i w m) n"
proof -
  from t f k have ok: "gx_ok clash (om_put i w m) n"
    by (auto simp: tracks_def gx_ok_def uniq_put)
  show ?thesis
  proof (cases "i \<in> set (new_ids h)")
    case True
    with t ok f show ?thesis by (auto simp: tracks_def)
  next
    case False
    with tracks_new [OF t, of i] f have "i < n0" by auto
    with t f obtain v0 where v0: "om_find m0 i = Some v0" "same_keys clash v0 v"
        "om_find (removed_values h) i = None"
        "om_find (old_values h) i = Some v0 \<or> om_find (old_values h) i = None \<and> v0 = v"
      by (blast elim: tracks_present)
    with k have "same_keys clash v0 w" by (blast intro: same_keys_trans)
    with False \<open>i < n0\<close> t ok f v0 show ?thesis
      by (auto simp: tracks_def)
  qed
qed

lemma tracks_remove:
  assumes t: "tracks clash m0 n0 h m n" and f: "om_find m i = Some v"
  shows "tracks clash m0 n0
           (if i \<in> set (new_ids h) then h\<lparr>new_ids := os_erase i (new_ids h)\<rparr>
            else case om_find (old_values h) i of
              Some w \<Rightarrow> h\<lparr>removed_values := om_emplace i w (removed_values h),
                          old_values := om_erase i (old_values h)\<rparr>
            | None \<Rightarrow> if om_find (removed_values h) i \<noteq> None then h
                      else h\<lparr>removed_values := om_emplace i v (removed_values h)\<rparr>)
           (om_erase i m) n"
proof -
  from t have ok: "gx_ok clash (om_erase i m) n"
    by (auto simp: tracks_def gx_ok_def uniq_erase)
  show ?thesis
  proof (cases "i \<in> set (new_ids h)")
    case True
    with t ok f show ?thesis by (auto simp: tracks_def)
  next
    case False
    with tracks_new [OF t, of i] f have "i < n0" by auto
    with t f obtain v0 where v0: "om_find m0 i = Some v0" "om_find (removed_values h) i = None"
        "om_find (old_values h) i = Some v0 \<or> om_find (old_values h) i = None \<and> v0 = v"
      by (blast elim: tracks_present)
    with False \<open>i < n0\<close> t ok f v0 show ?thesis
      by (auto simp: tracks_def)
  qed
qed


section \<open>Undo restores the container\<close>

lemma forE_restore_old:
  assumes "om_wf (gx_indices gx)" "uniq clash (gx_indices gx)" "distinct (map fst xs)"
    "\<And>i v. (i, v) \<in> set xs \<Longrightarrow> \<exists>w. om_find (gx_indices gx) i = Some w \<and> same_keys clash w v"
  shows "\<exists>m. forE xs (\<lambda>(i, v). restore_old clash i v) gx = (Inr (), gx\<lparr>gx_indices := m\<rparr>) \<and>
     om_wf m \<and> (\<forall>i. om_find m i = (case om_find xs i of Some v \<Rightarrow> Some v | None \<Rightarrow> om_find (gx_indices gx) i))"
  using assms
proof (induction xs arbitrary: gx)
  case Nil
  then show ?case by (intro exI [of _ "gx_indices gx"]) simp
next
  case (Cons x xs)
  obtain i v where x: "x = (i, v)" by (cases x)
  from Cons.prems(4) [of i v] x obtain w where w: "om_find (gx_indices gx) i = Some w" "same_keys clash w v"
    by auto
  let ?g = "gx\<lparr>gx_indices := om_put i v (gx_indices gx)\<rparr>"
  have step: "restore_old clash i v gx = (Inr (), ?g)"
    using w uniq_fits [OF Cons.prems(1,2) w] by (simp add: restore_old_def)
  have "\<exists>w'. om_find (gx_indices ?g) j = Some w' \<and> same_keys clash w' u" if "(j, u) \<in> set xs" for j u
    using Cons.prems(3,4) that x by (force intro: rev_image_eqI)
  then obtain m where m: "forE xs (\<lambda>(i, v). restore_old clash i v) ?g = (Inr (), ?g\<lparr>gx_indices := m\<rparr>)"
      "om_wf m" "\<forall>j. om_find m j = (case om_find xs j of Some v \<Rightarrow> Some v | None \<Rightarrow> om_find (gx_indices ?g) j)"
    using Cons.IH [of ?g] Cons.prems(1-3) uniq_put [OF Cons.prems(2) w] by force
  have "i \<notin> fst ` set xs" using Cons.prems(3) x by simp
  then have "om_find xs i = None" by (simp add: om_find_None)
  with m step x show ?case
    by (intro exI [of _ m]) (auto simp: exc_defs om_find_Cons split: option.splits)
qed

lemma forE_erase_new:
  assumes "om_wf (gx_indices gx)" "distinct xs" "\<And>i. i \<in> set xs \<Longrightarrow> om_find (gx_indices gx) i \<noteq> None"
  shows "\<exists>m. forE xs erase_new gx = (Inr (), gx\<lparr>gx_indices := m\<rparr>) \<and> om_wf m \<and>
     (\<forall>i. om_find m i = (if i \<in> set xs then None else om_find (gx_indices gx) i))"
  using assms
proof (induction xs arbitrary: gx)
  case Nil
  then show ?case by (intro exI [of _ "gx_indices gx"]) simp
next
  case (Cons i xs)
  let ?g = "gx\<lparr>gx_indices := om_erase i (gx_indices gx)\<rparr>"
  have step: "erase_new i gx = (Inr (), ?g)"
    using Cons.prems(3) [of i] by (simp add: erase_new_def)
  have "om_find (gx_indices ?g) j \<noteq> None" if "j \<in> set xs" for j
    using Cons.prems(2,3) that by auto
  then obtain m where m: "forE xs erase_new ?g = (Inr (), ?g\<lparr>gx_indices := m\<rparr>)"
      "om_wf m" "\<forall>j. om_find m j = (if j \<in> set xs then None else om_find (gx_indices ?g) j)"
    using Cons.IH [of ?g] Cons.prems(1,2) by force
  with step show ?case
    by (intro exI [of _ m]) (auto simp: exc_defs)
qed

lemma forE_restore_removed:
  assumes "om_wf (gx_indices gx)" "distinct (map fst xs)" "om_wf m0" "uniq clash m0"
    "\<And>i v. (i, v) \<in> set xs \<Longrightarrow> om_find (gx_indices gx) i = None"
    "\<And>i. om_find m0 i = (case om_find xs i of Some v \<Rightarrow> Some v | None \<Rightarrow> om_find (gx_indices gx) i)"
  shows "forE xs (\<lambda>(i, v). restore_removed clash i v) gx = (Inr (), gx\<lparr>gx_indices := m0\<rparr>)"
  using assms
proof (induction xs arbitrary: gx)
  case Nil
  then have "gx_indices gx = m0" by (intro om_eqI) auto
  then show ?case by auto
next
  case (Cons x xs)
  obtain i v where x: "x = (i, v)" by (cases x)
  let ?g = "gx\<lparr>gx_indices := om_put i v (gx_indices gx)\<rparr>"
  have i: "om_find (gx_indices gx) i = None" "om_find m0 i = Some v"
    using Cons.prems(5,6) [of i] x by (auto simp: om_find_Cons)
  have sub: "om_find m0 j = Some w" if "om_find (gx_indices gx) j = Some w" for j w
  proof (cases "om_find (x # xs) j")
    case None
    with Cons.prems(6) [of j] that show ?thesis by simp
  next
    case (Some u)
    with Cons.prems(5) [of j u] that show ?thesis by (metis om_find_SomeD option.distinct(1))
  qed
  have "fits clash i v (gx_indices gx)"
    using Cons.prems(4) i(2) sub unfolding fits_iff [OF Cons.prems(1)] uniq_def by blast
  then have step: "restore_removed clash i v gx = (Inr (), ?g)"
    using i by (simp add: restore_removed_def)
  have ni: "i \<notin> fst ` set xs" using Cons.prems(2) x by simp
  then have "om_find xs i = None" by (simp add: om_find_None)
  then have "om_find m0 j = (case om_find xs j of Some v \<Rightarrow> Some v | None \<Rightarrow> om_find (gx_indices ?g) j)" for j
    using Cons.prems(6) [of j] x by (cases "om_find xs j") (auto simp: om_find_Cons)
  moreover have "om_find (gx_indices ?g) j = None" if "(j, w) \<in> set xs" for j w
    using Cons.prems(5) [of j w] that ni x by (auto intro: rev_image_eqI)
  ultimately have "forE xs (\<lambda>(i, v). restore_removed clash i v) ?g = (Inr (), ?g\<lparr>gx_indices := m0\<rparr>)"
    using Cons.prems by (intro Cons.IH) auto
  with step x show ?case by (simp add: exc_defs)
qed


text \<open>
  \<open>gx_tracking clash b g\<close>: the newest undo state of \<open>g\<close> was pushed by a session started
  in \<open>b\<close>, and leads back to it.
\<close>

definition gx_tracking :: "('v \<Rightarrow> 'v \<Rightarrow> bool) \<Rightarrow> 'v gindex \<Rightarrow> 'v gindex \<Rightarrow> bool" where
  "gx_tracking clash b g \<longleftrightarrow>
     (\<exists>h. gx_stack g = h # gx_stack b \<and> us_revision h = gx_revision b + 1 \<and>
          gx_revision g = gx_revision b + 1 \<and>
          tracks clash (gx_indices b) (gx_next_id b) h (gx_indices g) (gx_next_id g))"

lemma undo_tracking:
  assumes "gx_tracking clash b g"
  shows "undo clash g = (Inr (), b)"
proof -
  from assms obtain h where h: "gx_stack g = h # gx_stack b" "gx_revision g = gx_revision b + 1"
      "tracks clash (gx_indices b) (gx_next_id b) h (gx_indices g) (gx_next_id g)"
    by (auto simp: gx_tracking_def)
  let ?cur = "gx_indices g" and ?base = "gx_indices b" and ?nb = "gx_next_id b"
  note t = h(3) and wf = tracks_wf [OF h(3)]
  have own: "\<exists>w. om_find ?cur i = Some w \<and> same_keys clash w v" if "(i, v) \<in> set (old_values h)" for i v
    using that wf(5) tracks_old [OF t, of i v] by (simp add: om_find_in_set)
  obtain m1 where m1: "forE (old_values h) (\<lambda>(i, v). restore_old clash i v) g =
        (Inr (), g\<lparr>gx_indices := m1\<rparr>)" "om_wf m1"
      "\<forall>i. om_find m1 i = (case om_find (old_values h) i of Some v \<Rightarrow> Some v | None \<Rightarrow> om_find ?cur i)"
    using forE_restore_old [OF wf(2,4) om_wf_distinct [OF wf(5)] own] by blast
  let ?ga = "g\<lparr>gx_indices := m1\<rparr>"
  have "om_find (gx_indices ?ga) i \<noteq> None" if "i \<in> set (new_ids h)" for i
    using that m1(3) tracks_new [OF t, of i] by (auto split: option.splits)
  then obtain m2 where m2: "forE (new_ids h) erase_new ?ga = (Inr (), ?ga\<lparr>gx_indices := m2\<rparr>)" "om_wf m2"
      "\<forall>i. om_find m2 i = (if i \<in> set (new_ids h) then None else om_find (gx_indices ?ga) i)"
    using forE_erase_new [of ?ga "new_ids h"] wf(7) m1(2) by auto
  let ?gb = "g\<lparr>gx_indices := m2, gx_next_id := ?nb\<rparr>"
  have m2': "om_find m2 i = (if ?nb \<le> i then None else
      case om_find (old_values h) i of Some v \<Rightarrow> Some v | None \<Rightarrow> om_find ?cur i)" for i
    using m1(3) m2(3) tracks_new [OF t, of i] tracks_beyond [OF t, of i]
    by (cases "om_find ?cur i") auto
  have "forE (removed_values h) (\<lambda>(i, v). restore_removed clash i v) ?gb = (Inr (), ?gb\<lparr>gx_indices := ?base\<rparr>)"
  proof (rule forE_restore_removed)
    fix i
    show "om_find ?base i = (case om_find (removed_values h) i of Some v \<Rightarrow> Some v | None \<Rightarrow> om_find (gx_indices ?gb) i)"
      using m2' [of i] tracks_base [OF t, of i] tracks_beyond [OF t, of i] by (auto split: option.splits)
  next
    fix i v assume "(i, v) \<in> set (removed_values h)"
    then show "om_find (gx_indices ?gb) i = None"
      using m2' [of i] wf(6) tracks_removed [OF t, of i v] tracks_old [OF t, of i]
      by (cases "om_find (old_values h) i") (auto simp flip: om_find_in_set)
  qed (use wf m2 in \<open>auto simp: om_wf_distinct\<close>)
  then show ?thesis
    using h(1,2) m1(1) m2(1) wf(8) by (simp add: undo_def exc_defs)
qed


section \<open>Every operation is tracked\<close>

lemma emplace_tracking:
  assumes "gx_tracking clash b g" "\<And>u v. clash u v = clash v u" "emplace clash c g = (r, g')"
  shows "gx_tracking clash b g'"
proof (cases "g' = g")
  case False
  with assms(3) obtain v where v: "c = Inr v" "om_find (gx_indices g) (gx_next_id g) = None"
      "fits clash (gx_next_id g) v (gx_indices g)"
      "g' = on_create (gx_next_id g)
        (g\<lparr>gx_indices := om_put (gx_next_id g) v (gx_indices g), gx_next_id := gx_next_id g + 1\<rparr>)"
    by (auto simp: emplace_def Let_def split: sum.splits if_splits)
  with assms(1) tracks_create [OF _ v(2,3) assms(2)] show ?thesis
    by (auto simp: gx_tracking_def on_create_def upd_head_def)
qed (use assms in simp)

lemma modify_tracking:
  assumes t: "gx_tracking clash b g" and k: "keeps_keys clash m" and r: "modify clash i m g = (r, g')"
  shows "gx_tracking clash b g'"
proof (cases "om_find (gx_indices g) i")
  case None
  with r t show ?thesis by (simp add: modify_def)
next
  case (Some v)
  obtain w e where m: "m v = (w, e)" by (cases "m v")
  with k have s: "same_keys clash v w" by (metis fst_conv keeps_keys_def)
  have i: "gx_indices (on_modify i v g) = gx_indices g"
    by (simp add: on_modify_def upd_head_def split: list.splits)
  have "fits clash i w (gx_indices g)"
    using t Some s by (auto simp: gx_tracking_def tracks_def gx_ok_def intro: uniq_fits)
  with r Some m i have "g' = (on_modify i v g)\<lparr>gx_indices := om_put i w (gx_indices g)\<rparr>"
    by (auto simp: modify_def Let_def split: option.splits)
  with t tracks_modify [OF _ Some s] show ?thesis
    by (auto simp: gx_tracking_def on_modify_def upd_head_def)
qed

lemma remove_tracking:
  assumes t: "gx_tracking clash b g" and r: "remove i g = (r, g')"
  shows "gx_tracking clash b g'"
proof (cases "om_find (gx_indices g) i")
  case None
  with r t show ?thesis by (simp add: remove_def)
next
  case (Some v)
  have "gx_indices (on_remove i v g) = gx_indices g"
    by (simp add: on_remove_def upd_head_def split: list.splits)
  with r Some have "g' = (on_remove i v g)\<lparr>gx_indices := om_erase i (gx_indices g)\<rparr>"
    by (auto simp: remove_def Let_def)
  moreover from t obtain h where h: "gx_stack g = h # gx_stack b" "us_revision h = gx_revision b + 1"
      "gx_revision g = gx_revision b + 1"
      "tracks clash (gx_indices b) (gx_next_id b) h (gx_indices g) (gx_next_id g)"
    by (auto simp: gx_tracking_def)
  ultimately show ?thesis
    using tracks_remove [OF h(4) Some]
    by (auto simp: gx_tracking_def on_remove_def upd_head_def split: option.splits if_splits)
qed

lemmas gx_op_tracking [keeps_intro] =
  keepsI [of "gx_tracking clash b" "emplace clash c" for clash b c, OF emplace_tracking]
  keepsI [of "gx_tracking clash b" "modify clash i m" for clash b i m, OF modify_tracking]
  keepsI [of "gx_tracking clash b" "remove i" for clash b i, OF remove_tracking]

lemma start_tracking:
  "gx_ok clash (gx_indices g) (gx_next_id g) \<Longrightarrow> gx_tracking clash g (snd (start_undo_session True g))"
  by (auto simp: gx_tracking_def start_undo_session_def Let_def undo_state_init_def
      intro: tracks_init [unfolded undo_state_init_def])

interpretation gx: undoable
    "\<lambda>g. snd (start_undo_session True g)" "undo clash"
    "\<lambda>g. gx_ok clash (gx_indices g) (gx_next_id g)" "gx_tracking clash"
  for clash
  by unfold_locales (simp_all add: start_tracking undo_tracking)


section \<open>Squash\<close>

lemma foldl_squash_old:
  assumes "distinct (map fst xs)" "om_wf (old_values p)"
  shows "\<exists>m. foldl squash_old p xs = p\<lparr>old_values := m\<rparr> \<and> om_wf m \<and>
    (\<forall>i. om_find m i = (if i \<in> set (new_ids p) \<or> om_find (old_values p) i \<noteq> None
                        then om_find (old_values p) i else om_find xs i))"
  using assms
proof (induction xs arbitrary: p)
  case Nil
  then show ?case by (intro exI [of _ "old_values p"]) auto
next
  case (Cons x xs)
  obtain i v where x: "x = (i, v)" by (cases x)
  have nx: "om_find xs i = None" using Cons.prems(1) x by (simp add: om_find_None)
  have wf: "om_wf (old_values (squash_old p x))"
    using Cons.prems(2) x by (auto simp: squash_old_def)
  obtain m where m: "foldl squash_old (squash_old p x) xs = (squash_old p x)\<lparr>old_values := m\<rparr>" "om_wf m"
    "\<forall>j. om_find m j = (if j \<in> set (new_ids (squash_old p x)) \<or> om_find (old_values (squash_old p x)) j \<noteq> None
                        then om_find (old_values (squash_old p x)) j else om_find xs j)"
    using Cons.IH [OF _ wf] Cons.prems(1) by auto
  have "(squash_old p x)\<lparr>old_values := m\<rparr> = p\<lparr>old_values := m\<rparr>"
    using x by (auto simp: squash_old_def)
  with m(1) have "foldl squash_old p (x # xs) = p\<lparr>old_values := m\<rparr>" by simp
  moreover have "om_find m j = (if j \<in> set (new_ids p) \<or> om_find (old_values p) j \<noteq> None
      then om_find (old_values p) j else om_find (x # xs) j)" for j
    using m(3) [rule_format, of j] x nx by (auto simp: squash_old_def om_find_Cons)
  ultimately show ?case using m(2) by blast
qed

lemma foldl_squash_new:
  "distinct (new_ids p) \<Longrightarrow>
   \<exists>ns. foldl squash_new p xs = p\<lparr>new_ids := ns\<rparr> \<and> distinct ns \<and> set ns = set (new_ids p) \<union> set xs"
proof (induction xs arbitrary: p)
  case Nil
  then show ?case by (intro exI [of _ "new_ids p"]) auto
next
  case (Cons x xs)
  have "distinct (new_ids (squash_new p x))" using Cons.prems by (simp add: squash_new_def)
  from Cons.IH [OF this] show ?case by (auto simp: squash_new_def)
qed

lemma foldl_squash_removed:
  assumes "distinct (map fst xs)" "om_wf (old_values p)" "om_wf (removed_values p)" "distinct (new_ids p)"
  shows "\<exists>old rem ns. foldl squash_removed p xs = p\<lparr>old_values := old, removed_values := rem, new_ids := ns\<rparr> \<and>
    om_wf old \<and> om_wf rem \<and> distinct ns \<and>
    (\<forall>i. i \<in> set ns \<longleftrightarrow> i \<in> set (new_ids p) \<and> om_find xs i = None) \<and>
    (\<forall>i. om_find old i = (if om_find xs i \<noteq> None \<and> i \<notin> set (new_ids p) then None else om_find (old_values p) i)) \<and>
    (\<forall>i. om_find rem i = (case om_find xs i of None \<Rightarrow> om_find (removed_values p) i
       | Some v \<Rightarrow> if i \<in> set (new_ids p) then om_find (removed_values p) i
           else case om_find (removed_values p) i of Some y \<Rightarrow> Some y
           | None \<Rightarrow> (case om_find (old_values p) i of Some x \<Rightarrow> Some x | None \<Rightarrow> Some v)))"
  using assms
proof (induction xs arbitrary: p)
  case Nil
  then show ?case
    by (intro exI [of _ "old_values p"] exI [of _ "removed_values p"] exI [of _ "new_ids p"]) auto
next
  case (Cons x xs)
  obtain i v where x: "x = (i, v)" by (cases x)
  let ?p = "squash_removed p x"
  have nx: "om_find xs i = None" using Cons.prems(1) x by (simp add: om_find_None)
  have wf: "om_wf (old_values ?p)" "om_wf (removed_values ?p)" "distinct (new_ids ?p)"
    using Cons.prems x by (auto simp: squash_removed_def split: option.splits)
  have dx: "distinct (map fst xs)" using Cons.prems(1) by simp
  from Cons.IH [OF dx wf] obtain old rem ns where
    f: "foldl squash_removed ?p xs = ?p\<lparr>old_values := old, removed_values := rem, new_ids := ns\<rparr>"
      "om_wf old" "om_wf rem" "distinct ns"
    and ns: "\<And>j. j \<in> set ns \<longleftrightarrow> j \<in> set (new_ids ?p) \<and> om_find xs j = None"
    and old: "\<And>j. om_find old j = (if om_find xs j \<noteq> None \<and> j \<notin> set (new_ids ?p) then None else om_find (old_values ?p) j)"
    and rem: "\<And>j. om_find rem j = (case om_find xs j of None \<Rightarrow> om_find (removed_values ?p) j
       | Some v \<Rightarrow> if j \<in> set (new_ids ?p) then om_find (removed_values ?p) j
           else case om_find (removed_values ?p) j of Some y \<Rightarrow> Some y
           | None \<Rightarrow> (case om_find (old_values ?p) j of Some x \<Rightarrow> Some x | None \<Rightarrow> Some v))"
    by blast
  have "?p\<lparr>old_values := old, removed_values := rem, new_ids := ns\<rparr> =
      p\<lparr>old_values := old, removed_values := rem, new_ids := ns\<rparr>"
    using x by (auto simp: squash_removed_def split: option.splits)
  with f have "foldl squash_removed p (x # xs) = p\<lparr>old_values := old, removed_values := rem, new_ids := ns\<rparr>"
    by simp
  moreover have "j \<in> set ns \<longleftrightarrow> j \<in> set (new_ids p) \<and> om_find (x # xs) j = None" for j
    using ns [of j] x nx by (auto simp: squash_removed_def om_find_Cons split: option.splits)
  moreover have "om_find old j =
      (if om_find (x # xs) j \<noteq> None \<and> j \<notin> set (new_ids p) then None else om_find (old_values p) j)" for j
    using old [of j] x nx by (auto simp: squash_removed_def om_find_Cons split: option.splits)
  moreover have "om_find rem j = (case om_find (x # xs) j of None \<Rightarrow> om_find (removed_values p) j
       | Some v \<Rightarrow> if j \<in> set (new_ids p) then om_find (removed_values p) j
           else case om_find (removed_values p) j of Some y \<Rightarrow> Some y
           | None \<Rightarrow> (case om_find (old_values p) j of Some x \<Rightarrow> Some x | None \<Rightarrow> Some v))" for j
    using rem [of j] x nx by (auto simp: squash_removed_def om_find_Cons split: option.splits)
  ultimately show ?case using f(2-4) by blast
qed


text \<open>
  The two sessions compose: if \<open>h1\<close> leads from \<open>m1\<close> back to \<open>m0\<close> and \<open>h2\<close> from
  \<open>m2\<close> back to \<open>m1\<close>, the merged undo state leads from \<open>m2\<close> back to \<open>m0\<close>.
\<close>

lemma tracks_squash:
  assumes t1: "tracks clash m0 n0 h1 m1 n1" and t2: "tracks clash m1 n1 h2 m2 n2"
  shows "tracks clash m0 n0 (merge_states h2 h1) m2 n2"
proof -
  note wf1 = tracks_wf [OF t1] and wf2 = tracks_wf [OF t2]
  have le: "n0 \<le> n1" "n1 \<le> n2" using t1 t2 by (auto simp: tracks_def)
  obtain o1 where o1: "foldl squash_old h1 (old_values h2) = h1\<lparr>old_values := o1\<rparr>" "om_wf o1"
    "\<And>i. om_find o1 i = (if i \<in> set (new_ids h1) \<or> om_find (old_values h1) i \<noteq> None
                     then om_find (old_values h1) i else om_find (old_values h2) i)"
    using foldl_squash_old [OF om_wf_distinct [OF wf2(5)] wf1(5)] by blast
  obtain ns where ns: "foldl squash_new (h1\<lparr>old_values := o1\<rparr>) (new_ids h2) = h1\<lparr>old_values := o1, new_ids := ns\<rparr>"
    "distinct ns" "set ns = set (new_ids h1) \<union> set (new_ids h2)"
    using foldl_squash_new [of "h1\<lparr>old_values := o1\<rparr>" "new_ids h2"] wf1(7) by auto
  let ?p = "h1\<lparr>old_values := o1, new_ids := ns\<rparr>"
  have p: "om_wf (old_values ?p)" "om_wf (removed_values ?p)" "distinct (new_ids ?p)"
    using o1(2) wf1(6) ns(2) by simp_all
  have ms: "merge_states h2 h1 = foldl squash_removed ?p (removed_values h2)"
    by (simp add: merge_states_def o1(1) ns(1))
  from foldl_squash_removed [OF om_wf_distinct [OF wf2(6)] p, folded ms]
  obtain old rem ns' where
    f: "merge_states h2 h1 = ?p\<lparr>old_values := old, removed_values := rem, new_ids := ns'\<rparr>"
      "om_wf old" "om_wf rem" "distinct ns'"
    and n': "\<And>i. i \<in> set ns' \<longleftrightarrow> i \<in> set (new_ids ?p) \<and> om_find (removed_values h2) i = None"
    and old: "\<And>i. om_find old i = (if om_find (removed_values h2) i \<noteq> None \<and> i \<notin> set (new_ids ?p)
      then None else om_find (old_values ?p) i)"
    and rem: "\<And>i. om_find rem i = (case om_find (removed_values h2) i of None \<Rightarrow> om_find (removed_values ?p) i
       | Some v \<Rightarrow> if i \<in> set (new_ids ?p) then om_find (removed_values ?p) i
           else case om_find (removed_values ?p) i of Some y \<Rightarrow> Some y
           | None \<Rightarrow> (case om_find (old_values ?p) i of Some x \<Rightarrow> Some x | None \<Rightarrow> Some v))"
    by blast
  have sel: "old_values ?p = o1" "removed_values ?p = removed_values h1" "new_ids ?p = ns" by simp_all
  note n' = n' [unfolded sel] and old = old [unfolded sel] and rem = rem [unfolded sel]
  have new1: "i \<in> set (new_ids h1) \<longleftrightarrow> n0 \<le> i \<and> om_find m1 i \<noteq> None" for i by (rule tracks_new [OF t1])
  have new2: "i \<in> set (new_ids h2) \<longleftrightarrow> n1 \<le> i \<and> om_find m2 i \<noteq> None" for i by (rule tracks_new [OF t2])
  have lt1: "i < n1" if "om_find m1 i = Some v" for i v
    using t1 that by (auto simp: tracks_def gx_ok_def)
  have ids: "i \<in> set ns' \<longleftrightarrow> n0 \<le> i \<and> om_find m2 i \<noteq> None" for i
  proof (cases "n1 \<le> i")
    case True
    then show ?thesis using n' [of i] ns(3) new1 new2 le tracks_beyond [OF t2 True] by auto
  next
    case False
    then have i: "i < n1" by simp
    show ?thesis
      using n' [of i] ns(3) new1 new2 i tracks_absent [OF t2 i]
      by (cases "om_find m2 i") (auto elim: tracks_present [OF t2 i])
  qed
  have none: "om_find old i = None \<and> om_find rem i = None" if "n0 \<le> i" for i
  proof (cases "om_find m1 i")
    case None
    then have "om_find (old_values h2) i = None" "om_find (removed_values h2) i = None"
      using tracks_old [OF t2, of i] tracks_removed [OF t2, of i] tracks_present [OF t2, of i]
      by (cases "om_find (old_values h2) i"; cases "om_find (removed_values h2) i"; force)+
    then show ?thesis using old [of i] rem [of i] o1(3) [of i] tracks_beyond [OF t1 that] by simp
  next
    case (Some v)
    then show ?thesis
      using that old [of i] rem [of i] o1(3) [of i] tracks_beyond [OF t1 that] new1 ns(3)
      by (auto split: option.splits)
  qed
  have gone: "om_find old i = None \<and> om_find rem i = om_find m0 i" if i: "i < n0" "om_find m2 i = None" for i
  proof -
    have i1: "i < n1" using i le by simp
    have nns: "i \<notin> set ns" using i le ns(3) new1 new2 by auto
    note a2 = tracks_absent [OF t2 i1 i(2)]
    show ?thesis
    proof (cases "om_find m1 i")
      case None
      with a2 tracks_absent [OF t1 i(1) None] old [of i] rem [of i] o1(3) [of i] show ?thesis by simp
    next
      case (Some w)
      obtain v where "om_find m0 i = Some v" "om_find (removed_values h1) i = None"
        "om_find (old_values h1) i = Some v \<or> om_find (old_values h1) i = None \<and> v = w"
        by (rule tracks_present [OF t1 i(1) Some])
      with Some a2 nns old [of i] rem [of i] o1(3) [of i] i(1) new1 show ?thesis by auto
    qed
  qed
  have here: "om_find rem i = None \<and> (\<exists>v. om_find m0 i = Some v \<and> same_keys clash v w \<and>
      (om_find old i = Some v \<or> om_find old i = None \<and> v = w))" if i: "i < n0" "om_find m2 i = Some w" for i w
  proof -
    have i1: "i < n1" using i le by simp
    obtain w1 where w1: "om_find m1 i = Some w1" "same_keys clash w1 w" "om_find (removed_values h2) i = None"
      "om_find (old_values h2) i = Some w1 \<or> om_find (old_values h2) i = None \<and> w1 = w"
      by (rule tracks_present [OF t2 i1 i(2)])
    obtain v where v: "om_find m0 i = Some v" "same_keys clash v w1" "om_find (removed_values h1) i = None"
      "om_find (old_values h1) i = Some v \<or> om_find (old_values h1) i = None \<and> v = w1"
      by (rule tracks_present [OF t1 i(1) w1(1)])
    have "same_keys clash v w" using w1(2) v(2) by (blast intro: same_keys_trans)
    then show ?thesis
      using w1(3,4) v old [of i] rem [of i] o1(3) [of i] new1 i(1) by auto
  qed
  show ?thesis
    unfolding tracks_def f(1)
    using t1 t2 le f(2-4) ids none gone here wf1(8) by (simp add: tracks_def)
qed

lemma us_revision_merge: "us_revision (merge_states h2 h1) = us_revision h1"
proof -
  have 1: "us_revision (foldl squash_old p xs) = us_revision p" for p :: "'a undo_state" and xs
    by (induction xs arbitrary: p) (auto simp: squash_old_def split: prod.splits)
  have 2: "us_revision (foldl squash_new p xs) = us_revision p" for p :: "'a undo_state" and xs
    by (induction xs arbitrary: p) (auto simp: squash_new_def)
  have 3: "us_revision (foldl squash_removed p xs) = us_revision p" for p :: "'a undo_state" and xs
    by (induction xs arbitrary: p) (auto simp: squash_removed_def split: prod.splits option.splits)
  show ?thesis by (simp add: merge_states_def Let_def 1 2 3)
qed

lemma squash_tracking:
  assumes "gx_tracking clash b g1" "gx_tracking clash g1 g2"
  shows "gx_tracking clash b (squash g2)"
proof -
  from assms obtain h1 h2 where
    h1: "gx_stack g1 = h1 # gx_stack b" "us_revision h1 = gx_revision b + 1" "gx_revision g1 = gx_revision b + 1"
      "tracks clash (gx_indices b) (gx_next_id b) h1 (gx_indices g1) (gx_next_id g1)"
    and h2: "gx_stack g2 = h2 # gx_stack g1" "gx_revision g2 = gx_revision g1 + 1"
      "tracks clash (gx_indices g1) (gx_next_id g1) h2 (gx_indices g2) (gx_next_id g2)"
    by (auto simp: gx_tracking_def)
  with h1 tracks_squash [OF h1(4) h2(3)] us_revision_merge [of h2 h1] show ?thesis
    by (auto simp: gx_tracking_def)
qed


section \<open>Sequences of operations\<close>

lemma dropWhile_sorted_filter:
  fixes f :: "'a \<Rightarrow> int"
  shows "sorted_wrt (\<lambda>u v. f u < f v) xs \<Longrightarrow> dropWhile (\<lambda>u. f u \<le> r) xs = filter (\<lambda>u. r < f u) xs"
proof (induction xs)
  case (Cons x xs)
  then show ?case
  proof (cases "f x \<le> r")
    case False
    with Cons.prems have "filter (\<lambda>u. r < f u) xs = xs" by (auto simp: filter_id_conv)
    with False show ?thesis by simp
  qed simp
qed simp

datatype 'v db_op =
    OpCreate "exn + 'v"
  | OpModify int "'v \<Rightarrow> 'v \<times> exn option"
  | OpRemove int

fun exec_op :: "('v \<Rightarrow> 'v \<Rightarrow> bool) \<Rightarrow> 'v db_op \<Rightarrow> (exn, 'v gindex, unit) exc" where
  "exec_op clash (OpCreate c) = thenE (emplace clash c) (ret ())"
| "exec_op clash (OpModify i m) = modify clash i m"
| "exec_op clash (OpRemove i) = remove i"

definition run_ops :: "('v \<Rightarrow> 'v \<Rightarrow> bool) \<Rightarrow> 'v db_op list \<Rightarrow> (exn, 'v gindex, unit) exc" where
  "run_ops clash ops = forE ops (exec_op clash)"

fun op_keeps_keys :: "('v \<Rightarrow> 'v \<Rightarrow> bool) \<Rightarrow> 'v db_op \<Rightarrow> bool" where
  "op_keeps_keys clash (OpModify i m) = keeps_keys clash m"
| "op_keeps_keys clash _ = True"

text \<open>An index with two objects, and sessions on it that modify, create, remove and fail.\<close>

definition wit_clash :: "nat \<times> nat \<Rightarrow> nat \<times> nat \<Rightarrow> bool" where
  "wit_clash v w \<longleftrightarrow> fst v = fst w"

definition wit_index :: "(nat \<times> nat) gindex" where
  "wit_index = \<lparr>gx_stack = [], gx_revision = 4, gx_next_id = 2, gx_indices = [(0, (7, 1)), (1, (8, 2))]\<rparr>"

definition wit_ops :: "(nat \<times> nat) db_op list" where
  "wit_ops = [OpModify 0 (\<lambda>v. ((fst v, 9), None)), OpCreate (Inr (5, 5)), OpRemove 1]"

lemmas wit_defs = wit_clash_def wit_index_def wit_ops_def

lemmas gx_eval = run_ops_def emplace_def modify_def remove_def start_undo_session_def
  undo_state_init_def on_modify_def on_create_def on_remove_def upd_head_def fits_def exc_defs
  om_emplace_def om_find_Cons om_erase_def

lemma wit_ok: "gx_ok wit_clash (gx_indices wit_index) (gx_next_id wit_index)"
  by (auto simp: gx_ok_def wit_defs uniq_def om_wf_def om_find_Cons split: if_splits)

lemma wit_keys:
  "wit_clash u v = wit_clash v u" "list_all (op_keeps_keys wit_clash) wit_ops"
  "list_all (op_keeps_keys wit_clash) [OpRemove 2, OpCreate (Inr (7, 0))]"
  by (auto simp: wit_defs keeps_keys_def same_keys_def)

lemma run_ops_tracking:
  assumes "\<And>u v. clash u v = clash v u" "list_all (op_keeps_keys clash) ops"
  shows "keeps (gx_tracking clash b) (run_ops clash ops)"
proof -
  have "keeps (gx_tracking clash b) (exec_op clash op)" if "op \<in> set ops" for op
    using assms that by (cases op) (auto simp: list_all_iff intro!: keeps_intro)
  then show ?thesis unfolding run_ops_def by (rule keeps_forE)
qed



text \<open>
  Why modifications have to leave unique keys alone: one that takes the key of another object
  throws, and the container has erased the object, which the undo state still has as
  modified; \<open>undo\<close> then dereferences the end of the index.
\<close>

lemma clash_not_undone:
  assumes "om_find (gx_indices g) i = Some v" "m v = (w, None)" "\<not> Chainbase.fits clash i w (gx_indices g)"
    and "modify clash i m (snd (start_undo_session True g)) = (r, g')"
  shows "r = Inl LogicError \<and> om_find (gx_indices g') i = None \<and> fst (undo clash g') = Inl UndefinedBehaviour"
proof -
  let ?h = "(undo_state_init (gx_next_id g) (gx_revision g + 1))\<lparr>old_values := [(i, v)]\<rparr>"
  have "r = Inl LogicError \<and> gx_stack g' = ?h # gx_stack g \<and> gx_indices g' = om_erase i (gx_indices g)"
    using assms
    by (auto simp: modify_def start_undo_session_def Let_def on_modify_def upd_head_def undo_state_init_def om_emplace_def
        split: option.splits)
  then show ?thesis by (simp add: undo_def restore_old_def exc_defs)
qed

text \<open>
  C23 (squash loses nothing): squashing an inner session into the outer one leaves an index
  whose single \<open>undo\<close> restores the state before the outer session, as the table in the
  comment of \<open>squash\<close> intends.
\<close>

theorem squash_then_undo:
  assumes "gx_ok clash (gx_indices g) (gx_next_id g)"
    and "\<And>u v. clash u v = clash v u"
    and "list_all (op_keeps_keys clash) ops1" "list_all (op_keeps_keys clash) ops2"
    and "run_ops clash ops1 (snd (start_undo_session True g)) = (Inr (), g1)"
    and "run_ops clash ops2 (snd (start_undo_session True g1)) = (r, g2)"
  shows "undo clash (squash g2) = (Inr (), g)"
proof -
  have t1: "gx_tracking clash g g1"
    using keepsD [OF run_ops_tracking [OF assms(2,3)] start_tracking [OF assms(1)] assms(5)] .
  then have "gx_ok clash (gx_indices g1) (gx_next_id g1)"
    by (auto simp: gx_tracking_def tracks_def)
  then have "gx_tracking clash g1 g2"
    using keepsD [OF run_ops_tracking [OF assms(2,4)] start_tracking assms(6)] by blast
  with t1 show ?thesis by (intro undo_tracking squash_tracking)
qed

theorem squash_then_undo_witness:
  "let g1 = snd (run_ops wit_clash wit_ops (snd (start_undo_session True wit_index)));
       g2 = run_ops wit_clash [OpRemove 2, OpCreate (Inr (7, 0))] (snd (start_undo_session True g1))
   in fst g2 = Inl LogicError \<and> undo wit_clash (squash (snd g2)) = (Inr (), wit_index)"
proof -
  let ?s1 = "run_ops wit_clash wit_ops (snd (start_undo_session True wit_index))"
  let ?s2 = "run_ops wit_clash [OpRemove 2, OpCreate (Inr (7, 0))] (snd (start_undo_session True (snd ?s1)))"
  have r1: "fst ?s1 = Inr ()" and r2: "fst ?s2 = Inl LogicError"
    by (simp_all add: gx_eval wit_defs)
  from r1 have "?s1 = (Inr (), snd ?s1)" by (metis prod.collapse)
  then have "undo wit_clash (squash (snd ?s2)) = (Inr (), wit_index)"
    by (rule squash_then_undo [OF wit_ok wit_keys _ prod.collapse [symmetric]])
  with r2 show ?thesis by (simp only: Let_def simp_thms)
qed

text \<open>\<open>undo_all\<close> is the loop \<open>while (enabled()) undo();\<close> of the code.\<close>

lemma undo_all_unfold:
  assumes "gx_tracking clash b g"
  shows "undo_all clash g = undo_all clash b"
proof -
  from assms have "length (gx_stack g) = Suc (length (gx_stack b))" by (auto simp: gx_tracking_def)
  with undo_tracking [OF assms] show ?thesis by (simp add: undo_all_def thenE_def bindE_def)
qed

text \<open>
  The use of an index between two states without sessions: sessions are opened on top of each
  other, objects are created, modified and removed in the newest one, and the newest one is
  undone or squashed into the one below. An operation may throw.
\<close>

inductive session_step :: "('v \<Rightarrow> 'v \<Rightarrow> bool) \<Rightarrow> 'v gindex \<Rightarrow> 'v gindex \<Rightarrow> bool" for clash where
  open_session: "session_step clash g (snd (start_undo_session True g))"
| operate: "gx_stack g \<noteq> [] \<Longrightarrow> op_keeps_keys clash op \<Longrightarrow> exec_op clash op g = (r, g') \<Longrightarrow> session_step clash g g'"
| undo_session: "undo clash g = (r, g') \<Longrightarrow> session_step clash g g'"
| squash_session: "2 \<le> length (gx_stack g) \<Longrightarrow> session_step clash g (squash g)"

text \<open>Each open session leads back to the index it was opened on, down to \<open>b\<close>.\<close>

inductive nested :: "('v \<Rightarrow> 'v \<Rightarrow> bool) \<Rightarrow> 'v gindex \<Rightarrow> 'v gindex \<Rightarrow> bool" for clash b where
  outermost: "gx_stack b = [] \<Longrightarrow> gx_ok clash (gx_indices b) (gx_next_id b) \<Longrightarrow> nested clash b b"
| inside: "nested clash b y \<Longrightarrow> gx_tracking clash y g \<Longrightarrow> nested clash b g"

lemma nested_ok: "nested clash b g \<Longrightarrow> gx_ok clash (gx_indices g) (gx_next_id g)"
  by (induction rule: nested.induct) (auto simp: gx_tracking_def tracks_def)

lemma nested_cases:
  assumes "nested clash b g"
  obtains "g = b" "gx_stack g = []" | y where "nested clash b y" "gx_tracking clash y g" "gx_stack g \<noteq> []"
  using assms by cases (auto simp: gx_tracking_def)

lemma nested_step:
  assumes "\<And>u v. clash u v = clash v u" "nested clash b g" "session_step clash g g'"
  shows "nested clash b g'"
  using assms(3)
proof cases
  case open_session
  then show ?thesis using assms(2) by (auto intro: inside start_tracking nested_ok)
next
  case (operate op r)
  then obtain y where y: "nested clash b y" "gx_tracking clash y g" using assms(2) by (auto elim: nested_cases)
  have "keeps (gx_tracking clash y) (exec_op clash op)"
    using assms(1) operate(2) by (cases op) (auto intro!: keeps_intro)
  from inside [OF y(1) keepsD [OF this y(2) operate(3)]] show ?thesis .
next
  case (undo_session r)
  from assms(2) show ?thesis
  proof (cases rule: nested_cases)
    case 1
    with undo_session assms(2) show ?thesis by (simp add: undo_def)
  next
    case (2 y)
    with undo_session undo_tracking show ?thesis by fastforce
  qed
next
  case squash_session
  then have "gx_stack g \<noteq> []" by auto
  then obtain y where y: "nested clash b y" "gx_tracking clash y g" using assms(2) by (auto elim: nested_cases)
  then have "gx_stack y \<noteq> []" using squash_session(2) by (auto simp: gx_tracking_def)
  then obtain z where "nested clash b z" "gx_tracking clash z y" using y(1) by (auto elim: nested_cases)
  with squash_tracking [OF _ y(2)] squash_session(1) show ?thesis by (auto intro: inside)
qed

lemma nested_undo_all: "nested clash b g \<Longrightarrow> undo_all clash g = (Inr (), b)"
  by (induction rule: nested.induct) (simp_all add: undo_all_unfold, simp add: undo_all_def)

text \<open>
  C27 (unwinding every session): whatever sessions are opened, used, undone and squashed on an
  index without undo states, in any order and nesting, \<open>undo_all\<close> gives back exactly that index.
  Modifications leave unique keys alone, and changes are made only while a session is open.
\<close>

theorem undo_all_restores:
  assumes "gx_stack b = []" "gx_ok clash (gx_indices b) (gx_next_id b)" "\<And>u v. clash u v = clash v u"
    and "(session_step clash)\<^sup>*\<^sup>* b g"
  shows "undo_all clash g = (Inr (), b)"
proof -
  from assms(4) have "nested clash b g"
    by (induction rule: rtranclp_induct) (auto intro: outermost assms(1,2) nested_step [OF assms(3)])
  then show ?thesis by (rule nested_undo_all)
qed

text \<open>A session with two operations, a second one in it that creates an object, both squashed, and a third.\<close>

definition wit_nested :: "(nat \<times> nat) gindex" where
  "wit_nested =
     (let open_it = (\<lambda>g. snd (start_undo_session True g));
          g1 = snd (exec_op wit_clash (OpRemove 1) (snd (exec_op wit_clash (OpModify 0 (\<lambda>v. ((fst v, 9), None))) (open_it wit_index))));
          g2 = squash (snd (exec_op wit_clash (OpCreate (Inr (5, 5))) (open_it g1)))
      in snd (exec_op wit_clash (OpRemove 2) (open_it g2)))"

lemma wit_nested_steps: "(session_step wit_clash)\<^sup>*\<^sup>* wit_index wit_nested"
proof -
  let ?open = "\<lambda>g. snd (start_undo_session True g)" and ?do = "\<lambda>op g. snd (exec_op wit_clash op g)"
  have op: "(session_step wit_clash)\<^sup>*\<^sup>* g (?do o' g)" if "gx_stack g \<noteq> []" "op_keeps_keys wit_clash o'" for g o'
    by (rule r_into_rtranclp) (rule operate [OF that prod.collapse [symmetric]])
  have o: "(session_step wit_clash)\<^sup>*\<^sup>* g (?open g)" for g
    by (rule r_into_rtranclp) (rule open_session)
  have k: "op_keeps_keys wit_clash (OpModify 0 (\<lambda>v. ((fst v, 9), None)))"
    "op_keeps_keys wit_clash (OpRemove i)" "op_keeps_keys wit_clash (OpCreate c)" for i c
    by (auto simp: wit_defs keeps_keys_def same_keys_def)
  have ne: "gx_stack (?open g) \<noteq> []" for g :: "(nat \<times> nat) gindex" by (simp add: start_undo_session_def Let_def)
  have kp: "gx_stack g \<noteq> [] \<Longrightarrow> gx_stack (?do o' g) \<noteq> []" for g :: "(nat \<times> nat) gindex" and o'
    by (cases o') (auto simp: exc_defs emplace_def modify_def remove_def on_create_def on_modify_def on_remove_def upd_head_def Let_def
        split: sum.splits list.splits option.splits prod.splits)
  let ?a = "?do (OpModify 0 (\<lambda>v. ((fst v, 9), None))) (?open wit_index)"
  let ?g1 = "?do (OpRemove 1) ?a" and ?c = "?do (OpCreate (Inr (5, 5))) (?open (?do (OpRemove 1) ?a))"
  have "2 \<le> length (gx_stack ?c)" by (simp add: gx_eval wit_defs)
  then have sq: "(session_step wit_clash)\<^sup>*\<^sup>* ?c (squash ?c)" by (intro r_into_rtranclp squash_session)
  note 1 = rtranclp_trans [OF o op [OF ne k(1)], of wit_index]
  note 2 = rtranclp_trans [OF 1 op [OF kp [OF ne] k(2) [of 1]]]
  note 3 = rtranclp_trans [OF rtranclp_trans [OF 2 o] op [OF ne k(3) [of "Inr (5, 5)"]]]
  note 4 = rtranclp_trans [OF rtranclp_trans [OF 3 sq] o]
  show ?thesis unfolding wit_nested_def Let_def by (rule rtranclp_trans [OF 4 op [OF ne k(2) [of 2]]])
qed

theorem undo_all_restores_witness:
  "length (gx_stack wit_nested) = 2 \<and> gx_indices wit_nested = [(0, (7, 9))] \<and> undo_all wit_clash wit_nested = (Inr (), wit_index)"
proof (intro conjI)
  show "length (gx_stack wit_nested) = 2" "gx_indices wit_nested = [(0, (7, 9))]"
    by (simp_all add: wit_nested_def gx_eval wit_defs merge_states_def squash_old_def squash_new_def squash_removed_def)
  have "gx_stack wit_index = []" by (simp add: wit_defs)
  from undo_all_restores [OF this wit_ok wit_keys(1) wit_nested_steps] show "undo_all wit_clash wit_nested = (Inr (), wit_index)" .
qed

text \<open>
  C28 (commit): when the undo states carry decreasing revisions, as sessions create them,
  \<open>commit r\<close> keeps the objects and drops exactly the undo states of revision at most
  \<open>r\<close>.
\<close>

theorem commit_discards_history:
  assumes "sorted_wrt (\<lambda>u v. us_revision v < us_revision u) (gx_stack g)"
  shows "gx_stack (commit r g) = filter (\<lambda>u. r < us_revision u) (gx_stack g) \<and>
     gx_indices (commit r g) = gx_indices g \<and> gx_next_id (commit r g) = gx_next_id g \<and>
     gx_revision (commit r g) = gx_revision g"
proof -
  have "sorted_wrt (\<lambda>u v. us_revision u < us_revision v) (rev (gx_stack g))"
    using assms by (simp add: sorted_wrt_rev)
  then have "dropWhile (\<lambda>u. us_revision u \<le> r) (rev (gx_stack g)) =
      filter (\<lambda>u. r < us_revision u) (rev (gx_stack g))"
    by (rule dropWhile_sorted_filter)
  then show ?thesis by (simp add: commit_def rev_filter)
qed

theorem commit_discards_history_witness:
  "let g = wit_index\<lparr>gx_stack := [undo_state_init 2 4, undo_state_init 1 3, undo_state_init 0 2]\<rparr>
   in gx_stack (commit 3 g) = [undo_state_init 2 4] \<and> gx_indices (commit 3 g) = gx_indices wit_index"
  using commit_discards_history
    [of "wit_index\<lparr>gx_stack := [undo_state_init 2 4, undo_state_init 1 3, undo_state_init 0 2]\<rparr>" 3]
  by (simp add: undo_state_init_def)

end
