(* ===== verification/Bytes.thy ===== *)
theory Bytes
  imports Exc
begin

text \<open>
  Byte strings of fixed length: the little-endian images of integers that \<open>memcpy\<close>
  copies, and the big-endian images of \<open>FixedHash\<close> values (\<open>libdevcore/FixedHash.h\<close>)
  with their conversions.
\<close>

section \<open>Integers as bytes\<close>

primrec le_bytes :: "nat \<Rightarrow> nat \<Rightarrow> bytes" where
  "le_bytes 0 x = []"
| "le_bytes (Suc n) x = of_nat x # le_bytes n (x div 256)"

primrec le_val :: "bytes \<Rightarrow> nat" where
  "le_val [] = 0"
| "le_val (b # bs) = unat b + 256 * le_val bs"

text \<open>\<open>memcpy\<close> from and to a \<open>uint64_t\<close> on a little-endian machine.\<close>

definition u64_bytes :: "u64 \<Rightarrow> bytes" where
  "u64_bytes w = le_bytes 8 (unat w)"

definition bytes_u64 :: "bytes \<Rightarrow> u64" where
  "bytes_u64 bs = of_nat (le_val bs)"

text \<open>
  \<open>FixedHash::data\<close>, \<open>asBytes\<close> and the conversions to and from the arithmetic types:
  the first byte is the most significant one.
\<close>

definition h256_bytes :: "h256 \<Rightarrow> bytes" where
  "h256_bytes w = rev (le_bytes 32 (unat w))"

definition bytes_h256 :: "bytes \<Rightarrow> h256" where
  "bytes_h256 bs = of_nat (le_val (rev bs))"

definition addr_bytes :: "address \<Rightarrow> bytes" where
  "addr_bytes w = rev (le_bytes 20 (unat w))"

definition bytes_addr :: "bytes \<Rightarrow> address" where
  "bytes_addr bs = of_nat (le_val (rev bs))"

text \<open>\<open>h256(tmp, AlignLeft)\<close>: missing bytes on the right are zero.\<close>

definition align_left :: "bytes \<Rightarrow> h256" where
  "align_left bs = bytes_h256 (take 32 bs @ replicate (32 - length bs) 0)"


section \<open>Lemmas\<close>

lemma length_le_bytes [simp]: "length (le_bytes n x) = n"
  by (induction n arbitrary: x) simp_all

lemma le_val_bytes: "le_val (le_bytes n x) = x mod 256 ^ n"
proof (induction n arbitrary: x)
  case (Suc n)
  have "le_val (le_bytes (Suc n) x) = x mod 256 + 256 * (x div 256 mod 256 ^ n)"
    by (simp add: Suc unat_of_nat take_bit_eq_mod)
  also have "\<dots> = x mod 256 ^ Suc n" by (simp add: mod_mult2_eq)
  finally show ?case .
qed simp

lemma le_val_less: "le_val bs < 256 ^ length bs"
proof (induction bs)
  case (Cons b bs)
  have "unat b < 256" using unsigned_less [of b] by simp
  with Cons show ?case by simp
qed simp

lemma le_bytes_val: "le_bytes (length bs) (le_val bs) = bs"
proof (induction bs)
  case (Cons b bs)
  have b: "unat b < 256" using unsigned_less [of b] by simp
  then have "(unat b + 256 * le_val bs) div 256 = le_val bs" by simp
  moreover have "(of_nat (256 * le_val bs) :: u8) = 0"
    by (subst word_of_nat_eq_0_iff) simp
  ultimately show ?case using Cons by (simp del: of_nat_mult)
qed simp

lemma le_val_append: "le_val (xs @ ys) = le_val xs + 256 ^ length xs * le_val ys"
  by (induction xs) (simp_all add: algebra_simps)

lemma le_val_zeros [simp]: "le_val (replicate n 0) = 0"
  by (induction n) simp_all

lemma length_u64_bytes [simp]: "length (u64_bytes w) = 8"
  by (simp add: u64_bytes_def)

lemma length_h256_bytes [simp]: "length (h256_bytes w) = 32"
  by (simp add: h256_bytes_def)

lemma length_addr_bytes [simp]: "length (addr_bytes w) = 20"
  by (simp add: addr_bytes_def)

lemma bytes_u64_bytes [simp]: "bytes_u64 (u64_bytes w) = w"
  using unsigned_less [where 'a = nat, of w] by (simp add: bytes_u64_def u64_bytes_def le_val_bytes)

lemma bytes_h256_bytes [simp]: "bytes_h256 (h256_bytes w) = w"
  using unsigned_less [where 'a = nat, of w] by (simp add: bytes_h256_def h256_bytes_def le_val_bytes)

lemma bytes_addr_bytes [simp]: "bytes_addr (addr_bytes w) = w"
  using unsigned_less [where 'a = nat, of w] by (simp add: bytes_addr_def addr_bytes_def le_val_bytes)

lemma h256_bytes_of: "length bs = 32 \<Longrightarrow> h256_bytes (bytes_h256 bs) = bs"
  using le_val_less [of "rev bs"] le_bytes_val [of "rev bs"]
  by (simp add: h256_bytes_def bytes_h256_def unat_of_nat take_bit_nat_eq_self)

lemma addr_bytes_of: "length bs = 20 \<Longrightarrow> addr_bytes (bytes_addr bs) = bs"
  using le_val_less [of "rev bs"] le_bytes_val [of "rev bs"]
  by (simp add: addr_bytes_def bytes_addr_def unat_of_nat take_bit_nat_eq_self)

lemma h256_bytes_align_left: "length bs \<le> 32 \<Longrightarrow> h256_bytes (align_left bs) = bs @ replicate (32 - length bs) 0"
  by (simp add: align_left_def h256_bytes_of)

end
