(* ===== verification/AccountState.thy ===== *)
theory AccountState
  imports Bytes
begin

text \<open>
  The account state of libethereum (\<open>State.h\<close>, \<open>State.cpp\<close>, \<open>Account.h\<close>): a cache
  of accounts over the committed state, with a change log for rollback.

  The tries below the cache are content addressed stores. They are modelled by what they
  hold: the committed state is an ordered map from addresses to stored accounts, a storage
  root is the map its trie encodes, and a code hash is the code it is the hash of (so
  \<open>EmptyTrie\<close> and \<open>EmptySHA3\<close> are the empty list). Where a map is keyed by hashed
  keys the hash function is a parameter. The unordered maps of the code are kept in key
  order: no operation below depends on the order in which they are walked.
\<close>

section \<open>Data\<close>

datatype eth_exn =
    NotEnoughCash
  | InvalidAccountStartNonceInState
  | IncorrectAccountStartNonceInState
  | BadLexicalCast \<comment> \<open>\<open>boost::bad_lexical_cast\<close>\<close>
  | LengthError
  | Undefined \<comment> \<open>undefined behaviour of the C++ code\<close>

type_synonym store = "(u256, u256) omap"

record stored_account =
  st_nonce :: u256
  st_balance :: u256
  st_root :: store
  st_codeHash :: bytes

record Account =
  m_isAlive :: bool
  m_isUnchanged :: bool
  m_hasNewCode :: bool
  m_nonce :: u256
  m_balance :: u256
  m_storageRoot :: store
  m_codeHash :: bytes
  m_storageOverlay :: store
  m_codeCache :: bytes

datatype Change =
    CBalance address u256
  | CStorage address u256 u256 \<comment> \<open>key, old value\<close>
  | CStorageRoot address store
  | CNonce address u256
  | CCreate address
  | CCode address bytes
  | CTouch address

text \<open>\<open>m_changeLog\<close> is the vector with its back first.\<close>

record State =
  m_state :: "(address, stored_account) omap"
  m_cache :: "(address, Account) omap"
  m_unchangedCacheEntries :: "address list"
  m_nonExistingAccountsCache :: "address list"
  m_touched :: "address list"
  m_accountStartNonce :: u256
  m_changeLog :: "Change list"

definition Invalid256 :: u256 where "Invalid256 = - 1"


section \<open>Accounts\<close>

definition dead_account :: Account where
  "dead_account = \<lparr>m_isAlive = False, m_isUnchanged = False, m_hasNewCode = False, m_nonce = 0,
     m_balance = 0, m_storageRoot = [], m_codeHash = [], m_storageOverlay = [], m_codeCache = []\<rparr>"

definition new_account :: "u256 \<Rightarrow> u256 \<Rightarrow> Account" where
  "new_account n b = dead_account\<lparr>m_isAlive := True, m_nonce := n, m_balance := b\<rparr>"

definition load_account :: "stored_account \<Rightarrow> Account" where
  "load_account st = dead_account\<lparr>m_isAlive := True, m_isUnchanged := True, m_nonce := st_nonce st,
     m_balance := st_balance st, m_storageRoot := st_root st, m_codeHash := st_codeHash st\<rparr>"

definition changed :: "Account \<Rightarrow> Account" where
  "changed a = a\<lparr>m_isUnchanged := False\<rparr>"

definition acc_kill :: "Account \<Rightarrow> Account" where
  "acc_kill a = changed (a\<lparr>m_isAlive := False, m_storageOverlay := [], m_codeHash := [],
     m_storageRoot := [], m_balance := 0, m_nonce := 0\<rparr>)"

definition isDirty :: "Account \<Rightarrow> bool" where
  "isDirty a \<longleftrightarrow> \<not> m_isUnchanged a"

definition untouch :: "Account \<Rightarrow> Account" where
  "untouch a = a\<lparr>m_isUnchanged := True\<rparr>"

definition acc_isEmpty :: "Account \<Rightarrow> bool" where
  "acc_isEmpty a \<longleftrightarrow> m_nonce a = 0 \<and> m_balance a = 0 \<and> m_codeHash a = []"

definition acc_addBalance :: "u256 \<Rightarrow> Account \<Rightarrow> Account" where
  "acc_addBalance v a = changed (a\<lparr>m_balance := m_balance a + v\<rparr>)"

definition acc_incNonce :: "Account \<Rightarrow> Account" where
  "acc_incNonce a = changed (a\<lparr>m_nonce := m_nonce a + 1\<rparr>)"

definition acc_setNonce :: "u256 \<Rightarrow> Account \<Rightarrow> Account" where
  "acc_setNonce n a = changed (a\<lparr>m_nonce := n\<rparr>)"

definition acc_setStorage :: "u256 \<Rightarrow> u256 \<Rightarrow> Account \<Rightarrow> Account" where
  "acc_setStorage k v a = changed (a\<lparr>m_storageOverlay := om_put k v (m_storageOverlay a)\<rparr>)"

definition acc_clearStorage :: "Account \<Rightarrow> Account" where
  "acc_clearStorage a = changed (a\<lparr>m_storageOverlay := [], m_storageRoot := []\<rparr>)"

definition acc_setStorageRoot :: "store \<Rightarrow> Account \<Rightarrow> Account" where
  "acc_setStorageRoot r a = changed (a\<lparr>m_storageOverlay := [], m_storageRoot := r\<rparr>)"

definition acc_setStorageCache :: "u256 \<Rightarrow> u256 \<Rightarrow> Account \<Rightarrow> Account" where
  "acc_setStorageCache k v a = a\<lparr>m_storageOverlay := om_put k v (m_storageOverlay a)\<rparr>"

definition acc_setCode :: "bytes \<Rightarrow> Account \<Rightarrow> Account" where
  "acc_setCode c a = a\<lparr>m_codeCache := c, m_hasNewCode := True, m_codeHash := c\<rparr>"

definition acc_noteCode :: "bytes \<Rightarrow> Account \<Rightarrow> Account" where
  "acc_noteCode c a = a\<lparr>m_codeCache := c\<rparr>"


section \<open>The cache\<close>

text \<open>\<open>m_cache[a]\<close>: a missing entry is a dead account.\<close>

definition cache_at :: "address \<Rightarrow> State \<Rightarrow> Account" where
  "cache_at a s = (case om_find (m_cache s) a of None \<Rightarrow> dead_account | Some x \<Rightarrow> x)"

definition upd_acc :: "address \<Rightarrow> (Account \<Rightarrow> Account) \<Rightarrow> State \<Rightarrow> State" where
  "upd_acc a f s = s\<lparr>m_cache := om_put a (f (cache_at a s)) (m_cache s)\<rparr>"

definition log_change :: "Change \<Rightarrow> State \<Rightarrow> State" where
  "log_change c s = s\<lparr>m_changeLog := c # m_changeLog s\<rparr>"

text \<open>
  \<open>clearCacheIfTooLarge\<close> drops unmodified entries at random; \<open>pick\<close> is the choice
  the random engine makes among the entries.
\<close>

function clear_entries ::
    "(address list \<Rightarrow> nat) \<Rightarrow> address list \<Rightarrow> (address, Account) omap \<Rightarrow> address list \<times> (address, Account) omap" where
  "clear_entries pick es cache =
     (if length es > 1000 then
        let i = pick es mod length es;
            addr = es ! i;
            es' = butlast (es[i := last es]);
            cache' = (case om_find cache addr of
                        None \<Rightarrow> cache
                      | Some x \<Rightarrow> if isDirty x then cache else om_erase addr cache)
        in clear_entries pick es' cache'
      else (es, cache))"
  by auto
termination by (relation "measure (\<lambda>(_, es, _). length es)") (auto simp: Let_def)

declare clear_entries.simps [simp del]

definition clearCacheIfTooLarge :: "(address list \<Rightarrow> nat) \<Rightarrow> State \<Rightarrow> State" where
  "clearCacheIfTooLarge pick s =
     (case clear_entries pick (m_unchangedCacheEntries s) (m_cache s) of (es, cache) \<Rightarrow>
        s\<lparr>m_unchangedCacheEntries := es, m_cache := cache\<rparr>)"

definition account :: "(address list \<Rightarrow> nat) \<Rightarrow> address \<Rightarrow> State \<Rightarrow> Account option \<times> State" where
  "account pick addr s =
     (case om_find (m_cache s) addr of
        Some x \<Rightarrow> (Some x, s)
      | None \<Rightarrow>
          if addr \<in> set (m_nonExistingAccountsCache s) then (None, s)
          else case om_find (m_state s) addr of
            None \<Rightarrow> (None, s\<lparr>m_nonExistingAccountsCache := os_insert addr (m_nonExistingAccountsCache s)\<rparr>)
          | Some st \<Rightarrow>
              let s' = clearCacheIfTooLarge pick s;
                  x = load_account st
              in (Some x, s'\<lparr>m_cache := om_emplace addr x (m_cache s'),
                             m_unchangedCacheEntries := m_unchangedCacheEntries s' @ [addr]\<rparr>))"


section \<open>Operations\<close>

type_synonym 'a stE = "(eth_exn, State, 'a) exc"
type_synonym pick = "address list \<Rightarrow> nat"

definition accountE :: "pick \<Rightarrow> address \<Rightarrow> Account option stE" where
  "accountE pick a s = (case account pick a s of (x, s') \<Rightarrow> (Inr x, s'))"

definition requireAccountStartNonce :: "u256 stE" where
  "requireAccountStartNonce =
     bindE (getE m_accountStartNonce) (\<lambda>n.
     thenE (throwIf (n = Invalid256) InvalidAccountStartNonceInState) (ret n))"

definition noteAccountStartNonce :: "u256 \<Rightarrow> unit stE" where
  "noteAccountStartNonce actual =
     bindE (getE m_accountStartNonce) (\<lambda>n.
     if n = Invalid256 then updE (\<lambda>s. s\<lparr>m_accountStartNonce := actual\<rparr>)
     else throwIf (n \<noteq> actual) IncorrectAccountStartNonceInState)"

definition addressInUse :: "pick \<Rightarrow> address \<Rightarrow> bool stE" where
  "addressInUse pick a = bindE (accountE pick a) (\<lambda>x. ret (x \<noteq> None))"

definition accountNonemptyAndExisting :: "pick \<Rightarrow> address \<Rightarrow> bool stE" where
  "accountNonemptyAndExisting pick a =
     bindE (accountE pick a) (\<lambda>x. ret (case x of Some acc \<Rightarrow> \<not> acc_isEmpty acc | None \<Rightarrow> False))"

definition addressHasCode :: "pick \<Rightarrow> address \<Rightarrow> bool stE" where
  "addressHasCode pick a =
     bindE (accountE pick a) (\<lambda>x. ret (case x of Some acc \<Rightarrow> m_codeHash acc \<noteq> [] | None \<Rightarrow> False))"

definition balance :: "pick \<Rightarrow> address \<Rightarrow> u256 stE" where
  "balance pick a = bindE (accountE pick a) (\<lambda>x. ret (case x of Some acc \<Rightarrow> m_balance acc | None \<Rightarrow> 0))"

definition createAccount :: "address \<Rightarrow> Account \<Rightarrow> unit stE" where
  "createAccount a acc = updE (\<lambda>s. log_change (CCreate a)
     (s\<lparr>m_cache := om_put a acc (m_cache s),
        m_nonExistingAccountsCache := os_erase a (m_nonExistingAccountsCache s)\<rparr>))"

definition incNonce :: "pick \<Rightarrow> address \<Rightarrow> unit stE" where
  "incNonce pick a = bindE (accountE pick a) (\<lambda>x. case x of
     Some acc \<Rightarrow> updE (\<lambda>s. log_change (CNonce a (m_nonce acc)) (upd_acc a acc_incNonce s))
   | None \<Rightarrow> bindE requireAccountStartNonce (\<lambda>n. createAccount a (new_account (n + 1) 0)))"

definition setNonce :: "pick \<Rightarrow> address \<Rightarrow> u256 \<Rightarrow> unit stE" where
  "setNonce pick a new = bindE (accountE pick a) (\<lambda>x. case x of
     Some acc \<Rightarrow> updE (\<lambda>s. log_change (CNonce a (m_nonce acc)) (upd_acc a (acc_setNonce new) s))
   | None \<Rightarrow> createAccount a (new_account new 0))"

definition addBalance :: "pick \<Rightarrow> address \<Rightarrow> u256 \<Rightarrow> unit stE" where
  "addBalance pick a amount =
     thenE (bindE (accountE pick a) (\<lambda>x. case x of
       Some acc \<Rightarrow>
         thenE (if \<not> isDirty acc \<and> acc_isEmpty acc then updE (log_change (CTouch a)) else ret ())
               (updE (upd_acc a (acc_addBalance amount)))
     | None \<Rightarrow> bindE requireAccountStartNonce (\<lambda>n. createAccount a (new_account n amount))))
    (if amount \<noteq> 0 then updE (log_change (CBalance a amount)) else ret ())"

definition subBalance :: "pick \<Rightarrow> address \<Rightarrow> u256 \<Rightarrow> unit stE" where
  "subBalance pick a v =
     (if v = 0 then ret ()
      else bindE (accountE pick a) (\<lambda>x. case x of
        None \<Rightarrow> throw NotEnoughCash
      | Some acc \<Rightarrow>
          thenE (throwIf (m_balance acc < v) NotEnoughCash) (addBalance pick a (0 - v))))"

definition transferBalance :: "pick \<Rightarrow> address \<Rightarrow> address \<Rightarrow> u256 \<Rightarrow> unit stE" where
  "transferBalance pick from to v = thenE (subBalance pick from v) (addBalance pick to v)"

definition createContract :: "address \<Rightarrow> unit stE" where
  "createContract a = bindE requireAccountStartNonce (\<lambda>n. createAccount a (new_account n 0))"

definition kill :: "pick \<Rightarrow> address \<Rightarrow> unit stE" where
  "kill pick a = bindE (accountE pick a) (\<lambda>x. case x of
     Some _ \<Rightarrow> updE (upd_acc a acc_kill) | None \<Rightarrow> ret ())"

definition getNonce :: "pick \<Rightarrow> address \<Rightarrow> u256 stE" where
  "getNonce pick a = bindE (accountE pick a) (\<lambda>x. case x of
     Some acc \<Rightarrow> ret (m_nonce acc) | None \<Rightarrow> getE m_accountStartNonce)"

definition storage :: "pick \<Rightarrow> address \<Rightarrow> u256 \<Rightarrow> u256 stE" where
  "storage pick a k = bindE (accountE pick a) (\<lambda>x. case x of
     None \<Rightarrow> ret 0
   | Some acc \<Rightarrow> (case om_find (m_storageOverlay acc) k of
       Some v \<Rightarrow> ret v
     | None \<Rightarrow>
         let v = (case om_find (m_storageRoot acc) k of Some v \<Rightarrow> v | None \<Rightarrow> 0)
         in thenE (updE (upd_acc a (acc_setStorageCache k v))) (ret v)))"

definition setStorage :: "pick \<Rightarrow> address \<Rightarrow> u256 \<Rightarrow> u256 \<Rightarrow> unit stE" where
  "setStorage pick a k v = bindE (storage pick a k) (\<lambda>old.
     thenE (updE (log_change (CStorage a k old))) (updE (upd_acc a (acc_setStorage k v))))"

definition clearStorage :: "address \<Rightarrow> unit stE" where
  "clearStorage a = thenE (updE (upd_acc a (\<lambda>x. x)))
    (bindE (getE (\<lambda>s. m_storageRoot (cache_at a s))) (\<lambda>oldHash.
       if oldHash = [] then ret ()
       else thenE (updE (log_change (CStorageRoot a oldHash))) (updE (upd_acc a acc_clearStorage))))"

text \<open>\<open>storage(Address)\<close>: the map of hashed keys to key and value.\<close>

definition merge_overlay ::
    "(h256 \<Rightarrow> h256) \<Rightarrow> store \<Rightarrow> (h256, u256 \<times> u256) omap \<Rightarrow> (h256, u256 \<times> u256) omap" where
  "merge_overlay sha3 overlay m =
     foldl (\<lambda>m (k, v). if v \<noteq> 0 then om_put (sha3 k) (k, v) m else om_erase (sha3 k) m) m overlay"

definition storage_map :: "(h256 \<Rightarrow> h256) \<Rightarrow> pick \<Rightarrow> address \<Rightarrow> (h256, u256 \<times> u256) omap stE" where
  "storage_map sha3 pick a = bindE (accountE pick a) (\<lambda>x. case x of
     None \<Rightarrow> ret []
   | Some acc \<Rightarrow>
       ret (merge_overlay sha3 (m_storageOverlay acc)
              (foldl (\<lambda>m (k, v). om_put (sha3 k) (k, v) m) [] (m_storageRoot acc))))"

definition code :: "pick \<Rightarrow> address \<Rightarrow> bytes stE" where
  "code pick a = bindE (accountE pick a) (\<lambda>x. case x of
     None \<Rightarrow> ret []
   | Some acc \<Rightarrow>
       if m_codeHash acc = [] then ret []
       else if m_codeCache acc = []
       then thenE (updE (upd_acc a (acc_noteCode (m_codeHash acc)))) (ret (m_codeHash acc))
       else ret (m_codeCache acc))"

definition setCode :: "pick \<Rightarrow> address \<Rightarrow> bytes \<Rightarrow> unit stE" where
  "setCode pick a c = bindE (code pick a) (\<lambda>old.
     thenE (updE (log_change (CCode a old))) (updE (upd_acc a (acc_setCode c))))"

definition codeHash :: "pick \<Rightarrow> address \<Rightarrow> bytes stE" where
  "codeHash pick a = bindE (accountE pick a) (\<lambda>x. ret (case x of Some acc \<Rightarrow> m_codeHash acc | None \<Rightarrow> []))"


section \<open>Savepoints and commit\<close>

definition savepoint :: "State \<Rightarrow> nat" where
  "savepoint s = length (m_changeLog s)"

fun undo_change :: "Change \<Rightarrow> State \<Rightarrow> State" where
  "undo_change (CStorage a k v) s = upd_acc a (acc_setStorage k v) s"
| "undo_change (CStorageRoot a r) s = upd_acc a (acc_setStorageRoot r) s"
| "undo_change (CBalance a v) s = upd_acc a (acc_addBalance (0 - v)) s"
| "undo_change (CNonce a n) s = upd_acc a (acc_setNonce n) s"
| "undo_change (CCreate a) s = s\<lparr>m_cache := om_erase a (m_cache s)\<rparr>"
| "undo_change (CCode a c) s = upd_acc a (acc_setCode c) s"
| "undo_change (CTouch a) s =
     (upd_acc a untouch s)\<lparr>m_unchangedCacheEntries := m_unchangedCacheEntries s @ [a]\<rparr>"

text \<open>The loop pops the log until it has the length of the savepoint.\<close>

primrec rollback_times :: "nat \<Rightarrow> unit stE" where
  "rollback_times 0 = ret ()"
| "rollback_times (Suc n) =
     bindE (getE m_changeLog) (\<lambda>log. case log of
       [] \<Rightarrow> throw Undefined
     | c # rest \<Rightarrow>
         thenE (updE (\<lambda>s. (undo_change c s)\<lparr>m_changeLog := rest\<rparr>)) (rollback_times n))"

definition rollback :: "nat \<Rightarrow> unit stE" where
  "rollback sp =
     bindE (getE savepoint) (\<lambda>n. if n < sp then throw Undefined else rollback_times (n - sp))"

definition removeEmptyAccounts :: "State \<Rightarrow> State" where
  "removeEmptyAccounts s =
     s\<lparr>m_cache := map (\<lambda>(a, x). (a, if isDirty x \<and> acc_isEmpty x then acc_kill x else x)) (m_cache s)\<rparr>"

definition store_account :: "Account \<Rightarrow> stored_account" where
  "store_account x = \<lparr>st_nonce = m_nonce x, st_balance = m_balance x,
     st_root = foldl (\<lambda>r (k, v). if v \<noteq> 0 then om_put k v r else om_erase k r) (m_storageRoot x) (m_storageOverlay x),
     st_codeHash = m_codeHash x\<rparr>"

definition commit_cache ::
    "(address, Account) omap \<Rightarrow> (address, stored_account) omap \<Rightarrow> (address, stored_account) omap" where
  "commit_cache cache st = foldl (\<lambda>m (a, x).
     if isDirty x then (if m_isAlive x then om_put a (store_account x) m else om_erase a m) else m) st cache"

text \<open>
  \<open>commitEx\<close>, the commit with four threads. The root node of the trie of accounts has one
  branch for each value of the first four bits of the hashed address. \<open>prepareForMultiThread\<close>
  puts the branches into \<open>m_rootCache\<close>. A stored account has more than 32 bytes, so that a
  branch that is not empty is referenced by its hash; with two to fifteen branches the
  answer is false, and with at most one the root is no node of 17 items and the answer is
  true with an empty \<open>m_rootCache\<close>. Reference counts of nodes are not modelled.
\<close>

type_synonym accounts = "(address, stored_account) omap"

definition nibble :: "(address \<Rightarrow> h256) \<Rightarrow> address \<Rightarrow> nat" where
  "nibble sha3 a = unat (drop_bit 252 (sha3 a))"

definition prepareForMultiThread :: "(address \<Rightarrow> h256) \<Rightarrow> accounts \<Rightarrow> accounts list option" where
  "prepareForMultiThread sha3 st =
     (let branches = map (\<lambda>i. filter (\<lambda>(a, _). nibble sha3 a = i) st) [0..<16];
          n = length (filter (\<lambda>b. b \<noteq> []) branches)
      in if n \<le> 1 then Some [] else if n = 16 then Some branches else None)"

record multi_trie =
  m_root :: accounts
  m_rootCache :: "accounts list"

definition insertAtBranch :: "(address \<Rightarrow> h256) \<Rightarrow> address \<Rightarrow> stored_account \<Rightarrow> (eth_exn, multi_trie, unit) exc" where
  "insertAtBranch sha3 a v t =
     (let i = nibble sha3 a; rc = m_rootCache t in
      if i < length rc then (Inr (), t\<lparr>m_rootCache := rc[i := om_put a v (rc ! i)]\<rparr>) else (Inl Undefined, t))"

definition finishMultiThread :: "(eth_exn, multi_trie, unit) exc" where
  "finishMultiThread t =
     (if length (m_rootCache t) < 16 then (Inl Undefined, t)
      else (Inr (), t\<lparr>m_root := foldl (\<lambda>m (a, v). om_put a v m) [] (concat (take 16 (m_rootCache t)))\<rparr>))"

definition cacheBySha3 :: "(address \<Rightarrow> h256) \<Rightarrow> (address, Account) omap \<Rightarrow> (address \<times> Account) list list" where
  "cacheBySha3 sha3 cache = map (\<lambda>i. filter (\<lambda>(a, _). nibble sha3 a = i) cache) [0..<16]"

definition commitEx_entry :: "(address \<Rightarrow> h256) \<Rightarrow> address \<times> Account \<Rightarrow> (eth_exn, multi_trie, unit) exc" where
  "commitEx_entry sha3 e = (case e of (a, x) \<Rightarrow>
     if isDirty x
     then (if m_isAlive x then insertAtBranch sha3 a (store_account x) else updE (m_root_update (om_erase a)))
     else ret ())"

text \<open>
  \<open>order\<close> is the order in which the threads come to the entries of the sixteen vectors. Two
  threads that remove an account at the same time race on the root; here one follows the other.
\<close>

type_synonym order = "(address \<times> Account) list list \<Rightarrow> (address \<times> Account) list"

definition commitEx :: "(address \<Rightarrow> h256) \<Rightarrow> order \<Rightarrow> (address, Account) omap \<Rightarrow> (eth_exn, multi_trie, unit) exc" where
  "commitEx sha3 order cache =
     thenE (forE (order (cacheBySha3 sha3 cache)) (commitEx_entry sha3)) finishMultiThread"

definition commit_state ::
    "(address \<Rightarrow> h256) \<Rightarrow> order \<Rightarrow> (address, Account) omap \<Rightarrow> accounts \<Rightarrow> eth_exn + accounts" where
  "commit_state sha3 order cache st =
     (case (if length cache > 1000 then prepareForMultiThread sha3 st else None) of
        Some rc \<Rightarrow> map_sum id (\<lambda>_. m_root (snd (commitEx sha3 order cache \<lparr>m_root = st, m_rootCache = rc\<rparr>)))
                     (fst (commitEx sha3 order cache \<lparr>m_root = st, m_rootCache = rc\<rparr>))
      | None \<Rightarrow> Inr (commit_cache cache st))"

definition State_commit :: "(address \<Rightarrow> h256) \<Rightarrow> order \<Rightarrow> bool \<Rightarrow> unit stE" where
  "State_commit sha3 order removeEmpty =
     thenE (if removeEmpty then updE removeEmptyAccounts else ret ())
    (bindE (getE (\<lambda>s. commit_state sha3 order (m_cache s) (m_state s))) (\<lambda>res. case res of
       Inl e \<Rightarrow> throw e
     | Inr st \<Rightarrow> updE (\<lambda>s. s\<lparr>m_state := st,
           m_touched := foldl (\<lambda>ts (a, x). if isDirty x then os_insert a ts else ts) (m_touched s) (m_cache s),
           m_changeLog := [], m_cache := [], m_unchangedCacheEntries := []\<rparr>)))"

definition setRoot :: "(address, stored_account) omap \<Rightarrow> State \<Rightarrow> State" where
  "setRoot r s = s\<lparr>m_cache := [], m_unchangedCacheEntries := [], m_nonExistingAccountsCache := [],
     m_state := r\<rparr>"

end
