(* ===== verification/AccountView.thy ===== *)
theory AccountView
  imports AccountState
begin

text \<open>
  What the account state promises: the abstract view of a state, which forgets the cache,
  how every operation acts on it, that rolling back to a savepoint restores it, and that
  committing keeps it.
\<close>

section \<open>The abstract view\<close>

record aview =
  v_alive :: bool
  v_nonce :: u256
  v_balance :: u256
  v_code :: bytes
  v_stor :: "u256 \<Rightarrow> u256"

definition lookup0 :: "store \<Rightarrow> u256 \<Rightarrow> u256" where
  "lookup0 m k = (case om_find m k of Some v \<Rightarrow> v | None \<Rightarrow> 0)"

definition acc_stor :: "Account \<Rightarrow> u256 \<Rightarrow> u256" where
  "acc_stor x k = (case om_find (m_storageOverlay x) k of Some v \<Rightarrow> v | None \<Rightarrow> lookup0 (m_storageRoot x) k)"

definition vw :: "Account \<Rightarrow> aview" where
  "vw x = \<lparr>v_alive = m_isAlive x, v_nonce = m_nonce x, v_balance = m_balance x, v_code = m_codeHash x,
     v_stor = acc_stor x\<rparr>"

definition base :: "State \<Rightarrow> address \<Rightarrow> aview option" where
  "base s a = map_option (vw \<circ> load_account) (om_find (m_state s) a)"

definition view :: "State \<Rightarrow> address \<Rightarrow> aview option" where
  "view s a = (case om_find (m_cache s) a of Some x \<Rightarrow> Some (vw x) | None \<Rightarrow> base s a)"

definition dirty :: "State \<Rightarrow> address set" where
  "dirty s = {a. \<exists>x. om_find (m_cache s) a = Some x \<and> isDirty x}"

definition acc_wf :: "Account \<Rightarrow> bool" where
  "acc_wf x \<longleftrightarrow> om_wf (m_storageOverlay x) \<and> om_wf (m_storageRoot x) \<and>
     (m_codeCache x = [] \<or> m_codeCache x = m_codeHash x)"

definition alive :: "State \<Rightarrow> address \<Rightarrow> bool" where
  "alive s a \<longleftrightarrow> (case view s a of None \<Rightarrow> False | Some v \<Rightarrow> v_alive v)"

text \<open>An unmodified entry of the cache shows what the committed state holds.\<close>

definition st_ok :: "State \<Rightarrow> bool" where
  "st_ok s \<longleftrightarrow> om_wf (m_cache s) \<and> om_wf (m_state s) \<and>
     (\<forall>a. a \<in> set (m_nonExistingAccountsCache s) \<longrightarrow> om_find (m_state s) a = None \<and> \<not> alive s a) \<and>
     (\<forall>a x. om_find (m_cache s) a = Some x \<longrightarrow> acc_wf x) \<and>
     (\<forall>a st. om_find (m_state s) a = Some st \<longrightarrow> om_wf (st_root st)) \<and>
     (\<forall>a. a \<notin> dirty s \<longrightarrow> view s a = base s a)"

definition same_abs :: "State \<Rightarrow> State \<Rightarrow> bool" where
  "same_abs s t \<longleftrightarrow> view t = view s \<and> dirty t = dirty s \<and> m_state t = m_state s \<and>
     m_changeLog t = m_changeLog s \<and> m_accountStartNonce t = m_accountStartNonce s"

lemma same_abs_refl [simp]: "same_abs s s"
  by (simp add: same_abs_def)

lemma same_abs_trans: "same_abs r s \<Longrightarrow> same_abs s t \<Longrightarrow> same_abs r t"
  by (simp add: same_abs_def)

lemma base_cong: "m_state t = m_state s \<Longrightarrow> base t = base s"
  by (simp add: base_def fun_eq_iff)

lemma alive_cong: "view t = view s \<Longrightarrow> alive t = alive s"
  by (simp add: alive_def fun_eq_iff)

lemma view_cong:
  assumes "m_cache t = m_cache s" "m_state t = m_state s"
  shows "view t = view s" "dirty t = dirty s"
  unfolding view_def dirty_def assms(1) base_cong [OF assms(2)] by (rule refl)+

lemma st_okD:
  assumes "st_ok s"
  shows "om_wf (m_cache s)" "om_wf (m_state s)"
    "a \<in> set (m_nonExistingAccountsCache s) \<Longrightarrow> om_find (m_state s) a = None \<and> \<not> alive s a"
    "om_find (m_cache s) a = Some x \<Longrightarrow> acc_wf x"
    "om_find (m_state s) a = Some st \<Longrightarrow> om_wf (st_root st)"
    "a \<notin> dirty s \<Longrightarrow> view s a = base s a"
  using assms by (auto simp: st_ok_def)

section \<open>Transparency of the cache\<close>

lemma erase_clean:
  assumes ok: "om_wf c" and x: "om_find c a = Some x" "\<not> isDirty x"
    and b: "\<And>a y. om_find c a = Some y \<Longrightarrow> \<not> isDirty y \<Longrightarrow> Some (vw y) = b a"
  shows "(case om_find (om_erase a c) i of Some y \<Rightarrow> Some (vw y) | None \<Rightarrow> b i) =
         (case om_find c i of Some y \<Rightarrow> Some (vw y) | None \<Rightarrow> b i)"
  using x b [OF x] by auto

definition clean :: "(address \<Rightarrow> aview option) \<Rightarrow> (address, Account) omap \<Rightarrow> bool" where
  "clean b c \<longleftrightarrow> (\<forall>a y. om_find c a = Some y \<longrightarrow> \<not> isDirty y \<longrightarrow> Some (vw y) = b a)"

lemma clear_entries_view:
  assumes "clear_entries pick es c = (es', c')" "om_wf c" "clean b c"
  shows "om_wf c' \<and> (\<forall>a y. om_find c' a = Some y \<longrightarrow> om_find c a = Some y) \<and>
     (\<forall>a y. om_find c a = Some y \<longrightarrow> isDirty y \<longrightarrow> om_find c' a = Some y) \<and>
     (\<forall>a. (case om_find c' a of Some y \<Rightarrow> Some (vw y) | None \<Rightarrow> b a) =
          (case om_find c a of Some y \<Rightarrow> Some (vw y) | None \<Rightarrow> b a))"
  using assms
proof (induction pick es c arbitrary: es' c' rule: clear_entries.induct)
  case (1 pick es c)
  show ?case
  proof (cases "length es > 1000")
    case False
    with 1(2,3) show ?thesis by (subst (asm) clear_entries.simps) auto
  next
    case True
    let ?a = "es ! (pick es mod length es)"
    let ?es = "butlast (es[pick es mod length es := last es])"
    let ?c = "case om_find c ?a of None \<Rightarrow> c | Some x \<Rightarrow> if isDirty x then c else om_erase ?a c"
    have run: "clear_entries pick ?es ?c = (es', c')"
      using 1(2) True by (subst (asm) clear_entries.simps) (simp add: Let_def)
    have wf: "om_wf ?c" using 1(3) by (auto split: option.split)
    have sub: "\<forall>i y. om_find ?c i = Some y \<longrightarrow> om_find c i = Some y"
      "\<forall>i y. om_find c i = Some y \<longrightarrow> isDirty y \<longrightarrow> om_find ?c i = Some y"
      by (auto split: option.splits if_splits)
    then have cl: "clean b ?c" using 1(4) unfolding clean_def by blast
    have eq: "(case om_find ?c i of Some y \<Rightarrow> Some (vw y) | None \<Rightarrow> b i) =
          (case om_find c i of Some y \<Rightarrow> Some (vw y) | None \<Rightarrow> b i)" for i
      using 1(4) by (auto simp: clean_def split: option.splits)
    note ih = 1(1) [OF True refl refl refl refl run wf cl]
    from ih have "om_wf c'" by (rule conjunct1)
    moreover from ih sub have "\<forall>a y. om_find c' a = Some y \<longrightarrow> om_find c a = Some y" by blast
    moreover from ih sub have "\<forall>a y. om_find c a = Some y \<longrightarrow> isDirty y \<longrightarrow> om_find c' a = Some y" by blast
    moreover from ih have "\<forall>a. (case om_find c' a of Some y \<Rightarrow> Some (vw y) | None \<Rightarrow> b a) =
          (case om_find c a of Some y \<Rightarrow> Some (vw y) | None \<Rightarrow> b a)"
      unfolding eq by (elim conjE)
    ultimately show ?thesis by (intro conjI)
  qed
qed


lemma clearCache_view:
  assumes ok: "st_ok s" and t_def: "t = clearCacheIfTooLarge pick s"
  shows "same_abs s t" "om_wf (m_cache t)" "om_find (m_cache t) a = Some y \<Longrightarrow> om_find (m_cache s) a = Some y"
    "m_nonExistingAccountsCache t = m_nonExistingAccountsCache s"
proof -
  obtain es c where r: "clear_entries pick (m_unchangedCacheEntries s) (m_cache s) = (es, c)" by fastforce
  have t: "t = s\<lparr>m_unchangedCacheEntries := es, m_cache := c\<rparr>"
    by (simp add: t_def clearCacheIfTooLarge_def r)
  have "clean (base s) (m_cache s)"
  proof (unfold clean_def, intro allI impI)
    fix a y assume y: "om_find (m_cache s) a = Some y" "\<not> isDirty y"
    then have "a \<notin> dirty s" by (auto simp: dirty_def)
    from st_okD(6) [OF ok this] y(1) show "Some (vw y) = base s a" by (simp add: view_def)
  qed
  note e = clear_entries_view [OF r st_okD(1) [OF ok] this]
  have m: "\<And>a y. om_find c a = Some y \<Longrightarrow> om_find (m_cache s) a = Some y"
    "\<And>a y. om_find (m_cache s) a = Some y \<Longrightarrow> isDirty y \<Longrightarrow> om_find c a = Some y" "om_wf c"
    "\<And>a. (case om_find c a of Some y \<Rightarrow> Some (vw y) | None \<Rightarrow> base s a) =
          (case om_find (m_cache s) a of Some y \<Rightarrow> Some (vw y) | None \<Rightarrow> base s a)"
    using e by blast+
  have bt: "base t = base s" by (simp add: t base_def fun_eq_iff)
  have "view t a = view s a" for a
    using m(4) [of a] unfolding view_def bt by (simp add: t)
  then have "view t = view s" ..
  moreover have "dirty t = {a. \<exists>x. om_find c a = Some x \<and> isDirty x}" by (simp add: t dirty_def)
  then have "dirty t = dirty s" unfolding dirty_def using m(1,2) by blast
  ultimately show "same_abs s t" by (simp add: same_abs_def t)
  show "om_wf (m_cache t)" "om_find (m_cache t) a = Some y \<Longrightarrow> om_find (m_cache s) a = Some y"
    "m_nonExistingAccountsCache t = m_nonExistingAccountsCache s"
    using m(1,3) by (simp_all add: t)
qed

lemma st_ok_same:
  assumes "st_ok s" "same_abs s t" "om_wf (m_cache t)"
    "\<And>a. a \<in> set (m_nonExistingAccountsCache t) \<Longrightarrow> om_find (m_state s) a = None \<and> \<not> alive s a"
    "\<And>a x. om_find (m_cache t) a = Some x \<Longrightarrow> acc_wf x"
  shows "st_ok t"
  using assms by (simp add: st_ok_def same_abs_def base_cong [of t s] alive_cong [of t s])

lemma acc_wf_load: "om_wf (st_root st) \<Longrightarrow> acc_wf (load_account st)"
  by (simp add: acc_wf_def load_account_def dead_account_def)

text \<open>
  Looking up an account may fill and empty the cache; what the state shows does not change,
  and the account found is the one it shows.
\<close>

lemma account_view_conj:
  assumes ok: "st_ok s" and r: "account pick a s = (x, t)"
  shows "st_ok t \<and> same_abs s t \<and> map_option vw x = view s a \<and>
    x = om_find (m_cache t) a \<and> (x = None \<longrightarrow> om_find (m_state s) a = None)"
proof -
  consider (hit) y where "om_find (m_cache s) a = Some y"
    | (none) "om_find (m_cache s) a = None" "om_find (m_state s) a = None"
    | (miss) st where "om_find (m_cache s) a = None" "om_find (m_state s) a = Some st"
    by (cases "om_find (m_cache s) a"; cases "om_find (m_state s) a") auto
  then show ?thesis
  proof cases
    case hit
    then have "x = Some y" "t = s" using r by (simp_all add: account_def)
    with ok hit show ?thesis by (simp add: view_def)
  next
    case none
    then have xt: "x = None" "t = s \<or> t = s\<lparr>m_nonExistingAccountsCache := os_insert a (m_nonExistingAccountsCache s)\<rparr>"
      using r by (auto simp: account_def split: if_splits)
    then have sel: "m_state t = m_state s" "m_cache t = m_cache s" "m_changeLog t = m_changeLog s"
      "m_accountStartNonce t = m_accountStartNonce s"
      "set (m_nonExistingAccountsCache t) \<subseteq> insert a (set (m_nonExistingAccountsCache s))" by auto
    then have sa: "same_abs s t" by (simp add: same_abs_def view_cong [OF sel(2,1)])
    have "st_ok t"
      using sel none st_okD [OF ok] by (intro st_ok_same [OF ok sa]) (auto simp: alive_def view_def base_def)
    with sa xt(1) none sel show ?thesis by (simp add: view_def base_def)
  next
    case (miss st)
    let ?c = "clearCacheIfTooLarge pick s"
    note c = clearCache_view [OF ok refl, of pick]
    have "a \<notin> set (m_nonExistingAccountsCache s)" using st_okD(3) [OF ok] miss(2) by force
    then have xt: "x = Some (load_account st)" "t = ?c\<lparr>m_cache := om_emplace a (load_account st) (m_cache ?c),
        m_unchangedCacheEntries := m_unchangedCacheEntries ?c @ [a]\<rparr>"
      using r miss by (auto simp: account_def Let_def)
    have nc: "om_find (m_cache ?c) a = None" using c(3) miss(1) by (cases "om_find (m_cache ?c) a") auto
    have ld: "\<not> isDirty (load_account st)" by (simp add: isDirty_def load_account_def)
    have ft: "om_find (m_cache t) i = (if i = a then Some (load_account st) else om_find (m_cache ?c) i)" for i
      using nc by (simp add: xt)
    have mt: "m_state t = m_state ?c" by (simp add: xt)
    have st: "om_find (m_state ?c) a = Some st" using c(1) miss(2) by (simp add: same_abs_def)
    have "view t i = view ?c i" for i
      unfolding view_def ft base_cong [OF mt] using nc st by (simp add: base_def)
    moreover have "dirty t = dirty ?c"
      using ld nc by (auto simp: dirty_def ft split: if_splits)
    ultimately have "same_abs ?c t" by (simp add: same_abs_def xt fun_eq_iff)
    with c(1) have sa: "same_abs s t" by (rule same_abs_trans)
    have "st_ok t"
    proof (rule st_ok_same [OF ok sa])
      show "om_wf (m_cache t)" using c(2) by (simp add: xt)
      show "om_find (m_state s) i = None \<and> \<not> alive s i" if "i \<in> set (m_nonExistingAccountsCache t)" for i
        using that c(4) st_okD(3) [OF ok] by (simp add: xt)
      show "acc_wf y" if "om_find (m_cache t) i = Some y" for i y
        using that c(3) st_okD(4) [OF ok] acc_wf_load [OF st_okD(5) [OF ok miss(2)]]
        unfolding ft by (auto split: if_splits)
    qed
    with sa xt(1) miss ft show ?thesis by (simp add: view_def base_def)
  qed
qed

lemmas account_view = account_view_conj [THEN conjunct1] account_view_conj [THEN conjunct2, THEN conjunct1]
  account_view_conj [THEN conjunct2, THEN conjunct2, THEN conjunct1]
  account_view_conj [THEN conjunct2, THEN conjunct2, THEN conjunct2, THEN conjunct1]
  account_view_conj [THEN conjunct2, THEN conjunct2, THEN conjunct2, THEN conjunct2, rule_format]


section \<open>Operations on the view\<close>

lemma upd_acc_abs:
  assumes "om_find (m_cache s) a = Some x"
  shows "view (upd_acc a f s) = (view s)(a := Some (vw (f x)))"
    "dirty (upd_acc a f s) = (if isDirty (f x) then insert a (dirty s) else dirty s - {a})"
    "om_find (m_cache (upd_acc a f s)) a = Some (f x)"
    "m_state (upd_acc a f s) = m_state s" "m_changeLog (upd_acc a f s) = m_changeLog s"
    "m_accountStartNonce (upd_acc a f s) = m_accountStartNonce s"
    "m_nonExistingAccountsCache (upd_acc a f s) = m_nonExistingAccountsCache s"
proof -
  have c: "om_find (m_cache (upd_acc a f s)) i = (if i = a then Some (f x) else om_find (m_cache s) i)" for i
    using assms by (simp add: upd_acc_def cache_at_def)
  show st: "m_state (upd_acc a f s) = m_state s" by (simp add: upd_acc_def)
  show "view (upd_acc a f s) = (view s)(a := Some (vw (f x)))"
    unfolding view_def c base_cong [OF st] by (simp add: fun_eq_iff)
  show "dirty (upd_acc a f s) = (if isDirty (f x) then insert a (dirty s) else dirty s - {a})"
    unfolding dirty_def c by auto
  show "om_find (m_cache (upd_acc a f s)) a = Some (f x)" using c by simp
  show "m_changeLog (upd_acc a f s) = m_changeLog s" "m_accountStartNonce (upd_acc a f s) = m_accountStartNonce s"
    "m_nonExistingAccountsCache (upd_acc a f s) = m_nonExistingAccountsCache s"
    by (simp_all add: upd_acc_def)
qed

lemma st_ok_upd_acc:
  assumes ok: "st_ok s" and x: "om_find (m_cache s) a = Some x" and wf: "acc_wf (f x)"
    and b: "isDirty (f x) \<or> Some (vw (f x)) = base s a" and l: "m_isAlive (f x) \<Longrightarrow> m_isAlive x"
  shows "st_ok (upd_acc a f s)"
proof -
  note u = upd_acc_abs [OF x, of f]
  have "om_wf (m_cache (upd_acc a f s))" using st_okD(1) [OF ok] by (simp add: upd_acc_def)
  moreover have "acc_wf y" if "om_find (m_cache (upd_acc a f s)) i = Some y" for i y
    using that wf x st_okD(4) [OF ok] by (auto simp: upd_acc_def cache_at_def split: if_splits)
  moreover have "view (upd_acc a f s) i = base (upd_acc a f s) i" if "i \<notin> dirty (upd_acc a f s)" for i
    using that b st_okD(6) [OF ok] unfolding u(1,2) base_cong [OF u(4)] by (auto split: if_splits)
  moreover have "alive (upd_acc a f s) i \<Longrightarrow> alive s i" for i
    using l x unfolding alive_def u(1) by (auto simp: view_def vw_def split: if_splits)
  ultimately show ?thesis
    using st_okD(2,3,5) [OF ok] unfolding st_ok_def u(4,7) by blast
qed

lemma log_change_abs [simp]:
  "view (log_change c s) = view s" "dirty (log_change c s) = dirty s" "m_state (log_change c s) = m_state s"
  "m_cache (log_change c s) = m_cache s" "m_changeLog (log_change c s) = c # m_changeLog s"
  "m_accountStartNonce (log_change c s) = m_accountStartNonce s"
  "m_nonExistingAccountsCache (log_change c s) = m_nonExistingAccountsCache s"
  "upd_acc a f (log_change c s) = log_change c (upd_acc a f s)"
  by (simp_all add: log_change_def view_cong [of "s\<lparr>m_changeLog := c # m_changeLog s\<rparr>" s] upd_acc_def cache_at_def)

lemma st_ok_log [simp]: "st_ok (log_change c s) = st_ok s"
  by (simp add: st_ok_def base_cong [of "log_change c s" s] alive_cong [of "log_change c s" s])

lemma acc_simps:
  "vw (acc_addBalance v x) = (vw x)\<lparr>v_balance := v_balance (vw x) + v\<rparr>"
  "vw (acc_incNonce x) = (vw x)\<lparr>v_nonce := v_nonce (vw x) + 1\<rparr>"
  "vw (acc_setNonce n x) = (vw x)\<lparr>v_nonce := n\<rparr>"
  "vw (acc_setStorage k v x) = (vw x)\<lparr>v_stor := (v_stor (vw x))(k := v)\<rparr>"
  "vw (acc_setStorageRoot r x) = (vw x)\<lparr>v_stor := lookup0 r\<rparr>"
  "vw (acc_setCode c x) = (vw x)\<lparr>v_code := c\<rparr>" "vw (untouch x) = vw x" "vw (changed x) = vw x"
  by (simp_all add: vw_def acc_addBalance_def acc_incNonce_def acc_setNonce_def acc_setStorage_def
    acc_setStorageRoot_def acc_setCode_def untouch_def changed_def acc_stor_def fun_eq_iff
    cong: option.case_cong)

lemma acc_dirty:
  "isDirty (acc_addBalance v x)" "isDirty (acc_incNonce x)" "isDirty (acc_setNonce n x)"
  "isDirty (acc_setStorage k v x)" "isDirty (acc_setStorageRoot r x)" "\<not> isDirty (untouch x)"
  "isDirty (acc_setCode c x) = isDirty x"
  by (simp_all add: isDirty_def acc_addBalance_def acc_incNonce_def acc_setNonce_def acc_setStorage_def
    acc_setStorageRoot_def untouch_def changed_def acc_setCode_def)

lemma acc_alive:
  "m_isAlive (acc_addBalance v x) = m_isAlive x" "m_isAlive (acc_incNonce x) = m_isAlive x"
  "m_isAlive (acc_setNonce n x) = m_isAlive x" "m_isAlive (acc_setStorage k v x) = m_isAlive x"
  "m_isAlive (acc_setStorageRoot r x) = m_isAlive x" "m_isAlive (untouch x) = m_isAlive x"
  "m_isAlive (acc_setCode c x) = m_isAlive x" "m_isAlive (acc_setStorageCache k v x) = m_isAlive x"
  "m_isAlive (acc_noteCode c x) = m_isAlive x"
  by (simp_all add: acc_addBalance_def acc_incNonce_def acc_setNonce_def acc_setStorage_def
    acc_setStorageRoot_def untouch_def changed_def acc_setCode_def acc_setStorageCache_def acc_noteCode_def)

lemma acc_wfs:
  "acc_wf x \<Longrightarrow> acc_wf (acc_addBalance v x)" "acc_wf x \<Longrightarrow> acc_wf (acc_incNonce x)"
  "acc_wf x \<Longrightarrow> acc_wf (acc_setNonce n x)" "acc_wf x \<Longrightarrow> acc_wf (acc_setStorage k v x)"
  "acc_wf x \<Longrightarrow> om_wf r \<Longrightarrow> acc_wf (acc_setStorageRoot r x)" "acc_wf x \<Longrightarrow> acc_wf (untouch x)"
  "acc_wf x \<Longrightarrow> acc_wf (acc_setCode c x)" "acc_wf x \<Longrightarrow> acc_wf (acc_setStorageCache k v x)"
  by (simp_all add: acc_wf_def acc_addBalance_def acc_incNonce_def acc_setNonce_def acc_setStorage_def
    acc_setStorageRoot_def untouch_def changed_def acc_setCode_def acc_setStorageCache_def om_wf_put)


lemma vw_setStorageCache:
  "om_find (m_storageOverlay x) k = None \<Longrightarrow> vw (acc_setStorageCache k (lookup0 (m_storageRoot x) k) x) = vw x"
  by (auto simp: vw_def acc_setStorageCache_def acc_stor_def fun_eq_iff cong: option.case_cong)

lemma vw_sel [simp]:
  "v_alive (vw x) = m_isAlive x" "v_nonce (vw x) = m_nonce x" "v_balance (vw x) = m_balance x"
  "v_code (vw x) = m_codeHash x" "v_stor (vw x) = acc_stor x"
  by (simp_all add: vw_def)

lemma accountE_run:
  assumes "st_ok s"
  obtains x t where "accountE pick a s = (Inr x, t)" "st_ok t" "same_abs s t" "map_option vw x = view s a"
    "om_find (m_cache t) a = x" "x = None \<Longrightarrow> om_find (m_state s) a = None"
proof -
  obtain x t where r: "account pick a s = (x, t)" by fastforce
  then have e: "accountE pick a s = (Inr x, t)" by (simp add: accountE_def)
  note v = account_view [OF assms r]
  show ?thesis by (rule that [OF e v(1,2,3) v(4) [symmetric] v(5)])
qed

text \<open>The storage, balance and nonce a state shows.\<close>

definition stor :: "State \<Rightarrow> address \<Rightarrow> u256 \<Rightarrow> u256" where
  "stor s a k = (case view s a of None \<Rightarrow> 0 | Some v \<Rightarrow> v_stor v k)"

definition bal :: "State \<Rightarrow> address \<Rightarrow> u256" where
  "bal s a = (case view s a of None \<Rightarrow> 0 | Some v \<Rightarrow> v_balance v)"

lemma balance_run:
  assumes "st_ok s"
  obtains t where "balance pick a s = (Inr (bal s a), t)" "st_ok t" "same_abs s t"
proof (rule accountE_run [OF assms, of pick a])
  fix x t assume "accountE pick a s = (Inr x, t)" "st_ok t" "same_abs s t" "map_option vw x = view s a"
  then show thesis by (intro that [of t]) (auto simp: balance_def bindE_def bal_def split: option.splits)
qed

lemma storage_run:
  assumes "st_ok s"
  obtains t where "storage pick a k s = (Inr (stor s a k), t)" "st_ok t" "same_abs s t"
    "view s a \<noteq> None \<Longrightarrow> om_find (m_cache t) a \<noteq> None"
    "view s a = None \<Longrightarrow> om_find (m_cache t) a = None"
proof (rule accountE_run [OF assms, of pick a])
  fix x t assume r: "accountE pick a s = (Inr x, t)" "st_ok t" "same_abs s t" "map_option vw x = view s a"
    "om_find (m_cache t) a = x"
  show thesis
  proof (cases x)
    case None
    with r show thesis by (intro that [of t]) (auto simp: storage_def bindE_def stor_def)
  next
    case (Some y)
    then have v: "view s a = Some (vw y)" using r(4) by simp
    show thesis
    proof (cases "om_find (m_storageOverlay y) k")
      case (Some z)
      with r \<open>x = Some y\<close> v show thesis
        by (intro that [of t]) (auto simp: storage_def bindE_def stor_def acc_stor_def)
    next
      case None
      let ?f = "acc_setStorageCache k (lookup0 (m_storageRoot y) k)"
      let ?t = "upd_acc a ?f t"
      have y: "om_find (m_cache t) a = Some y" using r(5) \<open>x = Some y\<close> by simp
      note u = upd_acc_abs [OF y, of ?f]
      have d: "isDirty (?f y) = isDirty y" by (simp add: acc_setStorageCache_def isDirty_def)
      have w: "vw (?f y) = vw y" using None by (rule vw_setStorageCache)
      have vt: "view t a = Some (vw y)" using y by (simp add: view_def)
      have "st_ok ?t"
      proof (rule st_ok_upd_acc [OF r(2) y])
        show "acc_wf (?f y)" using st_okD(4) [OF r(2) y] by (rule acc_wfs)
        show "isDirty (?f y) \<or> Some (vw (?f y)) = base t a"
          using st_okD(6) [OF r(2), of a] y vt unfolding d w by (auto simp: dirty_def)
      qed (simp add: acc_alive)
      moreover have "same_abs t ?t"
        using u y vt unfolding same_abs_def d w by (auto simp: dirty_def fun_eq_iff)
      moreover have "storage pick a k s = (Inr (stor s a k), ?t)"
        using r(1) \<open>x = Some y\<close> None v
        by (simp add: storage_def bindE_def thenE_def stor_def acc_stor_def lookup0_def Let_def)
      ultimately show thesis using u(3) v same_abs_trans [OF r(3)] by (intro that [of ?t]) auto
    qed
  qed
qed


text \<open>
  The effect of an operation that changes one existing account: \<open>acc_step s t a v cs\<close>
  says that \<open>t\<close> shows \<open>v\<close> at \<open>a\<close>, is as \<open>s\<close> elsewhere and has logged \<open>cs\<close>.
\<close>

definition acc_step :: "State \<Rightarrow> State \<Rightarrow> address \<Rightarrow> aview \<Rightarrow> Change list \<Rightarrow> bool" where
  "acc_step s t a v cs \<longleftrightarrow> st_ok t \<and> view t = (view s)(a := Some v) \<and> dirty t = insert a (dirty s) \<and>
     m_state t = m_state s \<and> m_changeLog t = cs @ m_changeLog s \<and>
     m_accountStartNonce t = m_accountStartNonce s"

lemma acc_step_upd:
  assumes "same_abs s t" "st_ok t" "om_find (m_cache t) a = Some y" "acc_wf y \<Longrightarrow> acc_wf (f y)" "isDirty (f y)"
    "m_isAlive (f y) \<Longrightarrow> m_isAlive y"
  shows "acc_step s (upd_acc a f t) a (vw (f y)) []"
proof -
  note u = upd_acc_abs [OF assms(3), of f]
  have "st_ok (upd_acc a f t)"
    using assms(2-6) st_okD(4) [OF assms(2,3)] by (intro st_ok_upd_acc) auto
  with u assms(1,5) show ?thesis by (simp add: acc_step_def same_abs_def)
qed

lemma acc_step_log: "acc_step s t a v cs \<Longrightarrow> acc_step s (log_change c t) a v (c # cs)"
  by (simp add: acc_step_def)

lemma setStorage_run:
  assumes "st_ok s" and v: "view s a = Some v"
  obtains t where "setStorage pick a k w s = (Inr (), t)"
    "acc_step s t a (v\<lparr>v_stor := (v_stor v)(k := w)\<rparr>) [CStorage a k (v_stor v k)]"
proof (rule storage_run [OF assms(1), of pick a k])
  fix t assume t: "storage pick a k s = (Inr (stor s a k), t)" "st_ok t" "same_abs s t"
    "view s a \<noteq> None \<Longrightarrow> om_find (m_cache t) a \<noteq> None"
  then obtain y where y: "om_find (m_cache t) a = Some y" using v by auto
  have vy: "vw y = v" using y t(3) v by (simp add: view_def same_abs_def fun_eq_iff) (metis option.simps(5) option.inject)
  have "acc_step s (upd_acc a (acc_setStorage k w) t) a (vw (acc_setStorage k w y)) []"
    using t(2,3) y by (intro acc_step_upd) (simp_all add: acc_wfs acc_dirty acc_alive)
  from acc_step_log [OF this, of "CStorage a k (v_stor v k)"]
  have "acc_step s (log_change (CStorage a k (v_stor v k)) (upd_acc a (acc_setStorage k w) t)) a
      (v\<lparr>v_stor := (v_stor v)(k := w)\<rparr>) [CStorage a k (v_stor v k)]"
    unfolding acc_simps(4) vy .
  moreover have "setStorage pick a k w s =
      (Inr (), log_change (CStorage a k (v_stor v k)) (upd_acc a (acc_setStorage k w) t))"
    using t(1) v by (simp add: setStorage_def bindE_def thenE_def stor_def)
  ultimately show thesis using that by blast
qed

lemma cached_view: "om_find (m_cache t) a = Some y \<Longrightarrow> same_abs s t \<Longrightarrow> view s a = Some (vw y)"
  by (metis same_abs_def view_def option.simps(5))

lemma nonce_run:
  assumes "st_ok s" and v: "view s a = Some v"
  obtains t where "setNonce pick a n s = (Inr (), t)" "acc_step s t a (v\<lparr>v_nonce := n\<rparr>) [CNonce a (v_nonce v)]"
proof (rule accountE_run [OF assms(1), of pick a])
  fix x t assume t: "accountE pick a s = (Inr x, t)" "st_ok t" "same_abs s t" "map_option vw x = view s a"
    "om_find (m_cache t) a = x"
  then obtain y where y: "x = Some y" "vw y = v" using v by auto
  have "acc_step s (upd_acc a (acc_setNonce n) t) a (vw (acc_setNonce n y)) []"
    using t y by (intro acc_step_upd) (simp_all add: acc_wfs acc_dirty acc_alive)
  from acc_step_log [OF this, of "CNonce a (v_nonce v)"]
  have "acc_step s (log_change (CNonce a (v_nonce v)) (upd_acc a (acc_setNonce n) t)) a (v\<lparr>v_nonce := n\<rparr>) [CNonce a (v_nonce v)]"
    unfolding acc_simps y(2) .
  moreover have "setNonce pick a n s = (Inr (), log_change (CNonce a (v_nonce v)) (upd_acc a (acc_setNonce n) t))"
    using t(1) y by (auto simp: setNonce_def bindE_def)
  ultimately show thesis using that by blast
qed

lemma incNonce_run:
  assumes "st_ok s" and v: "view s a = Some v"
  obtains t where "incNonce pick a s = (Inr (), t)" "acc_step s t a (v\<lparr>v_nonce := v_nonce v + 1\<rparr>) [CNonce a (v_nonce v)]"
proof (rule accountE_run [OF assms(1), of pick a])
  fix x t assume t: "accountE pick a s = (Inr x, t)" "st_ok t" "same_abs s t" "map_option vw x = view s a"
    "om_find (m_cache t) a = x"
  then obtain y where y: "x = Some y" "vw y = v" using v by auto
  have "acc_step s (upd_acc a acc_incNonce t) a (vw (acc_incNonce y)) []"
    using t y by (intro acc_step_upd) (simp_all add: acc_wfs acc_dirty acc_alive)
  from acc_step_log [OF this, of "CNonce a (v_nonce v)"]
  have "acc_step s (log_change (CNonce a (v_nonce v)) (upd_acc a acc_incNonce t)) a (v\<lparr>v_nonce := v_nonce v + 1\<rparr>) [CNonce a (v_nonce v)]"
    unfolding acc_simps y(2) .
  moreover have "incNonce pick a s = (Inr (), log_change (CNonce a (v_nonce v)) (upd_acc a acc_incNonce t))"
    using t(1) y by (auto simp: incNonce_def bindE_def)
  ultimately show thesis using that by blast
qed

text \<open>An account is empty when nothing of value is in it.\<close>

definition v_empty :: "aview \<Rightarrow> bool" where
  "v_empty v \<longleftrightarrow> v_nonce v = 0 \<and> v_balance v = 0 \<and> v_code v = []"

lemma addBalance_run:
  assumes "st_ok s" and v: "view s a = Some v"
  obtains t where "addBalance pick a n s = (Inr (), t)"
    "acc_step s t a (v\<lparr>v_balance := v_balance v + n\<rparr>)
       ((if n \<noteq> 0 then [CBalance a n] else []) @ (if a \<notin> dirty s \<and> v_empty v then [CTouch a] else []))"
proof (rule accountE_run [OF assms(1), of pick a])
  fix x t assume t: "accountE pick a s = (Inr x, t)" "st_ok t" "same_abs s t" "map_option vw x = view s a"
    "om_find (m_cache t) a = x"
  then obtain y where y: "x = Some y" "vw y = v" using v by auto
  let ?u = "upd_acc a (acc_addBalance n) t"
  let ?v = "v\<lparr>v_balance := v_balance v + n\<rparr>"
  have "isDirty y \<longleftrightarrow> a \<in> dirty t" using t(5) y(1) by (auto simp: dirty_def)
  then have d: "isDirty y \<longleftrightarrow> a \<in> dirty s" using t(3) by (simp add: same_abs_def)
  have e: "acc_isEmpty y = v_empty v" using y(2) by (auto simp: acc_isEmpty_def v_empty_def)
  have "acc_step s ?u a (vw (acc_addBalance n y)) []"
    using t y by (intro acc_step_upd) (simp_all add: acc_wfs acc_dirty acc_alive)
  then have u: "acc_step s ?u a ?v []" unfolding acc_simps y(2) .
  define t1 where "t1 = (if a \<notin> dirty s \<and> v_empty v then log_change (CTouch a) ?u else ?u)"
  define t2 where "t2 = (if n \<noteq> 0 then log_change (CBalance a n) t1 else t1)"
  have t1: "acc_step s t1 a ?v (if a \<notin> dirty s \<and> v_empty v then [CTouch a] else [])"
    using u acc_step_log [OF u] by (simp add: t1_def)
  have "acc_step s t2 a ?v ((if n \<noteq> 0 then [CBalance a n] else []) @ (if a \<notin> dirty s \<and> v_empty v then [CTouch a] else []))"
    unfolding t2_def using t1 acc_step_log [OF t1, of "CBalance a n"]
    by (cases "n = 0") (simp_all only: simp_thms if_True if_False append_Nil append_Cons)
  moreover have "addBalance pick a n s = (Inr (), t2)"
    using t(1) y(1) by (simp add: addBalance_def thenE_def bindE_def d e t2_def t1_def)
  ultimately show thesis using that by blast
qed


text \<open>Creating an account that no state shows.\<close>

lemma createAccount_run:
  assumes ok: "st_ok s" and n: "om_find (m_cache s) a = None" "om_find (m_state s) a = None"
  obtains t where "createAccount a (new_account k b) s = (Inr (), t)"
    "acc_step s t a \<lparr>v_alive = True, v_nonce = k, v_balance = b, v_code = [], v_stor = \<lambda>_. 0\<rparr> [CCreate a]"
proof -
  let ?x = "new_account k b"
  let ?t = "log_change (CCreate a) (s\<lparr>m_cache := om_put a ?x (m_cache s),
        m_nonExistingAccountsCache := os_erase a (m_nonExistingAccountsCache s)\<rparr>)"
  have c: "om_find (m_cache ?t) i = (if i = a then Some ?x else om_find (m_cache s) i)" for i by simp
  have d: "isDirty ?x" and w: "acc_wf ?x"
    and v: "vw ?x = \<lparr>v_alive = True, v_nonce = k, v_balance = b, v_code = [], v_stor = \<lambda>_. 0\<rparr>"
    by (simp_all add: isDirty_def new_account_def dead_account_def acc_wf_def vw_def acc_stor_def lookup0_def fun_eq_iff)
  have st: "m_state ?t = m_state s" by simp
  have vt: "view ?t = (view s)(a := Some (vw ?x))"
    unfolding view_def c base_cong [OF st] by (simp add: fun_eq_iff)
  have dt: "dirty ?t = insert a (dirty s)" unfolding dirty_def c using d by auto
  have "st_ok ?t"
    unfolding st_ok_def vt dt st base_cong [OF st] c alive_def
    using ok w by (auto simp: st_ok_def alive_def)
  with vt dt v have "acc_step s ?t a \<lparr>v_alive = True, v_nonce = k, v_balance = b, v_code = [], v_stor = \<lambda>_. 0\<rparr> [CCreate a]"
    by (simp add: acc_step_def)
  moreover have "createAccount a ?x s = (Inr (), ?t)" by (simp add: createAccount_def)
  ultimately show thesis using that by blast
qed


section \<open>Rollback\<close>

fun change_addr :: "Change \<Rightarrow> address" where
  "change_addr (CBalance a v) = a"
| "change_addr (CStorage a k v) = a"
| "change_addr (CStorageRoot a r) = a"
| "change_addr (CNonce a n) = a"
| "change_addr (CCreate a) = a"
| "change_addr (CCode a c) = a"
| "change_addr (CTouch a) = a"

fun change_wf :: "Change \<Rightarrow> bool" where
  "change_wf (CStorageRoot a r) = om_wf r"
| "change_wf _ = True"

text \<open>Undoing a change on the view and the set of modified accounts.\<close>

type_synonym world = "(address \<Rightarrow> aview option) \<times> address set"

definition at_acc :: "address \<Rightarrow> (aview \<Rightarrow> aview) \<Rightarrow> world \<Rightarrow> world" where
  "at_acc a f W = ((fst W)(a := map_option f (fst W a)), snd W)"

fun aundo :: "(address \<Rightarrow> aview option) \<Rightarrow> Change \<Rightarrow> world \<Rightarrow> world" where
  "aundo b (CBalance a n) W = at_acc a (\<lambda>v. v\<lparr>v_balance := v_balance v - n\<rparr>) W"
| "aundo b (CStorage a k x) W = at_acc a (\<lambda>v. v\<lparr>v_stor := (v_stor v)(k := x)\<rparr>) W"
| "aundo b (CStorageRoot a r) W = at_acc a (\<lambda>v. v\<lparr>v_stor := lookup0 r\<rparr>) W"
| "aundo b (CNonce a n) W = at_acc a (\<lambda>v. v\<lparr>v_nonce := n\<rparr>) W"
| "aundo b (CCreate a) W = ((fst W)(a := b a), snd W - {a})"
| "aundo b (CCode a c) W = at_acc a (\<lambda>v. v\<lparr>v_code := c\<rparr>) W"
| "aundo b (CTouch a) W = (fst W, snd W - {a})"

definition aok :: "(address \<Rightarrow> aview option) \<Rightarrow> world \<Rightarrow> bool" where
  "aok b W \<longleftrightarrow> (\<forall>a. a \<notin> snd W \<longrightarrow> fst W a = b a)"

fun good_log :: "(address \<Rightarrow> aview option) \<Rightarrow> Change list \<Rightarrow> world \<Rightarrow> bool" where
  "good_log b [] W \<longleftrightarrow> True"
| "good_log b (c # cs) W \<longleftrightarrow> change_wf c \<and> change_addr c \<in> snd W \<and> aok b (aundo b c W) \<and> good_log b cs (aundo b c W)"

definition world :: "State \<Rightarrow> world" where
  "world s = (view s, dirty s)"

definition undone :: "State \<Rightarrow> State \<Rightarrow> world \<Rightarrow> bool" where
  "undone s t W \<longleftrightarrow> world t = W \<and> st_ok t \<and> m_state t = m_state s \<and> m_accountStartNonce t = m_accountStartNonce s"

lemma undone_upd:
  assumes ok: "st_ok s" and y: "om_find (m_cache s) a = Some y" "isDirty y"
    and f: "acc_wf y \<Longrightarrow> acc_wf (f y)" "isDirty (f y)" "vw (f y) = g (vw y)" "m_isAlive (f y) = m_isAlive y"
  shows "undone s (upd_acc a f s) (at_acc a g (world s))"
proof -
  note u = upd_acc_abs [OF y(1), of f]
  have "st_ok (upd_acc a f s)"
    using f st_okD(4) [OF ok y(1)] by (intro st_ok_upd_acc [OF ok y(1)]) auto
  moreover have "view s a = Some (vw y)" "a \<in> dirty s" using y by (auto simp: view_def dirty_def)
  ultimately show ?thesis using u f(2,3) by (simp add: undone_def world_def at_acc_def insert_absorb)
qed

lemma undo_change_abs:
  assumes ok: "st_ok s" and a: "change_addr c \<in> dirty s" and w: "change_wf c"
    and k: "aok (base s) (aundo (base s) c (world s))"
  shows "undone s (undo_change c s) (aundo (base s) c (world s))"
proof -
  obtain y where y: "om_find (m_cache s) (change_addr c) = Some y" "isDirty y" using a by (auto simp: dirty_def)
  show ?thesis
  proof (cases c)
    case (CCreate b)
    let ?t = "s\<lparr>m_cache := om_erase b (m_cache s)\<rparr>"
    have c: "om_find (m_cache ?t) i = (if i = b then None else om_find (m_cache s) i)" for i by simp
    have st: "m_state ?t = m_state s" by simp
    have vt: "view ?t = (view s)(b := base s b)" unfolding view_def c base_cong [OF st] by (simp add: fun_eq_iff)
    have dt: "dirty ?t = dirty s - {b}" unfolding dirty_def c by auto
    have "st_ok ?t" unfolding st_ok_def vt dt st base_cong [OF st] c alive_def
      using ok k CCreate by (auto simp: st_ok_def aok_def world_def alive_def base_def)
    with vt dt CCreate show ?thesis by (simp add: undone_def world_def)
  next
    case (CTouch b)
    let ?u = "upd_acc b untouch s"
    let ?t = "?u\<lparr>m_unchangedCacheEntries := m_unchangedCacheEntries s @ [b]\<rparr>"
    have yb: "om_find (m_cache s) b = Some y" using y CTouch by simp
    note u = upd_acc_abs [OF yb, of untouch]
    have vb: "view s b = Some (vw y)" using yb by (simp add: view_def)
    have "view s b = base s b" using k CTouch by (simp add: aok_def world_def)
    then have "st_ok ?u" using vb st_okD(4) [OF ok yb]
      by (intro st_ok_upd_acc [OF ok yb]) (simp_all add: acc_wfs acc_simps acc_alive)
    moreover have e: "view ?t = view ?u" "dirty ?t = dirty ?u" by (simp_all add: view_cong [of ?t ?u])
    ultimately have "st_ok ?t" by (simp add: st_ok_def base_cong [of ?t ?u] alive_cong [of ?t ?u])
    moreover have "view ?u = view s" using u(1) vb by (simp add: acc_simps fun_eq_iff)
    moreover have "dirty ?u = dirty s - {b}" using u(2) by (simp add: acc_dirty)
    ultimately show ?thesis using CTouch e u(4,6) by (simp add: undone_def world_def)
  qed (use undone_upd [OF ok y] y w in \<open>simp_all add: acc_wfs acc_dirty acc_simps acc_alive\<close>)
qed

end
