(* ===== verification/StateRollback.thy ===== *)
theory StateRollback
  imports AccountView
begin

text \<open>
  Savepoints of the account state: whatever the logged operations do after a savepoint,
  rolling back to it shows the accounts as they were.
\<close>

section \<open>The log and the view\<close>

definition aundos :: "(address \<Rightarrow> aview option) \<Rightarrow> Change list \<Rightarrow> world \<Rightarrow> world" where
  "aundos b cs W = foldl (\<lambda>W c. aundo b c W) W cs"

lemma aundos_simps [simp]:
  "aundos b [] W = W" "aundos b (c # cs) W = aundos b cs (aundo b c W)"
  "aundos b (cs @ ds) W = aundos b ds (aundos b cs W)"
  by (simp_all add: aundos_def)

lemma good_log_append:
  "good_log b (cs @ ds) W \<longleftrightarrow> good_log b cs W \<and> good_log b ds (aundos b cs W)"
  by (induction cs arbitrary: W) auto

text \<open>
  \<open>m_cache[a]\<close> makes an entry for an address without an account: an account that is not alive
  and has nothing. Rolling back does not take it out again. \<open>over W V\<close>: the world \<open>W\<close> is \<open>V\<close>,
  with more accounts counted as modified and with such entries for some addresses.
\<close>

definition blank :: aview where
  "blank = \<lparr>v_alive = False, v_nonce = 0, v_balance = 0, v_code = [], v_stor = (\<lambda>_. 0)\<rparr>"

definition over :: "world \<Rightarrow> world \<Rightarrow> bool" where
  "over W V \<longleftrightarrow> snd V \<subseteq> snd W \<and> (\<forall>a. fst W a = fst V a \<or> fst V a = None \<and> fst W a = Some blank \<and> a \<in> snd W)"

text \<open>Only accounts that are there are modified.\<close>

definition solid :: "world \<Rightarrow> bool" where
  "solid W \<longleftrightarrow> (\<forall>a \<in> snd W. fst W a \<noteq> None)"

lemma over_refl [simp]: "over W W"
  by (simp add: over_def)

lemma over_at: "over W V \<Longrightarrow> fst W a = fst V a \<or> fst V a = None \<and> fst W a = Some blank \<and> a \<in> snd W"
  by (simp add: over_def)

lemma over_mod: "over W V \<Longrightarrow> a \<in> snd V \<Longrightarrow> a \<in> snd W"
  by (auto simp: over_def)

lemma overI:
  assumes "\<And>a. a \<in> snd V \<Longrightarrow> a \<in> snd W"
    and "\<And>a. fst W a = fst V a \<or> fst V a = None \<and> fst W a = Some blank \<and> a \<in> snd W"
  shows "over W V"
  using assms unfolding over_def by blast

lemma over_trans:
  assumes "over W V" "over V U"
  shows "over W U"
proof (rule overI)
  fix a show "a \<in> snd U \<Longrightarrow> a \<in> snd W" using over_mod [OF assms(1)] over_mod [OF assms(2)] by blast
  show "fst W a = fst U a \<or> fst U a = None \<and> fst W a = Some blank \<and> a \<in> snd W"
    using over_at [OF assms(1), of a] over_at [OF assms(2), of a] over_mod [OF assms(1), of a] by auto
qed

lemma solid_world: "solid (world s)"
  by (auto simp: solid_def world_def dirty_def view_def)

lemma over_aok:
  assumes "over W V" "aok b V"
  shows "aok b W"
  unfolding aok_def
proof (intro allI impI)
  fix a assume "a \<notin> snd W"
  then show "fst W a = b a" using over_at [OF assms(1), of a] over_mod [OF assms(1), of a] assms(2) by (auto simp: aok_def)
qed

lemma solid_aundo: "solid W \<Longrightarrow> solid (aundo b c W)"
  by (cases c) (simp_all add: solid_def at_acc_def)

lemma over_aundo:
  assumes o: "over W V" and "solid V" "change_addr c \<in> snd V"
  shows "over (aundo b c W) (aundo b c V)"
proof -
  have "fst V (change_addr c) \<noteq> None" using assms(2,3) by (auto simp: solid_def)
  then have e: "fst W (change_addr c) = fst V (change_addr c)" using over_at [OF o, of "change_addr c"] by auto
  show ?thesis
  proof (rule overI)
    fix a
    show "a \<in> snd (aundo b c V) \<Longrightarrow> a \<in> snd (aundo b c W)"
      using over_mod [OF o, of a] by (cases c) (simp_all add: at_acc_def)
    show "fst (aundo b c W) a = fst (aundo b c V) a \<or>
      fst (aundo b c V) a = None \<and> fst (aundo b c W) a = Some blank \<and> a \<in> snd (aundo b c W)"
      using over_at [OF o, of a] e by (cases "a = change_addr c"; cases c) (simp_all add: at_acc_def)
  qed
qed

lemma good_log_over:
  "good_log b cs V \<Longrightarrow> over W V \<Longrightarrow> solid V \<Longrightarrow> good_log b cs W \<and> over (aundos b cs W) (aundos b cs V)"
proof (induction cs arbitrary: V W)
  case (Cons c cs)
  have o: "over (aundo b c W) (aundo b c V)" using Cons.prems by (intro over_aundo) auto
  have "change_addr c \<in> snd W" using Cons.prems(1) over_mod [OF Cons.prems(2)] by simp
  then show ?case using Cons.IH [OF _ o solid_aundo [OF Cons.prems(3)]] Cons.prems(1) over_aok [OF o] by simp
qed simp

text \<open>
  \<open>logged s t\<close>: \<open>t\<close> is \<open>s\<close> after changes that its log undoes.
\<close>

definition logged :: "State \<Rightarrow> State \<Rightarrow> bool" where
  "logged s t \<longleftrightarrow> st_ok t \<and> m_state t = m_state s \<and> m_accountStartNonce t = m_accountStartNonce s \<and>
     (\<exists>cs. m_changeLog t = cs @ m_changeLog s \<and> good_log (base s) cs (world t) \<and>
           over (aundos (base s) cs (world t)) (world s))"

lemma logged_same: "same_abs s t \<Longrightarrow> st_ok t \<Longrightarrow> logged s t"
  by (auto simp: logged_def same_abs_def world_def)

lemma logged_trans:
  assumes "logged r s" "logged s t"
  shows "logged r t"
proof -
  from assms(1) obtain cs where 1: "m_changeLog s = cs @ m_changeLog r" "good_log (base r) cs (world s)"
    "over (aundos (base r) cs (world s)) (world r)" by (auto simp: logged_def)
  from assms(2) obtain ds where 2: "m_changeLog t = ds @ m_changeLog s" "good_log (base s) ds (world t)"
    "over (aundos (base s) ds (world t)) (world s)" by (auto simp: logged_def)
  have b: "base s = base r" using assms(1) by (intro base_cong) (simp add: logged_def)
  note m = good_log_over [OF 1(2) 2(3) [unfolded b] solid_world]
  have "good_log (base r) (ds @ cs) (world t)" using 2(2) m b by (simp add: good_log_append)
  moreover have "over (aundos (base r) (ds @ cs) (world t)) (world r)"
    using m over_trans [OF _ 1(3)] by simp
  moreover have "m_changeLog t = (ds @ cs) @ m_changeLog r" using 1(1) 2(1) by simp
  ultimately show ?thesis using assms unfolding logged_def by (intro conjI exI [of _ "ds @ cs"]) simp_all
qed

definition st_track :: "State \<Rightarrow> State \<Rightarrow> bool" where
  "st_track b s \<longleftrightarrow> st_ok b \<and> logged b s"

lemma logged_refl: "st_ok s \<Longrightarrow> logged s s"
  by (simp add: logged_same)

lemma logged_ok: "logged s t \<Longrightarrow> st_ok t"
  by (simp add: logged_def)

lemma st_track_refl: "st_ok s \<Longrightarrow> st_track s s"
  by (simp add: st_track_def logged_refl)

lemma st_track_logged: "st_track b s \<Longrightarrow> logged s t \<Longrightarrow> st_track b t"
  by (auto simp: st_track_def intro: logged_trans)


section \<open>Rolling back\<close>

lemma set_changeLog [simp]:
  "view (s\<lparr>m_changeLog := l\<rparr>) = view s" "dirty (s\<lparr>m_changeLog := l\<rparr>) = dirty s"
  by (simp_all add: view_cong [of "s\<lparr>m_changeLog := l\<rparr>" s])

lemma st_ok_changeLog [simp]: "st_ok (s\<lparr>m_changeLog := l\<rparr>) = st_ok s"
  by (simp add: st_ok_def base_cong [of "s\<lparr>m_changeLog := l\<rparr>" s] alive_cong [of "s\<lparr>m_changeLog := l\<rparr>" s])

lemma rollback_times_run:
  assumes "st_ok s" "m_changeLog s = cs @ l" "good_log (base s) cs (world s)"
  shows "\<exists>t. rollback_times (length cs) s = (Inr (), t) \<and> undone s t (aundos (base s) cs (world s)) \<and> m_changeLog t = l"
  using assms
proof (induction cs arbitrary: s)
  case Nil
  then show ?case by (simp add: undone_def)
next
  case (Cons c cs)
  let ?t = "(undo_change c s)\<lparr>m_changeLog := cs @ l\<rparr>"
  have u: "undone s (undo_change c s) (aundo (base s) c (world s))"
    using Cons.prems by (intro undo_change_abs) (simp_all add: world_def)
  have w: "world ?t = aundo (base s) c (world s)" using u by (simp add: undone_def world_def)
  have b: "base ?t = base s" using u by (intro base_cong) (simp add: undone_def)
  have "st_ok ?t" using u by (simp add: undone_def)
  from Cons.IH [OF this] Cons.prems(3) w b obtain t where
    t: "rollback_times (length cs) ?t = (Inr (), t)" "undone ?t t (aundos (base s) cs (world ?t))" "m_changeLog t = l"
    by (auto simp: b)
  have "rollback_times (length (c # cs)) s = (Inr (), t)" using t(1) Cons.prems(2) by simp
  moreover have "undone s t (aundos (base s) (c # cs) (world s))" using t(2) u w by (simp add: undone_def)
  ultimately show ?case using t(3) by blast
qed

lemma rollback_logged:
  assumes "logged b s" "savepoint b \<le> n" "n \<le> savepoint s"
  shows "\<exists>t. rollback n s = (Inr (), t) \<and> logged b t \<and> savepoint t = n"
proof -
  from assms(1) obtain cs where c: "m_changeLog s = cs @ m_changeLog b" "good_log (base b) cs (world s)"
    "over (aundos (base b) cs (world s)) (world b)"
    by (auto simp: logged_def)
  let ?k = "savepoint s - n"
  define c1 c2 where "c1 = take ?k cs" and "c2 = drop ?k cs"
  have k: "length c1 = ?k" "cs = c1 @ c2" using assms(2,3) c(1) by (simp_all add: c1_def c2_def savepoint_def)
  have b: "base s = base b" using assms(1) by (intro base_cong) (simp add: logged_def)
  have g: "good_log (base b) c1 (world s)" "good_log (base b) c2 (aundos (base b) c1 (world s))"
    using c(2) k(2) by (simp_all add: good_log_append)
  obtain t where t: "rollback_times ?k s = (Inr (), t)" "undone s t (aundos (base b) c1 (world s))"
      "m_changeLog t = c2 @ m_changeLog b"
    using rollback_times_run [of s c1 "c2 @ m_changeLog b"] logged_ok [OF assms(1)] c(1) g(1) k b by auto
  have "logged b t"
    using t g(2) c(3) k(2) assms(1) by (auto simp: logged_def undone_def)
  moreover have "savepoint t = n" using t(3) k c(1) assms(2,3) by (simp add: savepoint_def)
  ultimately show ?thesis using t(1) assms(3) by (simp add: rollback_def)
qed

text \<open>What is promised after rolling back all the way.\<close>

definition st_same :: "State \<Rightarrow> State \<Rightarrow> bool" where
  "st_same s t \<longleftrightarrow> st_ok t \<and> over (world t) (world s) \<and> m_state t = m_state s \<and> m_changeLog t = m_changeLog s \<and>
     m_accountStartNonce t = m_accountStartNonce s"

lemma rollback_track:
  assumes "st_track b s"
  shows "\<exists>t. rollback (savepoint b) s = (Inr (), t) \<and> st_same b t"
proof -
  have l: "logged b s" using assms by (simp add: st_track_def)
  then have "savepoint b \<le> savepoint s" by (auto simp: logged_def savepoint_def)
  from rollback_logged [OF l order_refl this] obtain t where
    t: "rollback (savepoint b) s = (Inr (), t)" "logged b t" "savepoint t = savepoint b" by blast
  from t(2) obtain cs where c: "m_changeLog t = cs @ m_changeLog b" "over (aundos (base b) cs (world t)) (world b)"
    by (auto simp: logged_def)
  with t(3) have "cs = []" by (simp add: savepoint_def)
  with c t(2) have "st_same b t" by (simp add: st_same_def logged_def)
  with t(1) show ?thesis by blast
qed

interpretation state: revertible "\<lambda>s. s" "\<lambda>b. rollback (savepoint b)" st_ok st_track st_same
  by unfold_locales (simp_all add: st_track_refl rollback_track)


section \<open>Operations that log what they change\<close>

definition logs :: "'a stE \<Rightarrow> bool" where
  "logs m \<longleftrightarrow> (\<forall>s r t. st_ok s \<longrightarrow> m s = (r, t) \<longrightarrow> logged s t)"

named_theorems logs_intro \<open>computations that log what they change\<close>

lemma logsD: "logs m \<Longrightarrow> st_ok s \<Longrightarrow> m s = (r, t) \<Longrightarrow> logged s t"
  unfolding logs_def by blast

lemma logsI: "(\<And>s r t. st_ok s \<Longrightarrow> m s = (r, t) \<Longrightarrow> logged s t) \<Longrightarrow> logs m"
  unfolding logs_def by blast

lemma logs_keeps: "logs m \<Longrightarrow> keeps (st_track b) m"
  by (rule keepsI) (metis logsD logged_ok st_track_def st_track_logged)

lemma logs_base [logs_intro]: "logs (ret x)" "logs (throw e)" "logs (getE f)" "logs (throwIf c e)"
  by (auto simp: logs_def throwIf_def intro: logged_refl)

lemma logs_bindE [logs_intro]:
  assumes "logs m" "\<And>x. logs (f x)"
  shows "logs (bindE m f)"
proof (rule logsI)
  fix s r t assume s: "st_ok s" and r: "bindE m f s = (r, t)"
  obtain q u where m: "m s = (q, u)" by fastforce
  have l: "logged s u" by (rule logsD [OF assms(1) s m])
  show "logged s t"
  proof (cases q)
    case (Inl e) with m r l show ?thesis by (simp add: bindE_def)
  next
    case (Inr x)
    with m r have "f x u = (r, t)" by (simp add: bindE_def)
    with l show ?thesis by (metis logsD assms(2) logged_ok logged_trans)
  qed
qed

lemma logs_thenE [logs_intro]: "logs m \<Longrightarrow> logs n \<Longrightarrow> logs (thenE m n)"
  by (simp add: thenE_def logs_bindE)

lemma logs_accountE [logs_intro]: "logs (accountE pick a)"
  by (rule logsI) (metis accountE_run prod.inject logged_same)

lemma logs_reads [logs_intro]:
  "logs (addressInUse pick a)" "logs (accountNonemptyAndExisting pick a)" "logs (addressHasCode pick a)"
  "logs (balance pick a)" "logs (codeHash pick a)" "logs requireAccountStartNonce"
  unfolding addressInUse_def accountNonemptyAndExisting_def addressHasCode_def balance_def codeHash_def
    requireAccountStartNonce_def
  by (intro logs_intro)+

lemma logs_getNonce [logs_intro]: "logs (getNonce pick a)"
  unfolding getNonce_def by (intro logs_bindE logs_accountE) (simp split: option.split add: logs_base)

lemma logs_storage [logs_intro]: "logs (storage pick a k)"
  by (rule logsI) (metis storage_run prod.inject logged_same)

lemma aok_world: "st_ok s \<Longrightarrow> aok (base s) (world s)"
  by (simp add: aok_def world_def st_okD(6))

lemma over_world: "dirty s \<subseteq> D \<Longrightarrow> over (view s, D) (world s)"
  by (simp add: over_def world_def)

lemma acc_step_logged:
  assumes "acc_step s t a v [c]" "change_addr c = a" "change_wf c" "st_ok s"
    and u: "over (aundo (base s) c ((view s)(a := Some v), insert a (dirty s))) (world s)"
  shows "logged s t"
proof -
  have w: "world t = ((view s)(a := Some v), insert a (dirty s))"
    using assms(1) by (simp add: acc_step_def world_def)
  have "good_log (base s) [c] (world t)"
    using assms(2,3) over_aok [OF u aok_world [OF assms(4)]] by (simp add: w)
  with assms(1) u show ?thesis
    unfolding logged_def by (intro conjI exI [of _ "[c]"]) (simp_all add: acc_step_def w [symmetric])
qed

lemma setStorage_logged:
  assumes "st_ok s" "view s a \<noteq> None" "setStorage pick a k w s = (r, t)"
  shows "logged s t"
proof -
  obtain v where v: "view s a = Some v" using assms(2) by blast
  obtain u where u: "setStorage pick a k w s = (Inr (), u)"
    "acc_step s u a (v\<lparr>v_stor := (v_stor v)(k := w)\<rparr>) [CStorage a k (v_stor v k)]"
    by (rule setStorage_run [OF assms(1) v])
  have "logged s u"
    by (rule acc_step_logged [OF u(2)])
      (use assms(1) v in \<open>simp_all add: at_acc_def fun_upd_idem over_world subset_insertI\<close>)
  with u(1) assms(3) show ?thesis by simp
qed

lemma nonce_logged:
  assumes "st_ok s" "view s a = Some v" "acc_step s t a (v\<lparr>v_nonce := n\<rparr>) [CNonce a (v_nonce v)]"
  shows "logged s t"
  by (rule acc_step_logged [OF assms(3)])
    (use assms(1,2) in \<open>simp_all add: at_acc_def fun_upd_idem over_world subset_insertI\<close>)

lemma create_logged:
  assumes "st_ok s" "om_find (m_cache s) a = None" "om_find (m_state s) a = None"
    "createAccount a (new_account k b) s = (r, t)"
  shows "logged s t"
proof -
  obtain u where u: "createAccount a (new_account k b) s = (Inr (), u)"
    "acc_step s u a \<lparr>v_alive = True, v_nonce = k, v_balance = b, v_code = [], v_stor = \<lambda>_. 0\<rparr> [CCreate a]"
    by (rule createAccount_run [OF assms(1-3)])
  have n: "view s a = base s a" "a \<notin> dirty s" using assms(2) by (simp_all add: view_def dirty_def)
  have "logged s u"
    by (rule acc_step_logged [OF u(2)]) (use assms(1) n in \<open>simp_all add: fun_upd_idem over_world\<close>)
  with u(1) assms(4) show ?thesis by simp
qed

text \<open>The branch of an operation that finds no account.\<close>

lemma no_account:
  assumes "st_ok s" "view s a = None"
  obtains t where "accountE pick a s = (Inr None, t)" "st_ok t" "logged s t"
    "om_find (m_cache t) a = None" "om_find (m_state t) a = None" "m_accountStartNonce t = m_accountStartNonce s"
proof (rule accountE_run [OF assms(1), of pick a])
  fix x t assume t: "accountE pick a s = (Inr x, t)" "st_ok t" "same_abs s t" "map_option vw x = view s a"
    "om_find (m_cache t) a = x" "x = None \<Longrightarrow> om_find (m_state s) a = None"
  with assms(2) have "x = None" by simp
  with t logged_same [OF t(3,2)] show thesis by (intro that [of t]) (auto simp: same_abs_def)
qed

lemma addBalance_logged:
  assumes ok: "st_ok s" and v: "view s a = Some v" and r: "addBalance pick a n s = (r, t)"
  shows "logged s t"
proof -
  let ?v = "v\<lparr>v_balance := v_balance v + n\<rparr>"
  let ?c1 = "if n \<noteq> 0 then [CBalance a n] else []"
  let ?c2 = "if a \<notin> dirty s \<and> v_empty v then [CTouch a] else []"
  obtain u where "addBalance pick a n s = (Inr (), u)" "acc_step s u a ?v (?c1 @ ?c2)"
    by (rule addBalance_run [OF ok v])
  with r have t: "acc_step s t a ?v (?c1 @ ?c2)" by simp
  let ?D = "insert a (dirty s)"
  have w: "world t = ((view s)(a := Some ?v), ?D)" using t by (simp add: acc_step_def world_def)
  have k: "aok (base s) (view s, E)" if "dirty s \<subseteq> E" for E
    using st_okD(6) [OF ok] that by (auto simp: aok_def)
  have z: "?v = v" if "n = 0" using that by simp
  have 1: "aundos (base s) ?c1 (world t) = (view s, ?D)"
    using v z by (auto simp: w at_acc_def fun_upd_idem)
  have 2: "good_log (base s) ?c1 (world t)"
    using v k [of ?D] by (auto simp: w at_acc_def fun_upd_idem)
  have 3: "good_log (base s) ?c2 (view s, ?D)" using k [of "dirty s"] by simp
  have "logged s t" unfolding logged_def
  proof (intro conjI exI [of _ "?c1 @ ?c2"])
    show "good_log (base s) (?c1 @ ?c2) (world t)" unfolding good_log_append 1 using 2 3 by (rule conjI)
    show "over (aundos (base s) (?c1 @ ?c2) (world t)) (world s)"
      unfolding aundos_simps 1 by (cases "a \<notin> dirty s \<and> v_empty v") (auto intro: over_world)
  qed (use t in \<open>simp_all add: acc_step_def\<close>)
  then show ?thesis .
qed

text \<open>A log entry added for the balance an account was created with.\<close>

lemma create_balance_logged:
  assumes ok: "st_ok s" and n: "om_find (m_cache s) a = None" "om_find (m_state s) a = None"
    and t: "createAccount a (new_account k b) s = (Inr (), t)"
  shows "logged s (log_change (CBalance a b) t)"
proof -
  let ?v = "\<lparr>v_alive = True, v_nonce = k, v_balance = b, v_code = [], v_stor = \<lambda>_. 0\<rparr>"
  obtain u where u: "createAccount a (new_account k b) s = (Inr (), u)" "acc_step s u a ?v [CCreate a]"
    by (rule createAccount_run [OF assms(1-3)])
  with t have t': "acc_step s t a ?v [CCreate a]" by simp
  have nd: "view s a = base s a" "a \<notin> dirty s" using n by (simp_all add: view_def dirty_def)
  have k: "aok (base s) (view s, dirty s)" using aok_world [OF ok] by (simp add: world_def)
  let ?W = "((view s)(a := Some (?v\<lparr>v_balance := 0\<rparr>)), insert a (dirty s))"
  have w: "aundo (base s) (CBalance a b) (world t) = ?W" "aundo (base s) (CCreate a) ?W = (view s, dirty s)"
    using t' nd by (simp_all add: acc_step_def world_def at_acc_def fun_upd_idem)
  have g: "good_log (base s) [CBalance a b, CCreate a] (world t)"
    using k w t' by (auto simp: acc_step_def world_def aok_def)
  have l: "world (log_change (CBalance a b) t) = world t" by (simp add: world_def)
  have "aundos (base s) [CBalance a b, CCreate a] (world t) = (view s, dirty s)" using w by simp
  with g t' show ?thesis
    unfolding logged_def l by (intro conjI exI [of _ "[CBalance a b, CCreate a]"]) (simp_all add: acc_step_def over_world)
qed

lemma logs_addBalance [logs_intro]: "logs (addBalance pick a n)"
proof (rule logsI)
  fix s r t assume ok: "st_ok s" and r: "addBalance pick a n s = (r, t)"
  show "logged s t"
  proof (cases "view s a")
    case (Some v) from addBalance_logged [OF ok Some r] show ?thesis .
  next
    case None
    from no_account [OF ok None, of pick] obtain u where
      u: "accountE pick a s = (Inr None, u)" "st_ok u" "logged s u" "om_find (m_cache u) a = None" "om_find (m_state u) a = None"
      by metis
    let ?k = "m_accountStartNonce u"
    show ?thesis
    proof (cases "?k = Invalid256")
      case True
      with r u(1) have "t = u" by (simp add: addBalance_def exc_defs requireAccountStartNonce_def)
      with u(3) show ?thesis by simp
    next
      case False
      obtain x where x: "createAccount a (new_account ?k n) u = (Inr (), x)" by (simp add: createAccount_def)
      with r u(1) False have "t = (if n = 0 then x else log_change (CBalance a n) x)"
        by (auto simp: addBalance_def exc_defs requireAccountStartNonce_def)
      then have "logged u t"
        using create_logged [OF u(2,4,5) x] create_balance_logged [OF u(2,4,5) x] by simp
      with u(3) show ?thesis by (rule logged_trans)
    qed
  qed
qed

lemma logs_subBalance [logs_intro]: "logs (subBalance pick a v)"
  unfolding subBalance_def by (auto intro!: logs_intro split: option.split)

lemma logs_transferBalance [logs_intro]: "logs (transferBalance pick a b v)"
  unfolding transferBalance_def by (intro logs_intro)

lemma logs_setNonce [logs_intro]: "logs (setNonce pick a n)"
proof (rule logsI)
  fix s r t assume ok: "st_ok s" and r: "setNonce pick a n s = (r, t)"
  show "logged s t"
  proof (cases "view s a")
    case (Some v)
    obtain u where u: "setNonce pick a n s = (Inr (), u)" "acc_step s u a (v\<lparr>v_nonce := n\<rparr>) [CNonce a (v_nonce v)]"
      by (rule nonce_run [OF ok Some])
    from nonce_logged [OF ok Some u(2)] u(1) r show ?thesis by simp
  next
    case None
    from no_account [OF ok None, of pick] obtain u where
      u: "accountE pick a s = (Inr None, u)" "st_ok u" "logged s u" "om_find (m_cache u) a = None" "om_find (m_state u) a = None"
      by metis
    with r have "createAccount a (new_account n 0) u = (r, t)" by (simp add: setNonce_def bindE_def)
    from logged_trans [OF u(3) create_logged [OF u(2,4,5) this]] show ?thesis .
  qed
qed

lemma logs_incNonce [logs_intro]: "logs (incNonce pick a)"
proof (rule logsI)
  fix s r t assume ok: "st_ok s" and r: "incNonce pick a s = (r, t)"
  show "logged s t"
  proof (cases "view s a")
    case (Some v)
    obtain u where u: "incNonce pick a s = (Inr (), u)" "acc_step s u a (v\<lparr>v_nonce := v_nonce v + 1\<rparr>) [CNonce a (v_nonce v)]"
      by (rule incNonce_run [OF ok Some])
    from nonce_logged [OF ok Some u(2)] u(1) r show ?thesis by simp
  next
    case None
    from no_account [OF ok None, of pick] obtain u where
      u: "accountE pick a s = (Inr None, u)" "st_ok u" "logged s u" "om_find (m_cache u) a = None" "om_find (m_state u) a = None"
      by metis
    let ?k = "m_accountStartNonce u"
    show ?thesis
    proof (cases "?k = Invalid256")
      case True
      with r u(1,3) show ?thesis by (simp add: incNonce_def exc_defs requireAccountStartNonce_def)
    next
      case False
      with r u(1) have "createAccount a (new_account (?k + 1) 0) u = (r, t)"
        by (simp add: incNonce_def exc_defs requireAccountStartNonce_def)
      from logged_trans [OF u(3) create_logged [OF u(2,4,5) this]] show ?thesis .
    qed
  qed
qed

lemma code_run:
  assumes "st_ok s"
  obtains t where "code pick a s = (Inr (case view s a of None \<Rightarrow> [] | Some v \<Rightarrow> v_code v), t)" "st_ok t" "same_abs s t"
    "\<And>v. view s a = Some v \<Longrightarrow> \<exists>y. om_find (m_cache t) a = Some y \<and> vw y = v"
proof (rule accountE_run [OF assms, of pick a])
  fix x t assume r: "accountE pick a s = (Inr x, t)" "st_ok t" "same_abs s t" "map_option vw x = view s a"
    "om_find (m_cache t) a = x"
  show thesis
  proof (cases x)
    case None
    with r show thesis by (intro that [of t]) (auto simp: code_def bindE_def)
  next
    case (Some y)
    then have v: "view s a = Some (vw y)" and y: "om_find (m_cache t) a = Some y" using r(4,5) by simp_all
    have wf: "acc_wf y" by (rule st_okD(4) [OF r(2) y])
    show thesis
    proof (cases "m_codeHash y \<noteq> [] \<and> m_codeCache y = []")
      case False
      with wf r(1) Some v y show thesis
        by (intro that [OF _ r(2,3)]) (auto simp: code_def bindE_def acc_wf_def)
    next
      case True
      let ?f = "acc_noteCode (m_codeHash y)"
      let ?t = "upd_acc a ?f t"
      note u = upd_acc_abs [OF y, of ?f]
      have d: "isDirty (?f y) = isDirty y" and w: "vw (?f y) = vw y" and wf': "acc_wf (?f y)"
        using wf by (simp_all add: acc_noteCode_def isDirty_def vw_def acc_wf_def acc_stor_def fun_eq_iff cong: option.case_cong)
      have vt: "view t a = Some (vw y)" using y by (simp add: view_def)
      have "st_ok ?t"
        using st_okD(6) [OF r(2), of a] y vt d w wf'
        by (intro st_ok_upd_acc [OF r(2) y]) (auto simp: dirty_def acc_alive)
      moreover have "same_abs t ?t"
        using u y vt unfolding same_abs_def d w by (auto simp: dirty_def fun_eq_iff)
      moreover have "code pick a s = (Inr (m_codeHash y), ?t)"
        using r(1) Some True by (simp add: code_def bindE_def thenE_def)
      ultimately show thesis
        using u(3) v w same_abs_trans [OF r(3)] by (intro that [of ?t]) auto
    qed
  qed
qed

lemma logs_code [logs_intro]: "logs (code pick a)"
  by (rule logsI) (metis code_run prod.inject logged_same)

lemma setCode_logged:
  assumes ok: "st_ok s" and d: "a \<in> dirty s" and r: "setCode pick a c s = (r, t)"
  shows "logged s t"
proof -
  obtain v where v: "view s a = Some v" using d by (auto simp: dirty_def view_def)
  obtain u where u: "code pick a s = (Inr (v_code v), u)" "st_ok u" "same_abs s u"
    "\<exists>y. om_find (m_cache u) a = Some y \<and> vw y = v"
    using v by (auto intro: code_run [OF ok, of pick a])
  then obtain y where y: "om_find (m_cache u) a = Some y" "vw y = v" by blast
  have "a \<in> dirty u" using d u(3) by (simp add: same_abs_def)
  then have "isDirty y" using y(1) by (auto simp: dirty_def)
  then have "acc_step s (upd_acc a (acc_setCode c) u) a (vw (acc_setCode c y)) []"
    using u y by (intro acc_step_upd) (simp_all add: acc_wfs acc_dirty acc_alive)
  from acc_step_log [OF this, of "CCode a (v_code v)"]
  have k: "acc_step s (log_change (CCode a (v_code v)) (upd_acc a (acc_setCode c) u)) a (v\<lparr>v_code := c\<rparr>) [CCode a (v_code v)]"
    unfolding acc_simps y(2) .
  have "t = log_change (CCode a (v_code v)) (upd_acc a (acc_setCode c) u)"
    using r u(1) by (simp add: setCode_def bindE_def)
  moreover have "logged s (log_change (CCode a (v_code v)) (upd_acc a (acc_setCode c) u))"
    by (rule acc_step_logged [OF k]) (use ok v in \<open>simp_all add: at_acc_def fun_upd_idem over_world subset_insertI\<close>)
  ultimately show ?thesis by simp
qed

lemma createContract_logged:
  assumes ok: "st_ok s" and n: "view s a = None" and r: "createContract a s = (r, t)"
  shows "logged s t"
proof -
  have c: "om_find (m_cache s) a = None" "om_find (m_state s) a = None"
    using n by (auto simp: view_def base_def split: option.splits)
  show ?thesis
  proof (cases "m_accountStartNonce s = Invalid256")
    case True
    with r ok show ?thesis by (auto simp: createContract_def exc_defs requireAccountStartNonce_def intro: logged_refl)
  next
    case False
    with r have "createAccount a (new_account (m_accountStartNonce s) 0) s = (r, t)"
      by (simp add: createContract_def exc_defs requireAccountStartNonce_def)
    from create_logged [OF ok c this] show ?thesis .
  qed
qed


section \<open>Execution between a savepoint and its rollback\<close>

text \<open>Storage and cache entries of an address without an account.\<close>

lemma enter_blank:
  assumes ok: "st_ok s" and n: "om_find (m_cache s) a = None" "base s a = None"
    and x: "x = f dead_account" "acc_wf x" "isDirty x" "\<not> m_isAlive x"
  shows "acc_step s (upd_acc a f s) a (vw x) []"
proof -
  let ?t = "upd_acc a f s"
  have c: "om_find (m_cache ?t) i = (if i = a then Some x else om_find (m_cache s) i)" for i
    using n(1) x(1) by (simp add: upd_acc_def cache_at_def)
  have st: "m_state ?t = m_state s" "m_nonExistingAccountsCache ?t = m_nonExistingAccountsCache s"
    "m_changeLog ?t = m_changeLog s" "m_accountStartNonce ?t = m_accountStartNonce s" by (simp_all add: upd_acc_def)
  have vt: "view ?t = (view s)(a := Some (vw x))"
    unfolding view_def c base_cong [OF st(1)] by (simp add: fun_eq_iff)
  have dt: "dirty ?t = insert a (dirty s)" unfolding dirty_def c using x by auto
  have "om_wf (m_cache ?t)" using st_okD(1) [OF ok] by (simp add: upd_acc_def)
  then have "st_ok ?t"
    using ok x unfolding st_ok_def vt dt st base_cong [OF st(1)] c alive_def by auto
  then show ?thesis by (simp add: acc_step_def vt dt st)
qed

lemma vw_dead: "vw dead_account = blank"
  by (simp add: vw_def dead_account_def blank_def acc_stor_def lookup0_def fun_eq_iff)

lemma dead_entry: "acc_wf dead_account" "isDirty dead_account" "\<not> m_isAlive dead_account"
  by (simp_all add: acc_wf_def isDirty_def dead_account_def)

lemma absent_base: "view s a = None \<Longrightarrow> base s a = None \<and> om_find (m_cache s) a = None"
  by (auto simp: view_def split: option.splits)

lemma setStorage_absent:
  assumes ok: "st_ok s" and n: "view s a = None" and r: "setStorage pick a k w s = (r, t)"
  shows "acc_step s t a (blank\<lparr>v_stor := (\<lambda>_. 0)(k := w)\<rparr>) [CStorage a k 0] \<and> r = Inr ()"
proof -
  obtain u where u: "storage pick a k s = (Inr (stor s a k), u)" "st_ok u" "same_abs s u" "om_find (m_cache u) a = None"
    using n by (auto intro: storage_run [OF ok, of pick a k])
  have z: "stor s a k = 0" using n by (simp add: stor_def)
  have "base u a = None" using u(3) absent_base [OF n] base_cong [of u s] by (simp add: same_abs_def)
  from enter_blank [OF u(2,4) this, of _ "acc_setStorage k w"]
  have "acc_step u (upd_acc a (acc_setStorage k w) u) a (vw (acc_setStorage k w dead_account)) []"
    by (simp add: acc_wfs acc_dirty acc_alive dead_entry)
  then have "acc_step s (upd_acc a (acc_setStorage k w) u) a (blank\<lparr>v_stor := (\<lambda>_. 0)(k := w)\<rparr>) []"
    using u(3) unfolding acc_simps vw_dead by (simp add: acc_step_def same_abs_def blank_def)
  from acc_step_log [OF this, of "CStorage a k 0"] r u(1) z show ?thesis by (auto simp: setStorage_def bindE_def)
qed

lemma logs_setStorage [logs_intro]: "logs (setStorage pick a k w)"
proof (rule logsI)
  fix s r t assume ok: "st_ok s" and r: "setStorage pick a k w s = (r, t)"
  show "logged s t"
  proof (cases "view s a")
    case None
    note a = setStorage_absent [OF ok None r]
    have "blank\<lparr>v_stor := (\<lambda>_. 0)(k := 0)\<rparr> = blank" by (simp add: blank_def fun_eq_iff)
    then have "over (aundo (base s) (CStorage a k 0) ((view s)(a := Some (blank\<lparr>v_stor := (\<lambda>_. 0)(k := w)\<rparr>)), insert a (dirty s))) (world s)"
      using None by (auto simp: at_acc_def over_def world_def)
    with acc_step_logged [OF conjunct1 [OF a]] ok show ?thesis by simp
  next
    case (Some v)
    with setStorage_logged [OF ok _ r] show ?thesis by simp
  qed
qed

text \<open>
  \<open>clearStorage\<close> logs the root of the storage, and rolling back drops what has been written
  on top of the root. \<open>settled a s\<close>: nothing is lost at \<open>a\<close>, because the root is empty, where
  nothing is cleared, or what is written on top of it is what the root has. An account that
  is committed but not in the cache would be hidden by the entry that \<open>m_cache[a]\<close> makes.
\<close>

definition settled :: "address \<Rightarrow> State \<Rightarrow> bool" where
  "settled a s \<longleftrightarrow> (case om_find (m_cache s) a of
     None \<Rightarrow> base s a = None
   | Some x \<Rightarrow> m_storageRoot x = [] \<or> acc_stor x = lookup0 (m_storageRoot x))"

lemma clearStorage_logged:
  assumes ok: "st_ok s" and w: "settled a s" and r: "clearStorage a s = (r, t)"
  shows "logged s t"
proof (cases "om_find (m_cache s) a")
  case None
  then have b: "base s a = None" using w by (simp add: settled_def)
  have "m_storageRoot (cache_at a (upd_acc a (\<lambda>x. x) s)) = []"
    using None by (simp add: upd_acc_def cache_at_def dead_account_def)
  then have t: "t = upd_acc a (\<lambda>x. x) s" using r by (simp add: clearStorage_def)
  have "acc_step s t a blank []" unfolding t vw_dead [symmetric] 
    by (rule enter_blank [OF ok None b, where f = "\<lambda>x. x"]) (simp_all add: dead_entry)
  moreover have "view s a = None" using None b by (simp add: view_def)
  ultimately show ?thesis
    by (auto simp: logged_def acc_step_def over_def world_def intro!: exI [of _ "[]"])
next
  case (Some x)
  have i: "upd_acc a (\<lambda>x. x) s = s"
    using Some st_okD(1) [OF ok] by (simp add: upd_acc_def cache_at_def om_put_same)
  show ?thesis
  proof (cases "m_storageRoot x = []")
    case True
    then have "t = s" using r Some by (simp add: clearStorage_def i cache_at_def)
    with ok show ?thesis by (simp add: logged_refl)
  next
    case False
    let ?c = "CStorageRoot a (m_storageRoot x)"
    have t: "t = log_change ?c (upd_acc a acc_clearStorage s)"
      using r Some False by (simp add: clearStorage_def i cache_at_def)
    have v: "view s a = Some (vw x)" using Some by (simp add: view_def)
    have cs: "vw (acc_clearStorage x) = (vw x)\<lparr>v_stor := \<lambda>_. 0\<rparr>"
      by (simp add: vw_def acc_clearStorage_def changed_def acc_stor_def lookup0_def fun_eq_iff)
    have "acc_step s (upd_acc a acc_clearStorage s) a (vw (acc_clearStorage x)) []"
      using ok Some by (intro acc_step_upd) (simp_all add: acc_wf_def acc_clearStorage_def isDirty_def changed_def)
    from acc_step_log [OF this, of ?c] have k: "acc_step s t a ((vw x)\<lparr>v_stor := \<lambda>_. 0\<rparr>) [?c]" by (simp add: t cs)
    have "vw x = (vw x)\<lparr>v_stor := lookup0 (m_storageRoot x)\<rparr>"
      using w False Some by (simp add: settled_def vw_def)
    then have "over (aundo (base s) ?c ((view s)(a := Some ((vw x)\<lparr>v_stor := \<lambda>_. 0\<rparr>)), insert a (dirty s))) (world s)"
      using v by (simp add: at_acc_def fun_upd_idem over_world subset_insertI)
    then show ?thesis
      using acc_step_logged [OF k] st_okD(4) [OF ok Some] ok by (simp add: acc_wf_def)
  qed
qed

text \<open>
  The steps of an execution that started at the savepoint \<open>n\<close>. The choices the cache makes
  may differ from step to step, a step may throw, and a nested execution may roll back to a
  savepoint of its own. As in \<open>Executive\<close>, code is set on an account that has been modified,
  the one just created; \<open>createContract\<close> is called for an unused address, and \<open>clearStorage\<close>
  for an address whose storage is \<open>settled\<close>.
\<close>

inductive st_step :: "nat \<Rightarrow> State \<Rightarrow> State \<Rightarrow> bool" for n where
  add: "addBalance pick a v s = (r, t) \<Longrightarrow> st_step n s t"
| sub: "subBalance pick a v s = (r, t) \<Longrightarrow> st_step n s t"
| transfer: "transferBalance pick a b v s = (r, t) \<Longrightarrow> st_step n s t"
| inc: "incNonce pick a s = (r, t) \<Longrightarrow> st_step n s t"
| nonce: "setNonce pick a v s = (r, t) \<Longrightarrow> st_step n s t"
| store: "setStorage pick a k v s = (r, t) \<Longrightarrow> st_step n s t"
| clear: "clearStorage a s = (r, t) \<Longrightarrow> settled a s \<Longrightarrow> st_step n s t"
| create: "createContract a s = (r, t) \<Longrightarrow> view s a = None \<Longrightarrow> st_step n s t"
| setcode: "setCode pick a c s = (r, t) \<Longrightarrow> a \<in> dirty s \<Longrightarrow> st_step n s t"
| in_use: "addressInUse pick a s = (rb, t) \<Longrightarrow> st_step n s t"
| has_code: "addressHasCode pick a s = (rb, t) \<Longrightarrow> st_step n s t"
| balance: "balance pick a s = (r', t) \<Longrightarrow> st_step n s t"
| get_nonce: "getNonce pick a s = (r', t) \<Longrightarrow> st_step n s t"
| load: "storage pick a k s = (r', t) \<Longrightarrow> st_step n s t"
| code: "code pick a s = (r'', t) \<Longrightarrow> st_step n s t"
| code_hash: "codeHash pick a s = (r'', t) \<Longrightarrow> st_step n s t"
| revert: "rollback m s = (r, t) \<Longrightarrow> n \<le> m \<Longrightarrow> m \<le> savepoint s \<Longrightarrow> st_step n s t"

lemma st_step_track:
  assumes "st_track b s" "st_step (savepoint b) s t"
  shows "st_track b t"
  using assms(2)
proof cases
  case (revert m r)
  then obtain u where "rollback m s = (Inr (), u)" "logged b u"
    using rollback_logged [of b s m] assms(1) by (auto simp: st_track_def)
  with revert(1) assms(1) show ?thesis by (simp add: st_track_def)
next
  case clear
  with assms(1) clearStorage_logged show ?thesis by (metis st_track_logged st_track_def logged_ok)
next
  case create
  with assms(1) createContract_logged show ?thesis by (metis st_track_logged st_track_def logged_ok)
next
  case setcode
  with assms(1) setCode_logged show ?thesis by (metis st_track_logged st_track_def logged_ok)
qed (rule keepsD [OF logs_keeps assms(1)]; (assumption | rule logs_intro))+


text \<open>What is lost otherwise: storage written since the last commit, when it is cleared and rolled back.\<close>

lemma clear_rollback_drops:
  assumes ok: "st_ok s" and x: "om_find (m_cache s) a = Some x" "m_storageRoot x \<noteq> []"
    and r: "clearStorage a s = (r, t)"
  shows "\<exists>u. rollback (savepoint s) t = (Inr (), u) \<and> stor u a = lookup0 (m_storageRoot x)"
proof -
  have i: "upd_acc a (\<lambda>x. x) s = s"
    using x st_okD(1) [OF ok] by (simp add: upd_acc_def cache_at_def om_put_same)
  let ?c = "CStorageRoot a (m_storageRoot x)"
  have t: "t = log_change ?c (upd_acc a acc_clearStorage s)"
    using r x by (simp add: clearStorage_def i cache_at_def)
  let ?u = "(undo_change ?c t)\<lparr>m_changeLog := m_changeLog s\<rparr>"
  have "rollback (savepoint s) t = (Inr (), ?u)"
    by (simp add: rollback_def t savepoint_def upd_acc_def log_change_def)
  moreover have "om_find (m_cache ?u) a = Some (acc_setStorageRoot (m_storageRoot x) (acc_clearStorage x))"
    using x by (simp add: t upd_acc_def cache_at_def)
  then have "stor ?u a = lookup0 (m_storageRoot x)"
    by (simp add: stor_def view_def fun_eq_iff acc_stor_def acc_setStorageRoot_def changed_def)
  ultimately show ?thesis by blast
qed

definition wit_state :: State where
  "wit_state = \<lparr>m_state = [(1, \<lparr>st_nonce = 4, st_balance = 10, st_root = [(7, 70)], st_codeHash = [9]\<rparr>)],
     m_cache = [], m_unchangedCacheEntries = [], m_nonExistingAccountsCache = [], m_touched = [], m_accountStartNonce = 0,
     m_changeLog = []\<rparr>"

lemma wit_state_ok: "st_ok wit_state"
  by (auto simp: st_ok_def wit_state_def dirty_def view_def om_wf_def om_find_def split: if_splits)

text \<open>A transfer that creates an account, a storage write, one where no account is, and a clearing.\<close>

definition wit_run :: State where
  "wit_run = snd (clearStorage 2 (snd (setStorage (\<lambda>_. 0) 5 1 3
     (snd (setStorage (\<lambda>_. 0) 1 7 71 (snd (transferBalance (\<lambda>_. 0) 1 2 6 wit_state)))))))"

lemma wit_run_steps: "(st_step (savepoint wit_state))\<^sup>*\<^sup>* wit_state wit_run"
proof -
  let ?s = "snd (transferBalance (\<lambda>_. 0) 1 2 6 wit_state)"
  let ?t = "snd (setStorage (\<lambda>_. 0) 1 7 71 ?s)"
  let ?u = "snd (setStorage (\<lambda>_. 0) 5 1 3 ?t)"
  let ?r = "st_step (savepoint wit_state)"
  have 1: "?r wit_state ?s" by (rule st_step.transfer [OF prod.collapse [symmetric]])
  have 2: "?r ?s ?t" "?r ?t ?u" by (rule st_step.store [OF prod.collapse [symmetric]])+
  have "map_option m_storageRoot (om_find (m_cache ?u) 2) = Some []" by code_simp
  then have "settled 2 ?u" by (auto simp: settled_def)
  then have 3: "?r ?u wit_run" unfolding wit_run_def by (rule st_step.clear [OF prod.collapse [symmetric]])
  from 1 2 3 show ?thesis by (meson rtranclp.rtrancl_into_rtrancl rtranclp.rtrancl_refl)
qed


end
