(* ===== verification/StateCommit.thy ===== *)
theory StateCommit
  imports StateRollback
begin

text \<open>
  Committing the account state, by one thread and by four: what the committed state shows,
  and what happens to an account that was only written through \<open>m_cache[...]\<close>.
\<close>

section \<open>Commit\<close>

lemma find_store_root:
  "om_wf ov \<Longrightarrow> om_find (foldl (\<lambda>r (k, v). if v \<noteq> 0 then om_put k v r else om_erase k r) r ov) k =
     (case om_find ov k of Some v \<Rightarrow> if v = 0 then None else Some v | None \<Rightarrow> om_find r k)"
proof (induction ov arbitrary: r)
  case (Cons e ov)
  obtain j v where e: "e = (j, v)" by fastforce
  have "om_find ov j = None" using Cons.prems by (auto simp: e om_wf_Cons om_find_None)
  with Cons e show ?case by (auto simp: om_wf_Cons om_find_Cons split: option.split)
qed simp

lemma wf_store_root:
  "om_wf r \<Longrightarrow> om_wf (foldl (\<lambda>r (k, v). if v \<noteq> 0 then om_put k v r else om_erase k r) r ov)"
  by (induction ov arbitrary: r) (auto split: prod.split)

lemma vw_store_account:
  assumes "acc_wf x" "m_isAlive x"
  shows "vw (load_account (store_account x)) = vw x"
  using assms find_store_root [of "m_storageOverlay x" "m_storageRoot x"]
  by (auto simp: vw_def load_account_def store_account_def dead_account_def acc_stor_def lookup0_def acc_wf_def
    fun_eq_iff split: option.split)

lemma find_commit_cache:
  "om_wf c \<Longrightarrow> om_find (commit_cache c st) a =
     (case om_find c a of
        Some x \<Rightarrow> if isDirty x then (if m_isAlive x then Some (store_account x) else None) else om_find st a
      | None \<Rightarrow> om_find st a)"
proof (induction c arbitrary: st)
  case (Cons e c)
  obtain j x where e: "e = (j, x)" by fastforce
  have "om_find c j = None" using Cons.prems by (auto simp: e om_wf_Cons om_find_None)
  with Cons e show ?case by (auto simp: commit_cache_def om_wf_Cons om_find_Cons split: option.split)
qed (simp add: commit_cache_def)

lemma wf_commit_cache: "om_wf st \<Longrightarrow> om_wf (commit_cache c st)"
  by (induction c arbitrary: st) (auto simp: commit_cache_def split: prod.split)

text \<open>Entries of the cache after \<open>removeEmptyAccounts\<close>, if it is called.\<close>

definition reap :: "bool \<Rightarrow> Account \<Rightarrow> Account" where
  "reap e x = (if e \<and> isDirty x \<and> acc_isEmpty x then acc_kill x else x)"

definition reaped :: "bool \<Rightarrow> State \<Rightarrow> (address, Account) omap" where
  "reaped e s = map (\<lambda>(a, x). (a, reap e x)) (m_cache s)"

lemma om_find_map: "om_find (map (\<lambda>(a, x). (a, f x)) m) k = map_option f (om_find m k)"
  by (induction m) (auto simp: om_find_Cons)

lemma om_wf_map: "om_wf (map (\<lambda>(a, x). (a, f x)) m) = om_wf m"
  by (simp add: om_wf_def o_def case_prod_beta)

lemma wf_reaped: "st_ok s \<Longrightarrow> om_wf (reaped e s)"
  using st_okD(1) by (simp add: reaped_def om_wf_map)


section \<open>The commit with several threads\<close>

text \<open>The branches of the root node that are not empty.\<close>

definition occupied :: "(address \<Rightarrow> h256) \<Rightarrow> accounts \<Rightarrow> nat" where
  "occupied sha3 st = card (nibble sha3 ` fst ` set st)"

definition branches :: "(address \<Rightarrow> h256) \<Rightarrow> accounts \<Rightarrow> accounts list" where
  "branches sha3 st = map (\<lambda>i. filter (\<lambda>(a, _). nibble sha3 a = i) st) [0..<16]"

lemma nibble_less: "nibble sha3 a < 16"
proof -
  have "unat (drop_bit 252 (sha3 a)) = unat (sha3 a) div 2 ^ 252"
    by (subst unat_drop_bit_eq) (simp only: drop_bit_eq_div)
  also have "\<dots> < 16"
    using unsigned_less [of "sha3 a", where ?'a = nat] by (simp add: less_mult_imp_div_less)
  finally show ?thesis by (simp add: nibble_def)
qed

lemma prepare_branches:
  "prepareForMultiThread sha3 st =
     (if occupied sha3 st \<le> 1 then Some [] else if occupied sha3 st = 16 then Some (branches sha3 st) else None)"
proof -
  have "{i. i < 16 \<and> branches sha3 st ! i \<noteq> []} = nibble sha3 ` fst ` set st"
    using nibble_less by (auto simp: branches_def filter_empty_conv image_iff) (metis fst_conv)
  moreover have "length (branches sha3 st) = 16" by (simp add: branches_def)
  ultimately have "length (filter (\<lambda>b. b \<noteq> []) (branches sha3 st)) = occupied sha3 st"
    unfolding length_filter_conv_card occupied_def by simp
  then show ?thesis by (simp add: prepareForMultiThread_def branches_def [symmetric] Let_def)
qed

definition branched :: "(address \<Rightarrow> h256) \<Rightarrow> accounts list \<Rightarrow> bool" where
  "branched sha3 rc \<longleftrightarrow> length rc = 16 \<and>
     (\<forall>i < 16. om_wf (rc ! i) \<and> (\<forall>a \<in> fst ` set (rc ! i). nibble sha3 a = i))"

lemma branched_branches: "om_wf st \<Longrightarrow> branched sha3 (branches sha3 st)"
  by (auto simp: branched_def branches_def om_wf_filter)

lemma find_branches: "om_wf st \<Longrightarrow> om_find (branches sha3 st ! nibble sha3 a) a = om_find st a"
  using nibble_less [of sha3 a] by (simp add: branches_def om_find_filter split: option.split)

lemma branched_put:
  assumes "branched sha3 rc"
  shows "branched sha3 (rc[nibble sha3 a := om_put a v (rc ! nibble sha3 a)])"
  unfolding branched_def
proof (intro conjI allI impI)
  fix i :: nat assume i: "i < 16"
  with assms have o: "om_wf (rc ! i)" "\<forall>a \<in> fst ` set (rc ! i). nibble sha3 a = i" and l: "length rc = 16"
    by (simp_all add: branched_def)
  let ?x = "rc[nibble sha3 a := om_put a v (rc ! nibble sha3 a)] ! i"
  have "om_wf (rc ! nibble sha3 a)" using assms nibble_less [of sha3 a] by (simp add: branched_def)
  then show "om_wf ?x" using o i l nibble_less [of sha3 a] by (simp add: nth_list_update)
  show "\<forall>b \<in> fst ` set ?x. nibble sha3 b = i"
    using o(2) i l by (cases "nibble sha3 a = i") (simp_all add: om_keys_put)
qed (use assms in \<open>simp add: branched_def\<close>)

text \<open>What an entry of the cache leaves in the branch of its address.\<close>

definition entry_put :: "Account option \<Rightarrow> stored_account option \<Rightarrow> stored_account option" where
  "entry_put e old = (case e of Some x \<Rightarrow> if isDirty x \<and> m_isAlive x then Some (store_account x) else old | None \<Rightarrow> old)"

lemma entry_run:
  assumes b: "branched sha3 (m_rootCache t)"
  shows "\<exists>u. commitEx_entry sha3 (a, x) t = (Inr (), u) \<and> branched sha3 (m_rootCache u) \<and>
    (\<forall>c. om_find (m_rootCache u ! nibble sha3 c) c =
       (if c = a then entry_put (Some x) (om_find (m_rootCache t ! nibble sha3 c) c)
        else om_find (m_rootCache t ! nibble sha3 c) c))"
proof (cases "isDirty x \<and> m_isAlive x")
  case True
  let ?i = "nibble sha3 a"
  let ?rc = "(m_rootCache t)[?i := om_put a (store_account x) (m_rootCache t ! ?i)]"
  have l: "length (m_rootCache t) = 16" using b by (simp add: branched_def)
  have "commitEx_entry sha3 (a, x) t = (Inr (), t\<lparr>m_rootCache := ?rc\<rparr>)"
    using True nibble_less [of sha3 a] l by (simp add: commitEx_entry_def insertAtBranch_def Let_def)
  moreover have "om_find (?rc ! nibble sha3 c) c =
      (if c = a then Some (store_account x) else om_find (m_rootCache t ! nibble sha3 c) c)" for c
    using nibble_less [of sha3 a] l by (simp add: nth_list_update)
  ultimately show ?thesis using branched_put [OF b] True by (simp add: entry_put_def)
next
  case False
  then have "\<exists>u. commitEx_entry sha3 (a, x) t = (Inr (), u) \<and> m_rootCache u = m_rootCache t"
    by (auto simp: commitEx_entry_def)
  with b False show ?thesis by (auto simp: entry_put_def)
qed

lemma entries_run:
  assumes "branched sha3 (m_rootCache t)" "distinct (map fst es)"
  shows "\<exists>u. forE es (commitEx_entry sha3) t = (Inr (), u) \<and> branched sha3 (m_rootCache u) \<and>
    (\<forall>c. om_find (m_rootCache u ! nibble sha3 c) c =
       entry_put (map_of es c) (om_find (m_rootCache t ! nibble sha3 c) c))"
  using assms
proof (induction es arbitrary: t)
  case Nil
  then show ?case by (simp add: entry_put_def)
next
  case (Cons e es)
  obtain a x where e: "e = (a, x)" by fastforce
  from entry_run [OF Cons.prems(1), of a x] obtain u where
    u: "commitEx_entry sha3 (a, x) t = (Inr (), u)" "branched sha3 (m_rootCache u)"
      "\<And>c. om_find (m_rootCache u ! nibble sha3 c) c =
       (if c = a then entry_put (Some x) (om_find (m_rootCache t ! nibble sha3 c) c)
        else om_find (m_rootCache t ! nibble sha3 c) c)" by blast
  from Cons.IH [OF u(2)] Cons.prems(2) obtain w where
    w: "forE es (commitEx_entry sha3) u = (Inr (), w)" "branched sha3 (m_rootCache w)"
      "\<And>c. om_find (m_rootCache w ! nibble sha3 c) c = entry_put (map_of es c) (om_find (m_rootCache u ! nibble sha3 c) c)"
    by auto
  have "map_of es a = None" using Cons.prems(2) by (simp add: e map_of_eq_None_iff)
  then have "om_find (m_rootCache w ! nibble sha3 c) c =
      entry_put (map_of (e # es) c) (om_find (m_rootCache t ! nibble sha3 c) c)" for c
    unfolding w(3) u(3) by (simp add: e entry_put_def)
  moreover have "forE (e # es) (commitEx_entry sha3) t = (Inr (), w)"
    using u(1) w(1) by (simp add: e thenE_def bindE_def)
  ultimately show ?case using w(2) by blast
qed

lemma find_foldl_put:
  assumes "\<And>v. (a, v) \<in> set l \<Longrightarrow> v = w"
  shows "om_find (foldl (\<lambda>m (a, v). om_put a v m) m l) a = (if a \<in> fst ` set l then Some w else om_find m a)"
  using assms
proof (induction l arbitrary: m)
  case (Cons e l)
  obtain b v where e: "e = (b, v)" by fastforce
  have "om_find (foldl (\<lambda>m (a, v). om_put a v m) (om_put b v m) l) a =
      (if a \<in> fst ` set l then Some w else om_find (om_put b v m) a)"
    using Cons.prems by (intro Cons.IH) simp
  moreover have "a = b \<Longrightarrow> v = w" using Cons.prems [of v] by (simp add: e)
  ultimately show ?case by (auto simp: e)
qed simp

lemma wf_foldl_put: "om_wf m \<Longrightarrow> om_wf (foldl (\<lambda>m (a, v). om_put a v m) m l)"
  by (induction l arbitrary: m) (auto split: prod.split)

lemma finish_run:
  assumes b: "branched sha3 (m_rootCache t)"
  shows "\<exists>u. finishMultiThread t = (Inr (), u) \<and> om_wf (m_root u) \<and>
    (\<forall>a. om_find (m_root u) a = om_find (m_rootCache t ! nibble sha3 a) a)"
proof -
  let ?rc = "m_rootCache t"
  let ?r = "foldl (\<lambda>m (a, v). om_put a v m) [] (concat ?rc)"
  have l: "length ?rc = 16" using b by (simp add: branched_def)
  have i: "(a, v) \<in> set (concat ?rc) \<longleftrightarrow> om_find (?rc ! nibble sha3 a) a = Some v" for a v
  proof
    assume "(a, v) \<in> set (concat ?rc)"
    then obtain i where i: "i < 16" "(a, v) \<in> set (?rc ! i)" using l by (auto simp: set_conv_nth [of ?rc])
    then have "nibble sha3 a = i" "om_wf (?rc ! i)" using b by (force simp: branched_def)+
    with i show "om_find (?rc ! nibble sha3 a) a = Some v" by (simp add: om_find_in_set)
  next
    assume "om_find (?rc ! nibble sha3 a) a = Some v"
    then have "(a, v) \<in> set (?rc ! nibble sha3 a)" by (rule om_find_SomeD)
    then show "(a, v) \<in> set (concat ?rc)" using nibble_less [of sha3 a] l by (auto intro!: bexI [OF _ nth_mem])
  qed
  have "om_find ?r a = om_find (?rc ! nibble sha3 a) a" for a
  proof (cases "om_find (?rc ! nibble sha3 a) a")
    case None
    then have "a \<notin> fst ` set (concat ?rc)" using i [of a] by force
    with None find_foldl_put [of a "concat ?rc" _ "[]"] i [of a] show ?thesis by simp
  next
    case (Some w)
    then have "a \<in> fst ` set (concat ?rc)" using i [of a w] by force
    with Some find_foldl_put [of a "concat ?rc" w "[]"] i [of a] show ?thesis by simp
  qed
  then show ?thesis using l wf_foldl_put [of "[]"] by (simp add: finishMultiThread_def)
qed

lemma mset_parts:
  "distinct is \<Longrightarrow> mset (concat (map (\<lambda>i. filter (\<lambda>x. g x = i) xs) is)) = filter_mset (\<lambda>x. g x \<in> set is) (mset xs)"
proof (induction "is")
  case (Cons i "is")
  then have "mset (concat (map (\<lambda>i. filter (\<lambda>x. g x = i) xs) (i # is))) =
      filter_mset (\<lambda>x. g x = i) (mset xs) + filter_mset (\<lambda>x. g x \<in> set is) (mset xs)" by simp
  also have "\<dots> = filter_mset (\<lambda>x. g x \<in> set (i # is)) (mset xs)"
    using Cons.prems by (intro multiset_eqI) auto
  finally show ?case .
qed simp

lemma concat_by_nibble: "mset (concat (cacheBySha3 sha3 c)) = mset c"
proof -
  have "cacheBySha3 sha3 c = map (\<lambda>i. filter (\<lambda>e. nibble sha3 (fst e) = i) c) [0..<16]"
    by (simp add: cacheBySha3_def case_prod_unfold)
  then have "mset (concat (cacheBySha3 sha3 c)) = filter_mset (\<lambda>e. nibble sha3 (fst e) \<in> set [0..<16]) (mset c)"
    using mset_parts [of "[0..<16]" "\<lambda>e. nibble sha3 (fst e)" c] by simp
  then show ?thesis using nibble_less by (simp add: filter_mset_True)
qed

text \<open>Every entry of the cache is come to once.\<close>

abbreviation fair :: "order \<Rightarrow> bool" where
  "fair order \<equiv> \<forall>xss. mset (order xss) = mset (concat xss)"

lemma commitEx_run:
  assumes "om_wf c" "om_wf st" "fair order"
  shows "\<exists>u. commitEx sha3 order c \<lparr>m_root = st, m_rootCache = branches sha3 st\<rparr> = (Inr (), u) \<and> om_wf (m_root u) \<and>
    (\<forall>a. om_find (m_root u) a = entry_put (om_find c a) (om_find st a))"
proof -
  let ?es = "order (cacheBySha3 sha3 c)"
  have m: "mset ?es = mset c" using assms(3) concat_by_nibble by metis
  have d: "distinct (map fst ?es)"
    using om_wf_distinct [OF assms(1)] m by (metis mset_eq_imp_distinct_iff mset_map)
  have mo: "map_of ?es = om_find c"
    using d om_wf_distinct [OF assms(1)] mset_eq_setD [OF m] unfolding om_find_def [abs_def]
    by (simp add: map_of_inject_set)
  from entries_run [of sha3 "\<lparr>m_root = st, m_rootCache = branches sha3 st\<rparr>", OF _ d] branched_branches [OF assms(2)]
  obtain t where t: "forE ?es (commitEx_entry sha3) \<lparr>m_root = st, m_rootCache = branches sha3 st\<rparr> = (Inr (), t)"
    "branched sha3 (m_rootCache t)"
    "\<And>a. om_find (m_rootCache t ! nibble sha3 a) a = entry_put (om_find c a) (om_find st a)"
    by (auto simp: mo find_branches [OF assms(2)])
  from finish_run [OF t(2)] t(1,3) show ?thesis by (auto simp: commitEx_def thenE_def bindE_def)
qed

lemma commitEx_empty: "fst (commitEx sha3 order c \<lparr>m_root = st, m_rootCache = []\<rparr>) = Inl Undefined"
proof -
  have "fst (forE es (commitEx_entry sha3) t) = Inl Undefined \<or>
      (\<exists>u. forE es (commitEx_entry sha3) t = (Inr (), u) \<and> m_rootCache u = [])"
    if "m_rootCache t = []" for es t
    using that
  proof (induction es arbitrary: t)
    case (Cons e es)
    obtain a x where e: "e = (a, x)" by fastforce
    have "fst (commitEx_entry sha3 e t) = Inl Undefined \<or>
        (\<exists>u. commitEx_entry sha3 e t = (Inr (), u) \<and> m_rootCache u = [])"
      using Cons.prems by (simp add: e commitEx_entry_def insertAtBranch_def Let_def)
    then show ?case
    proof
      assume "fst (commitEx_entry sha3 e t) = Inl Undefined"
      then show ?thesis by (cases "commitEx_entry sha3 e t") (simp add: thenE_def bindE_def)
    next
      assume "\<exists>u. commitEx_entry sha3 e t = (Inr (), u) \<and> m_rootCache u = []"
      then obtain u where "commitEx_entry sha3 e t = (Inr (), u)" "m_rootCache u = []" by blast
      with Cons.IH [of u] show ?thesis by (simp add: thenE_def bindE_def)
    qed
  qed simp
  from this [of "\<lparr>m_root = st, m_rootCache = []\<rparr>" "order (cacheBySha3 sha3 c)"] show ?thesis
    by (cases "forE (order (cacheBySha3 sha3 c)) (commitEx_entry sha3) \<lparr>m_root = st, m_rootCache = []\<rparr>")
      (auto simp: commitEx_def thenE_def bindE_def finishMultiThread_def)
qed


section \<open>What a commit shows\<close>

text \<open>
  When the threads are started, and when they find no branches to work on. A removal by
  the threads is lost, since the root is put together again from the branches.
\<close>

definition many_threads :: "(address \<Rightarrow> h256) \<Rightarrow> State \<Rightarrow> bool" where
  "many_threads sha3 s \<longleftrightarrow> 1000 < length (m_cache s) \<and> occupied sha3 (m_state s) = 16"

definition no_branches :: "(address \<Rightarrow> h256) \<Rightarrow> State \<Rightarrow> bool" where
  "no_branches sha3 s \<longleftrightarrow> 1000 < length (m_cache s) \<and> occupied sha3 (m_state s) \<le> 1"

definition committed :: "bool \<Rightarrow> bool \<Rightarrow> State \<Rightarrow> address \<Rightarrow> aview option" where
  "committed par e s a = (case view s a of
     None \<Rightarrow> None
   | Some v \<Rightarrow> if v_alive v \<and> \<not> (e \<and> a \<in> dirty s \<and> v_empty v) then Some v
               else if par then base s a else None)"

definition stored :: "bool \<Rightarrow> bool \<Rightarrow> State \<Rightarrow> address \<Rightarrow> stored_account option" where
  "stored par e s a = (case om_find (m_cache s) a of
      Some x \<Rightarrow> if isDirty x
                then (if m_isAlive x \<and> \<not> (e \<and> acc_isEmpty x) then Some (store_account x)
                      else if par then om_find (m_state s) a else None)
                else om_find (m_state s) a
    | None \<Rightarrow> om_find (m_state s) a)"

lemma reap_sel: "isDirty (reap e x) = isDirty x" "m_isAlive (reap e x) \<longleftrightarrow> m_isAlive x \<and> \<not> (e \<and> isDirty x \<and> acc_isEmpty x)"
  "m_isAlive (reap e x) \<Longrightarrow> reap e x = x"
  by (auto simp: reap_def acc_kill_def isDirty_def changed_def)

lemma commit_state_run:
  assumes ok: "st_ok s" and f: "fair order"
  shows "case commit_state sha3 order (reaped e s) (m_state s) of
     Inl x \<Rightarrow> no_branches sha3 s \<and> x = Undefined
   | Inr r \<Rightarrow> \<not> no_branches sha3 s \<and> om_wf r \<and> (\<forall>a. om_find r a = stored (many_threads sha3 s) e s a)"
proof -
  note w = wf_reaped [OF ok, of e] st_okD(2) [OF ok]
  have l: "length (reaped e s) = length (m_cache s)" by (simp add: reaped_def)
  have fr: "om_find (reaped e s) a = map_option (reap e) (om_find (m_cache s) a)" for a
    by (simp add: reaped_def om_find_map)
  consider (none) "no_branches sha3 s" | (all) "many_threads sha3 s" "\<not> no_branches sha3 s"
    | (one) "\<not> many_threads sha3 s" "\<not> no_branches sha3 s" by blast
  then show ?thesis
  proof cases
    case none
    with commitEx_empty [of sha3 order "reaped e s" "m_state s"] show ?thesis
      by (simp add: commit_state_def prepare_branches l no_branches_def)
  next
    case all
    from commitEx_run [OF w f, of sha3] obtain u where
      u: "commitEx sha3 order (reaped e s) \<lparr>m_root = m_state s, m_rootCache = branches sha3 (m_state s)\<rparr> = (Inr (), u)"
        "om_wf (m_root u)" "\<And>a. om_find (m_root u) a = entry_put (om_find (reaped e s) a) (om_find (m_state s) a)" by blast
    have "om_find (m_root u) a = stored True e s a" for a
      unfolding u(3) fr by (auto simp: entry_put_def stored_def reap_sel split: option.split dest: reap_sel(3))
    with all u(1,2) show ?thesis
      by (simp add: commit_state_def prepare_branches l many_threads_def)
  next
    case one
    have "om_find (commit_cache (reaped e s) (m_state s)) a = stored False e s a" for a
      unfolding find_commit_cache [OF w(1)] fr
      by (auto simp: stored_def reap_sel split: option.split dest: reap_sel(3))
    with one wf_commit_cache [OF w(2), of "reaped e s"] show ?thesis
      by (auto simp: commit_state_def prepare_branches l many_threads_def no_branches_def)
  qed
qed

lemma v_empty_vw: "v_empty (vw x) = acc_isEmpty x"
  by (auto simp: v_empty_def acc_isEmpty_def)

lemma vw_load_alive: "v_alive (vw (load_account st))"
  by (simp add: load_account_def)

lemma base_stored:
  assumes ok: "st_ok s"
  shows "map_option (vw \<circ> load_account) (stored par e s a) = committed par e s a"
proof (cases "om_find (m_cache s) a")
  case None
  then have "a \<notin> dirty s" by (simp add: dirty_def)
  with None show ?thesis
    by (auto simp: base_def stored_def committed_def view_def vw_load_alive simp del: vw_sel split: option.split)
next
  case (Some x)
  show ?thesis
  proof (cases "isDirty x")
    case True
    then have "a \<in> dirty s" using Some by (auto simp: dirty_def)
    with Some True vw_store_account [OF st_okD(4) [OF ok Some]] show ?thesis
      by (auto simp: base_def stored_def committed_def view_def v_empty_vw)
  next
    case False
    then have d: "a \<notin> dirty s" using Some by (auto simp: dirty_def)
    have "view s a = base s a" by (rule st_okD(6) [OF ok d])
    with d Some False show ?thesis
      by (cases "om_find (m_state s) a") (auto simp: stored_def committed_def base_def vw_load_alive simp del: vw_sel)
  qed
qed

lemma commit_ok:
  assumes ok: "st_ok s" and t: "m_cache t = []" "m_nonExistingAccountsCache t = m_nonExistingAccountsCache s"
    and r: "om_wf (m_state t)" "\<And>a. om_find (m_state t) a = stored par e s a"
  shows "st_ok t" "view t = committed par e s"
proof -
  have b: "base t a = committed par e s a" for a using base_stored [OF ok, of par e a] by (simp add: base_def r(2))
  have v: "view t a = base t a" for a by (simp add: view_def t(1))
  then show w: "view t = committed par e s" using b by (simp add: fun_eq_iff)
  have "om_find (m_state t) a = None \<and> \<not> alive t a" if "a \<in> set (m_nonExistingAccountsCache s)" for a
  proof -
    have "\<not> alive s a" "base s a = None" using st_okD(3) [OF ok that] by (simp_all add: base_def)
    then have n: "view t a = None" unfolding w by (auto simp: committed_def alive_def split: option.splits)
    with v [of a] show ?thesis by (auto simp: alive_def base_def)
  qed
  moreover have "om_wf (st_root st)" if "om_find (m_state t) a = Some st" for a st
    using that st_okD(4,5) [OF ok, of a] unfolding r(2)
    by (auto simp: stored_def store_account_def acc_wf_def wf_store_root split: option.splits if_splits)
  ultimately show "st_ok t" using v r(1) t unfolding st_ok_def by auto
qed

lemma commit_run:
  assumes ok: "st_ok s" and f: "fair order" and r: "State_commit sha3 order e s = (r, t)"
  shows "if no_branches sha3 s then r = Inl Undefined
    else r = Inr () \<and> st_ok t \<and> savepoint t = 0 \<and> view t = committed (many_threads sha3 s) e s"
proof -
  define s' where "s' = (if e then removeEmptyAccounts s else s)"
  have s': "m_cache s' = reaped e s" "m_state s' = m_state s" "m_nonExistingAccountsCache s' = m_nonExistingAccountsCache s"
    by (auto simp: s'_def removeEmptyAccounts_def reaped_def reap_def case_prod_unfold)
  have d: "State_commit sha3 order e s = bindE (getE (\<lambda>s. commit_state sha3 order (m_cache s) (m_state s))) (\<lambda>res. case res of
       Inl e \<Rightarrow> throw e
     | Inr st \<Rightarrow> updE (\<lambda>s. s\<lparr>m_state := st,
           m_touched := foldl (\<lambda>ts (a, x). if isDirty x then os_insert a ts else ts) (m_touched s) (m_cache s),
           m_changeLog := [], m_cache := [], m_unchangedCacheEntries := []\<rparr>)) s'"
    by (simp add: State_commit_def s'_def thenE_def bindE_def)
  note c = commit_state_run [OF ok f, of sha3 e]
  show ?thesis
  proof (cases "commit_state sha3 order (reaped e s) (m_state s)")
    case (Inl x)
    with c r d show ?thesis by (simp add: bindE_def s')
  next
    case (Inr m)
    with c have m: "\<not> no_branches sha3 s" "om_wf m" "\<And>a. om_find m a = stored (many_threads sha3 s) e s a" by simp_all
    have t: "r = Inr ()" "m_state t = m" "m_cache t = []" "m_changeLog t = []"
      "m_nonExistingAccountsCache t = m_nonExistingAccountsCache s"
      using r d Inr s'(3) by (auto simp: bindE_def s'(1,2))
    with m commit_ok [OF ok t(3,5)] show ?thesis by (simp add: savepoint_def)
  qed
qed


lemma wit_run_ok: "st_ok wit_run"
proof -
  have "st_track wit_state wit_run" using wit_run_steps
    by (induction rule: rtranclp_induct) (auto intro: st_track_refl wit_state_ok st_step_track)
  then show ?thesis unfolding st_track_def by (blast intro: logged_ok)
qed



section \<open>Storage of an account that does not exist\<close>

text \<open>
  C37. Writing storage at an address without an account leaves a dead account in the cache:
  money sent there afterwards is accepted and lost when the state is committed, however
  many threads do it.
\<close>

theorem storage_then_balance_lost:
  assumes "st_ok s" "view s a = None" "setStorage pick a k w s = (r, t)" "addBalance pick' a n t = (r', u)"
    "\<forall>xss. mset (order xss) = mset (concat xss)" "State_commit sha3 order e u = (Inr (), c)"
  shows "r' = Inr () \<and> bal u a = n + bal t a \<and> view c a = None"
proof -
  define v where "v = blank\<lparr>v_stor := (\<lambda>_. 0)(k := w)\<rparr>"
  have a: "acc_step s t a v [CStorage a k 0]" using setStorage_absent [OF assms(1-3)] by (simp add: v_def)
  then have t: "st_ok t" "view t a = Some v" "\<not> v_alive v" by (simp_all add: acc_step_def v_def blank_def)
  obtain x cs where x: "addBalance pick' a n t = (Inr (), x)" "acc_step t x a (v\<lparr>v_balance := v_balance v + n\<rparr>) cs"
    by (rule addBalance_run [OF t(1,2), of pick' n])
  with assms(4) have u: "r' = Inr ()" "acc_step t u a (v\<lparr>v_balance := v_balance v + n\<rparr>) cs" by simp_all
  then have uo: "st_ok u" "view u a = Some (v\<lparr>v_balance := v_balance v + n\<rparr>)" by (simp_all add: acc_step_def)
  have "base u a = None" using a u(2) absent_base [OF assms(2)] base_cong [of u s] by (simp add: acc_step_def)
  with uo commit_run [OF uo(1) assms(5,6)] t u(1) show ?thesis
    by (auto simp: bal_def committed_def add.commute split: if_splits)
qed

theorem storage_then_balance_lost_witness:
  "let t = snd (setStorage (\<lambda>_. 0) 5 1 2 wit_state); u = snd (addBalance (\<lambda>_. 0) 5 100 t);
       c = State_commit (\<lambda>a. push_bit 252 (ucast a)) concat False u
   in bal u 5 = 100 \<and> fst c = Inr () \<and> view (snd c) 5 = None"
proof -
  let ?t = "snd (setStorage (\<lambda>_. 0) 5 1 2 wit_state)"
  let ?u = "snd (addBalance (\<lambda>_. 0) 5 100 ?t)"
  let ?c = "State_commit (\<lambda>a. push_bit 252 (ucast a)) concat False ?u"
  have n: "view wit_state 5 = None" by (simp add: view_def base_def wit_state_def om_find_def)
  have c: "fst ?c = Inr ()" by code_simp
  then have "?c = (Inr (), snd ?c)" by (metis prod.collapse)
  from storage_then_balance_lost [OF wit_state_ok n prod.collapse [symmetric] prod.collapse [symmetric] _ this]
  have "bal ?u 5 = 100 + bal ?t 5" "view (snd ?c) 5 = None" by simp_all
  moreover have "bal ?t 5 = 0" by code_simp
  ultimately show ?thesis using c by (simp add: Let_def)
qed

end
