(* ===== verification/Paging.thy ===== *)
theory Paging
  imports StateCommit
begin

text \<open>
  Byte strings kept in 32-byte storage cells (\<open>UserStorage\<close> of \<open>libethereum/Vote.cpp\<close>):
  the loops that load and save the pages, over an interface of storage cells, and the
  account state as a provider of that interface.
\<close>

section \<open>The loops\<close>

text \<open>\<open>(size + 31) / 32\<close> pages; the last one may be partly used.\<close>

definition page_num :: "nat \<Rightarrow> nat" where
  "page_num sz = (sz + 31) div 32"

definition page_width :: "nat \<Rightarrow> nat \<Rightarrow> nat" where
  "page_width sz i = (if i = page_num sz - 1 then sz - i * 32 else 32)"

primrec load_pages ::
    "('k \<Rightarrow> ('e, 's, h256) exc) \<Rightarrow> (nat \<Rightarrow> 'k) \<Rightarrow> nat \<Rightarrow> nat list \<Rightarrow> bytes \<Rightarrow> ('e, 's, bytes) exc" where
  "load_pages get key sz [] data = ret data"
| "load_pages get key sz (i # is) data =
     bindE (get (key i)) (\<lambda>value.
       load_pages get key sz is (data @ take (page_width sz i) (h256_bytes value)))"

definition page_of :: "bytes \<Rightarrow> nat \<Rightarrow> h256" where
  "page_of data i =
     (if i \<noteq> page_num (length data) - 1 then bytes_h256 (take 32 (drop (i * 32) data))
      else align_left (drop (i * 32) data))"

primrec save_pages ::
    "('k \<Rightarrow> h256 \<Rightarrow> ('e, 's, unit) exc) \<Rightarrow> (nat \<Rightarrow> 'k) \<Rightarrow> bytes \<Rightarrow> nat list \<Rightarrow> ('e, 's, unit) exc" where
  "save_pages put key data [] = ret ()"
| "save_pages put key data (i # is) = thenE (put (key i) (page_of data i)) (save_pages put key data is)"


section \<open>Storage cells\<close>

text \<open>
  The interface the loops rely on: reading gives the value of the cell, writing changes that
  cell and nothing else. \<open>rest\<close> is what of the state the cells are not part of.
\<close>

locale cells =
  fixes get :: "'k \<Rightarrow> ('e, 's, h256) exc"
    and put :: "'k \<Rightarrow> h256 \<Rightarrow> ('e, 's, unit) exc"
    and cell :: "'s \<Rightarrow> 'k \<Rightarrow> h256"
    and ok :: "'s \<Rightarrow> bool"
    and rest :: "'s \<Rightarrow> 'r"
  assumes get: "ok s \<Longrightarrow> \<exists>t. get k s = (Inr (cell s k), t) \<and> ok t \<and> cell t = cell s \<and> rest t = rest s"
    and put: "ok s \<Longrightarrow> \<exists>t. put k v s = (Inr (), t) \<and> ok t \<and> cell t = (cell s)(k := v) \<and> rest t = rest s"
begin

definition data_at :: "(nat \<Rightarrow> 'k) \<Rightarrow> nat \<Rightarrow> nat list \<Rightarrow> 's \<Rightarrow> bytes" where
  "data_at key sz is s = concat (map (\<lambda>i. take (page_width sz i) (h256_bytes (cell s (key i)))) is)"

lemma load_run:
  assumes "ok s"
  shows "\<exists>t. load_pages get key sz is d s = (Inr (d @ data_at key sz is s), t) \<and> ok t \<and> cell t = cell s \<and> rest t = rest s"
  using assms
proof (induction "is" arbitrary: d s)
  case (Cons i "is")
  from get [OF Cons.prems, of "key i"] obtain t where
    t: "get (key i) s = (Inr (cell s (key i)), t)" "ok t" "cell t = cell s" "rest t = rest s" by blast
  obtain u where "load_pages get key sz is (d @ take (page_width sz i) (h256_bytes (cell s (key i)))) t =
      (Inr ((d @ take (page_width sz i) (h256_bytes (cell s (key i)))) @ data_at key sz is t), u)"
      "ok u" "cell u = cell t" "rest u = rest t"
    using Cons.IH [OF t(2)] by blast
  moreover have "data_at key sz (i # is) s = take (page_width sz i) (h256_bytes (cell s (key i))) @ data_at key sz is t"
    using t(3) by (simp add: data_at_def)
  ultimately show ?case using t by (intro exI [of _ u]) (simp add: bindE_def)
qed (simp add: data_at_def)

lemma save_run:
  assumes "ok s" "inj_on key (set is)" "distinct is"
  shows "\<exists>t. save_pages put key d is s = (Inr (), t) \<and> ok t \<and> rest t = rest s \<and>
    (\<forall>i \<in> set is. cell t (key i) = page_of d i) \<and> (\<forall>k. k \<notin> key ` set is \<longrightarrow> cell t k = cell s k)"
  using assms
proof (induction "is" arbitrary: s)
  case (Cons i "is")
  from put [OF Cons.prems(1), of "key i" "page_of d i"] obtain t where
    t: "put (key i) (page_of d i) s = (Inr (), t)" "ok t" "cell t = (cell s)(key i := page_of d i)" "rest t = rest s" by blast
  obtain u where u: "save_pages put key d is t = (Inr (), u)" "ok u" "rest u = rest t"
      "\<forall>i \<in> set is. cell u (key i) = page_of d i" "\<forall>k. k \<notin> key ` set is \<longrightarrow> cell u k = cell t k"
    using Cons.IH [OF t(2)] Cons.prems by auto
  have "key i \<notin> key ` set is" using Cons.prems by auto
  then have "cell u (key i) = page_of d i" using u(5) t(3) by simp
  moreover have "save_pages put key d (i # is) s = (Inr (), u)" using t(1) u(1) by (simp add: thenE_def bindE_def)
  ultimately show ?case using u t(3,4) by auto
qed simp

end


section \<open>Pages of a byte string\<close>

lemma concat_chunks: "concat (map (\<lambda>i. take 32 (drop (i * 32) d)) [0..<n]) = take (n * 32) d"
proof (induction n)
  case (Suc n)
  have "take (Suc n * 32) d = take (n * 32) d @ take 32 (drop (n * 32) d)"
    using take_add [of "n * 32" 32 d] by (simp add: add.commute)
  with Suc show ?case by simp
qed simp

lemma page_num_le: "length d \<le> page_num (length d) * 32"
  unfolding page_num_def by presburger

lemma page_num_inner: "i < page_num n - 1 \<Longrightarrow> i * 32 + 32 \<le> n"
proof -
  assume "i < page_num n - 1"
  then have "i + 2 \<le> (n + 31) div 32" by (simp add: page_num_def)
  then have "(i + 2) * 32 \<le> n + 31" by (simp add: less_eq_div_iff_mult_less_eq)
  then show ?thesis by simp
qed

lemma page_num_last:
  assumes "0 < n"
  shows "(page_num n - 1) * 32 < n \<and> n \<le> (page_num n - 1) * 32 + 32"
proof -
  obtain m where m: "n = Suc m" using assms by (cases n) auto
  have "page_num n = m div 32 + 1" by (simp add: page_num_def m)
  then show ?thesis unfolding m using div_mult_mod_eq [of m 32] mod_less_divisor [of 32 m] by linarith
qed

lemma take_page:
  assumes "i < page_num (length d)"
  shows "take (page_width (length d) i) (h256_bytes (page_of d i)) = take 32 (drop (i * 32) d)"
proof (cases "i = page_num (length d) - 1")
  case False
  then have "i * 32 + 32 \<le> length d" using assms page_num_inner [of i "length d"] by simp
  with False show ?thesis by (simp add: page_of_def page_width_def h256_bytes_of)
next
  case True
  then have "0 < length d" using assms by (cases "length d") (auto simp: page_num_def)
  from page_num_last [OF this, folded True] have l: "length (drop (i * 32) d) \<le> 32"
    unfolding length_drop by linarith
  have "page_of d i = align_left (drop (i * 32) d)" "page_width (length d) i = length d - i * 32"
    using True by (simp_all add: page_of_def page_width_def)
  then show ?thesis using l by (simp add: h256_bytes_align_left [OF l])
qed

text \<open>The pages of a byte string put together again.\<close>

lemma pages_data:
  assumes "\<And>i. i < page_num (length d) \<Longrightarrow> f i = page_of d i"
  shows "concat (map (\<lambda>i. take (page_width (length d) i) (h256_bytes (f i))) [0..<page_num (length d)]) = d"
proof -
  have "map (\<lambda>i. take (page_width (length d) i) (h256_bytes (f i))) [0..<page_num (length d)]
      = map (\<lambda>i. take 32 (drop (i * 32) d)) [0..<page_num (length d)]"
    by (rule map_cong) (simp_all add: assms take_page)
  then have "concat (map (\<lambda>i. take (page_width (length d) i) (h256_bytes (f i))) [0..<page_num (length d)])
      = take (page_num (length d) * 32) d" by (simp only: concat_chunks)
  then show ?thesis using page_num_le [of d] by simp
qed


section \<open>The storage of an account\<close>

text \<open>What the account state shows apart from the storage of \<open>a\<close>.\<close>

definition but_storage :: "address \<Rightarrow> State \<Rightarrow> (address \<Rightarrow> aview option) \<times> (address, stored_account) omap \<times> u256" where
  "but_storage a s = ((view s)(a := map_option (\<lambda>v. v\<lparr>v_stor := (\<lambda>_. 0)\<rparr>) (view s a)), m_state s, m_accountStartNonce s)"

definition has_account :: "address \<Rightarrow> State \<Rightarrow> bool" where
  "has_account a s \<longleftrightarrow> st_ok s \<and> view s a \<noteq> None"

lemma has_account_same: "has_account a s \<Longrightarrow> st_ok t \<Longrightarrow> same_abs s t \<Longrightarrow>
    has_account a t \<and> stor t = stor s \<and> but_storage b t = but_storage b s"
  by (simp add: has_account_def same_abs_def stor_def but_storage_def fun_eq_iff)

interpretation user: cells "storage pick a" "setStorage pick a" "\<lambda>s. stor s a" "has_account a" "but_storage a"
proof unfold_locales
  fix s k assume s: "has_account a s"
  then have "st_ok s" by (simp add: has_account_def)
  from storage_run [OF this, of pick a k] obtain t where
    "storage pick a k s = (Inr (stor s a k), t)" "st_ok t" "same_abs s t" by metis
  with has_account_same [OF s] show
    "\<exists>t. storage pick a k s = (Inr (stor s a k), t) \<and> has_account a t \<and> stor t a = stor s a \<and> but_storage a t = but_storage a s"
    by (metis)
next
  fix s k v assume s: "has_account a s"
  then obtain x where x: "st_ok s" "view s a = Some x" by (auto simp: has_account_def)
  obtain t where t: "setStorage pick a k v s = (Inr (), t)"
    "acc_step s t a (x\<lparr>v_stor := (v_stor x)(k := v)\<rparr>) [CStorage a k (v_stor x k)]"
    by (rule setStorage_run [OF x])
  have "has_account a t \<and> stor t a = (stor s a)(k := v) \<and> but_storage a t = but_storage a s"
    using t(2) x by (auto simp: acc_step_def has_account_def stor_def but_storage_def)
  with t(1) show "\<exists>t. setStorage pick a k v s = (Inr (), t) \<and> has_account a t \<and>
      stor t a = (stor s a)(k := v) \<and> but_storage a t = but_storage a s" by blast
qed

end
