(* ===== verification/VoteInfo.thy ===== *)
theory VoteInfo
  imports Paging
begin

text \<open>
  The vote ledger of \<open>libethereum/Vote.cpp\<close>: \<open>UserStorage\<close>, \<open>VoteInfo\<close>,
  \<open>VoteManager\<close> and the precompiled contracts that call it. The ledger lives in the storage
  of the account \<open>VoteInfoAddress\<close>, each voter's record in the pages that start at its
  address. \<open>sha3\<close> is the hash under which the state lists its storage, \<open>lexical_cast\<close> is
  \<open>boost::lexical_cast<uint64_t>\<close>.
\<close>

section \<open>UserStorage\<close>

definition addressToU256 :: "address \<Rightarrow> nat \<Rightarrow> u256" where
  "addressToU256 a postfix = push_bit 96 (ucast a) + of_nat postfix"

definition LoadFixedSizeBtyes :: "pick \<Rightarrow> address \<Rightarrow> address \<Rightarrow> nat \<Rightarrow> nat \<Rightarrow> bytes \<Rightarrow> bytes stE" where
  "LoadFixedSizeBtyes pick storageaddress keyaddress sz startPage data =
     load_pages (storage pick storageaddress) (addressToU256 keyaddress) sz [startPage..<page_num sz] data"

text \<open>The overload for a storage listing; it ignores \<open>_startPage\<close> and reads \<open>end()\<close> for a missing page.\<close>

definition LoadFixedSizeBtyes_map ::
    "(h256 \<Rightarrow> h256) \<Rightarrow> (h256, u256 \<times> u256) omap \<Rightarrow> address \<Rightarrow> nat \<Rightarrow> nat \<Rightarrow> bytes \<Rightarrow> bytes stE" where
  "LoadFixedSizeBtyes_map sha3 m keyaddress sz startPage data =
     load_pages (\<lambda>k. bindE (theE Undefined (om_find m (sha3 k))) (\<lambda>p. ret (snd p)))
       (addressToU256 keyaddress) sz [0..<page_num sz] data"

definition SaveBytes :: "pick \<Rightarrow> address \<Rightarrow> address \<Rightarrow> bytes \<Rightarrow> unit stE" where
  "SaveBytes pick storageaddress keyaddress data =
     save_pages (setStorage pick storageaddress) (addressToU256 keyaddress) data [0..<page_num (length data)]"


section \<open>VoteInfo\<close>

definition VoteInfoAddress :: address where "VoteInfoAddress = 0x21"
definition VOTES_PRE_ETH :: u64 where "VOTES_PRE_ETH = 10000000000000000"
definition NameMaxSize :: nat where "NameMaxSize = 40"
definition URLMaxSize :: nat where "URLMaxSize = 120"
definition NameMinSize :: nat where "NameMinSize = 1"
definition URLMinSize :: nat where "URLMinSize = 5"
definition BasicSize :: nat where "BasicSize = 2 * 1 + 2 * 8 + NameMaxSize + URLMaxSize"

record VoteInfo =
  m_address :: address
  m_isCandidate :: bool
  m_receivedVote :: u64
  m_name :: bytes
  m_url :: bytes
  m_holdVotes :: u64
  m_voteRecord :: "(address, u64) omap"

text \<open>\<open>*value.data() * (sizeof(Address) + sizeof(uint64_t)) + BasicSize\<close>\<close>

definition info_size :: "u8 \<Rightarrow> nat" where
  "info_size voteToNum = unat voteToNum * (20 + 8) + BasicSize"

text \<open>\<open>strnlen\<close> and the string of that length.\<close>

definition c_string :: "nat \<Rightarrow> bytes \<Rightarrow> bytes" where
  "c_string n bs = takeWhile (\<lambda>b. b \<noteq> 0) (take n bs)"

primrec read_records :: "nat \<Rightarrow> bytes \<Rightarrow> (address, u64) omap \<Rightarrow> (address, u64) omap" where
  "read_records 0 bs rec = rec"
| "read_records (Suc n) bs rec =
     read_records n (drop 28 bs) (om_emplace (bytes_addr (take 20 bs)) (bytes_u64 (take 8 (drop 20 bs))) rec)"

definition initFromBytes :: "address \<Rightarrow> bytes \<Rightarrow> VoteInfo" where
  "initFromBytes a bs = \<lparr>
     m_address = a,
     m_isCandidate = (bs ! 1 \<noteq> 0),
     m_receivedVote = bytes_u64 (take 8 (drop 10 bs)),
     m_name = c_string NameMaxSize (drop 18 bs),
     m_url = c_string URLMaxSize (drop (18 + NameMaxSize) bs),
     m_holdVotes = bytes_u64 (take 8 (drop 2 bs)),
     m_voteRecord = read_records (unat (bs ! 0)) (drop BasicSize bs) []\<rparr>"

definition VoteInfo_load :: "pick \<Rightarrow> address \<Rightarrow> VoteInfo stE" where
  "VoteInfo_load pick a =
     bindE (storage pick VoteInfoAddress (addressToU256 a 0)) (\<lambda>value.
     let sz = info_size (h256_bytes value ! 0) in
     bindE (if sz > 32
            then LoadFixedSizeBtyes pick VoteInfoAddress a sz 1 (h256_bytes value)
            else ret (take sz (h256_bytes value))) (\<lambda>data.
     ret (initFromBytes a data)))"

definition removeZeroVote :: "VoteInfo \<Rightarrow> VoteInfo" where
  "removeZeroVote v = v\<lparr>m_voteRecord := filter (\<lambda>(a, n). n \<noteq> 0) (m_voteRecord v)\<rparr>"

definition recordVoteTo :: "address \<Rightarrow> u64 \<Rightarrow> VoteInfo \<Rightarrow> VoteInfo" where
  "recordVoteTo a n v = v\<lparr>m_voteRecord :=
     (case om_find (m_voteRecord v) a of
        Some k \<Rightarrow> om_put a (k + n) (m_voteRecord v)
      | None \<Rightarrow> om_put a n (m_voteRecord v))\<rparr>"

text \<open>\<open>memcpy\<close> into a buffer at an offset.\<close>

definition put_at :: "nat \<Rightarrow> bytes \<Rightarrow> bytes \<Rightarrow> bytes" where
  "put_at i src buf = take i buf @ src @ drop (i + length src) buf"

primrec write_records :: "nat \<Rightarrow> (address, u64) omap \<Rightarrow> bytes \<Rightarrow> bytes" where
  "write_records i [] buf = buf"
| "write_records i (p # ps) buf =
     write_records (i + 28) ps (put_at (i + 20) (u64_bytes (snd p)) (put_at i (addr_bytes (fst p)) buf))"

text \<open>
  The image of a record. A copy that does not fit the buffer (a name or URL that is too long,
  more records than the count byte can say) is undefined.
\<close>

definition info_bytes :: "VoteInfo \<Rightarrow> bytes option" where
  "info_bytes v =
     (let voteToNum = (of_nat (length (m_voteRecord v)) :: u8);
          sz = info_size voteToNum;
          buf = replicate sz 0
      in if 18 + length (m_name v) > sz \<or> 18 + NameMaxSize + length (m_url v) > sz
            \<or> length (m_voteRecord v) > unat voteToNum
         then None
         else Some (write_records BasicSize (m_voteRecord v)
                (put_at (18 + NameMaxSize) (m_url v)
                (put_at 18 (m_name v)
                (put_at 10 (u64_bytes (m_receivedVote v))
                (put_at 2 (u64_bytes (m_holdVotes v))
                (put_at 1 [if m_isCandidate v then 1 else 0]
                (put_at 0 [voteToNum] buf))))))))"

definition VoteInfo_save :: "pick \<Rightarrow> VoteInfo \<Rightarrow> unit stE" where
  "VoteInfo_save pick v =
     bindE (theE Undefined (info_bytes (removeZeroVote v)))
       (SaveBytes pick VoteInfoAddress (m_address v))"

text \<open>\<open>keyh256\<close> is the first page of an address: its low 12 bytes are zero.\<close>

definition first_page :: "h256 \<Rightarrow> address option" where
  "first_page k = (if take_bit 96 k = 0 then Some (bytes_addr (take 20 (h256_bytes k))) else None)"

primrec info_loop :: "pick \<Rightarrow> (h256 \<times> u256 \<times> u256) list \<Rightarrow> (address, VoteInfo) omap \<Rightarrow> (address, VoteInfo) omap stE" where
  "info_loop pick [] infos = ret infos"
| "info_loop pick (p # ps) infos =
     (case first_page (fst (snd p)) of
        None \<Rightarrow> info_loop pick ps infos
      | Some a \<Rightarrow>
          let value = h256_bytes (snd (snd p));
              sz = info_size (value ! 0)
          in bindE (if sz > 32
                    then LoadFixedSizeBtyes pick VoteInfoAddress a sz 1 value
                    else ret (take sz value)) (\<lambda>data.
             info_loop pick ps (om_put a (initFromBytes a data) infos)))"

definition getVoteInfoMap :: "(h256 \<Rightarrow> h256) \<Rightarrow> pick \<Rightarrow> (address, VoteInfo) omap stE" where
  "getVoteInfoMap sha3 pick =
     bindE (storage_map sha3 pick VoteInfoAddress) (\<lambda>storageMap. info_loop pick storageMap [])"

definition getProducerMap :: "(h256 \<Rightarrow> h256) \<Rightarrow> pick \<Rightarrow> (address, u64) omap stE" where
  "getProducerMap sha3 pick =
     bindE (storage_map sha3 pick VoteInfoAddress) (\<lambda>storageMap.
     ret (foldl (\<lambda>res p.
         if fst (snd p) AND mask 96 = 0
         then (let value = h256_bytes (snd (snd p)) in
               if value ! 1 \<noteq> 0
               then om_put (bytes_addr (take 20 (h256_bytes (fst (snd p))))) (bytes_u64 (take 8 (drop 10 value))) res
               else res)
         else res) [] storageMap))"


section \<open>VoteManager\<close>

definition VoteManager_candidateRegister :: "pick \<Rightarrow> bytes \<Rightarrow> bytes \<Rightarrow> address \<Rightarrow> bool stE" where
  "VoteManager_candidateRegister pick name url a =
     bindE (VoteInfo_load pick a) (\<lambda>sender.
     if m_isCandidate sender then ret False
     else thenE (VoteInfo_save pick (sender\<lparr>m_name := name, m_url := url, m_isCandidate := True\<rparr>)) (ret True))"

text \<open>\<open>m_voteRecord[a]\<close>: a missing entry counts as zero.\<close>

definition votes_to :: "address \<Rightarrow> VoteInfo \<Rightarrow> u64" where
  "votes_to a v = (case om_find (m_voteRecord v) a of Some n \<Rightarrow> n | None \<Rightarrow> 0)"

definition take_back :: "address \<Rightarrow> VoteInfo \<Rightarrow> VoteInfo" where
  "take_back a v = v\<lparr>m_holdVotes := m_holdVotes v + votes_to a v, m_voteRecord := om_put a 0 (m_voteRecord v)\<rparr>"

definition VoteManager_candidateDeregister :: "(h256 \<Rightarrow> h256) \<Rightarrow> pick \<Rightarrow> address \<Rightarrow> bool stE" where
  "VoteManager_candidateDeregister sha3 pick a =
     bindE (VoteInfo_load pick a) (\<lambda>sender.
     if \<not> m_isCandidate sender then ret False
     else
       bindE (getVoteInfoMap sha3 pick) (\<lambda>infoMap.
       thenE (forE infoMap (\<lambda>p. VoteInfo_save pick (take_back a (snd p))))
      (bindE (VoteInfo_load pick a) (\<lambda>sender.
       thenE (VoteInfo_save pick (sender\<lparr>m_isCandidate := False, m_receivedVote := 0, m_name := [], m_url := []\<rparr>))
       (ret True)))))"

definition VoteManager_mortgage :: "pick \<Rightarrow> u64 \<Rightarrow> address \<Rightarrow> bool stE" where
  "VoteManager_mortgage pick money a =
     bindE (balance pick a) (\<lambda>b.
     thenE (if b \<ge> ucast money
       then
         bindE (VoteInfo_load pick a) (\<lambda>sender.
         let voteNumber = money div VOTES_PRE_ETH;
             validMoney = voteNumber * VOTES_PRE_ETH
         in thenE (subBalance pick a (ucast validMoney))
                  (VoteInfo_save pick (sender\<lparr>m_holdVotes := m_holdVotes sender + voteNumber\<rparr>)))
       else ret ())
     (ret True))"

definition VoteManager_redeem :: "pick \<Rightarrow> u64 \<Rightarrow> address \<Rightarrow> bool stE" where
  "VoteManager_redeem pick votes a =
     bindE (VoteInfo_load pick a) (\<lambda>sender.
     thenE (if m_holdVotes sender \<ge> votes
       then thenE (addBalance pick a (ucast (votes * VOTES_PRE_ETH)))
                  (VoteInfo_save pick (sender\<lparr>m_holdVotes := m_holdVotes sender - votes\<rparr>))
       else ret ())
     (ret True))"

definition VoteManager_send :: "pick \<Rightarrow> address \<Rightarrow> u64 \<Rightarrow> address \<Rightarrow> bool stE" where
  "VoteManager_send pick toAddress votes senderAddress =
     (if toAddress = senderAddress then ret True
      else
        bindE (VoteInfo_load pick senderAddress) (\<lambda>sender.
        if m_holdVotes sender < votes then ret False
        else
          bindE (VoteInfo_load pick toAddress) (\<lambda>to.
          thenE (VoteInfo_save pick (sender\<lparr>m_holdVotes := m_holdVotes sender - votes\<rparr>))
         (thenE (VoteInfo_save pick (to\<lparr>m_holdVotes := m_holdVotes to + votes\<rparr>))
          (ret True)))))"

definition VoteManager_vote :: "pick \<Rightarrow> address \<Rightarrow> u64 \<Rightarrow> address \<Rightarrow> bool stE" where
  "VoteManager_vote pick toAddress votes senderAddress =
     bindE (VoteInfo_load pick senderAddress) (\<lambda>sender.
     let finish = (\<lambda>sender.
           thenE (VoteInfo_save pick (recordVoteTo toAddress votes (sender\<lparr>m_holdVotes := m_holdVotes sender - votes\<rparr>)))
           (ret True))
     in
     if m_holdVotes sender < votes then ret False
     else if length (m_voteRecord sender) \<ge> 15 \<and> om_find (m_voteRecord sender) toAddress = None then ret False
     else if toAddress = senderAddress then
       (if \<not> m_isCandidate sender then ret False
        else finish (sender\<lparr>m_receivedVote := m_receivedVote sender + votes\<rparr>))
     else
       bindE (VoteInfo_load pick toAddress) (\<lambda>to.
       if \<not> m_isCandidate to then ret False
       else thenE (VoteInfo_save pick (to\<lparr>m_receivedVote := m_receivedVote to + votes\<rparr>)) (finish sender)))"

definition VoteManager_removeVote :: "pick \<Rightarrow> address \<Rightarrow> u64 \<Rightarrow> address \<Rightarrow> bool stE" where
  "VoteManager_removeVote pick toAddress votes senderAddress =
     bindE (VoteInfo_load pick senderAddress) (\<lambda>sender.
     let finish = (\<lambda>sender.
           thenE (VoteInfo_save pick (sender\<lparr>m_holdVotes := m_holdVotes sender + votes,
             m_voteRecord := om_put toAddress (votes_to toAddress sender - votes) (m_voteRecord sender)\<rparr>))
           (ret True))
     in
     if om_find (m_voteRecord sender) toAddress = None then ret False
     else if votes_to toAddress sender < votes then ret False
     else if toAddress = senderAddress then
       (if \<not> m_isCandidate sender then ret False
        else finish (sender\<lparr>m_receivedVote := m_receivedVote sender - votes\<rparr>))
     else
       bindE (VoteInfo_load pick toAddress) (\<lambda>to.
       if \<not> m_isCandidate to then ret False
       else thenE (VoteInfo_save pick (to\<lparr>m_receivedVote := m_receivedVote to - votes\<rparr>)) (finish sender)))"


section \<open>Precompiled contracts\<close>

text \<open>
  The entry points; \<open>lexical_cast\<close> gives None where it throws. An input shorter than an
  address is read past its end.
\<close>

definition pre_mortgage :: "(bytes \<Rightarrow> u64 option) \<Rightarrow> pick \<Rightarrow> bytes \<Rightarrow> address \<Rightarrow> (bool \<times> bytes) stE" where
  "pre_mortgage lexical_cast pick inp a =
     bindE (theE BadLexicalCast (lexical_cast inp)) (\<lambda>mortgageAmount.
     thenE (VoteManager_mortgage pick mortgageAmount a) (ret (True, [])))"

definition pre_redeem :: "(bytes \<Rightarrow> u64 option) \<Rightarrow> pick \<Rightarrow> bytes \<Rightarrow> address \<Rightarrow> (bool \<times> bytes) stE" where
  "pre_redeem lexical_cast pick inp a =
     bindE (theE BadLexicalCast (lexical_cast inp)) (\<lambda>voteCount.
     thenE (VoteManager_redeem pick voteCount a) (ret (True, [])))"

definition pre_candidateRegister :: "pick \<Rightarrow> bytes \<Rightarrow> address \<Rightarrow> (bool \<times> bytes) stE" where
  "pre_candidateRegister pick inp a =
     (if length inp < NameMinSize + URLMinSize + 1 \<or> length inp > NameMaxSize + URLMaxSize + 1
      then ret (True, [])
      else if 0 \<notin> set inp then ret (True, [])
      else
        let pos = length (takeWhile (\<lambda>b. b \<noteq> 0) inp);
            urlLen = length inp - pos - 1
        in if pos > NameMaxSize \<or> pos < NameMinSize \<or> urlLen > URLMaxSize \<or> urlLen < URLMinSize
           then ret (True, [])
           else thenE (VoteManager_candidateRegister pick (take pos inp) (drop (pos + 1) inp) a) (ret (True, [])))"

definition pre_candidateDeregister :: "(h256 \<Rightarrow> h256) \<Rightarrow> pick \<Rightarrow> bytes \<Rightarrow> address \<Rightarrow> (bool \<times> bytes) stE" where
  "pre_candidateDeregister sha3 pick inp a = thenE (VoteManager_candidateDeregister sha3 pick a) (ret (True, []))"

definition with_target ::
    "(bytes \<Rightarrow> u64 option) \<Rightarrow> bytes \<Rightarrow> (address \<Rightarrow> u64 \<Rightarrow> bool stE) \<Rightarrow> (bool \<times> bytes) stE" where
  "with_target lexical_cast inp f =
     (if length inp < 20 then throw Undefined
      else bindE (theE BadLexicalCast (lexical_cast (drop 20 inp))) (\<lambda>voteCount.
           thenE (f (bytes_addr (take 20 inp)) voteCount) (ret (True, []))))"

definition pre_vote :: "(bytes \<Rightarrow> u64 option) \<Rightarrow> pick \<Rightarrow> bytes \<Rightarrow> address \<Rightarrow> (bool \<times> bytes) stE" where
  "pre_vote lexical_cast pick inp a = with_target lexical_cast inp (\<lambda>to n. VoteManager_vote pick to n a)"

definition pre_removeVote :: "(bytes \<Rightarrow> u64 option) \<Rightarrow> pick \<Rightarrow> bytes \<Rightarrow> address \<Rightarrow> (bool \<times> bytes) stE" where
  "pre_removeVote lexical_cast pick inp a = with_target lexical_cast inp (\<lambda>to n. VoteManager_removeVote pick to n a)"

definition pre_send :: "(bytes \<Rightarrow> u64 option) \<Rightarrow> pick \<Rightarrow> bytes \<Rightarrow> address \<Rightarrow> (bool \<times> bytes) stE" where
  "pre_send lexical_cast pick inp a = with_target lexical_cast inp (\<lambda>to n. VoteManager_send pick to n a)"


section \<open>The image of a record\<close>

definition pad :: "nat \<Rightarrow> bytes \<Rightarrow> bytes" where
  "pad n bs = bs @ replicate (n - length bs) 0"

definition rec_bytes :: "(address, u64) omap \<Rightarrow> bytes" where
  "rec_bytes r = concat (map (\<lambda>p. addr_bytes (fst p) @ u64_bytes (snd p)) r)"

lemma length_rec_bytes [simp]: "length (rec_bytes r) = 28 * length r"
  by (induction r) (simp_all add: rec_bytes_def)

lemma put_at_zeros: "i = length xs \<Longrightarrow> length src \<le> n \<Longrightarrow>
    put_at i src (xs @ replicate n 0) = (xs @ src) @ replicate (n - length src) 0"
  by (simp add: put_at_def)

lemma write_records_app:
  assumes "i = length xs" "n = 28 * length r"
  shows "write_records i r (xs @ replicate n 0) = xs @ rec_bytes r"
  using assms
proof (induction r arbitrary: i xs n)
  case (Cons p r)
  have 1: "put_at i (addr_bytes (fst p)) (xs @ replicate n 0) = (xs @ addr_bytes (fst p)) @ replicate (n - 20) 0"
    using put_at_zeros [of i xs "addr_bytes (fst p)" n] Cons.prems by simp
  have 2: "put_at (i + 20) (u64_bytes (snd p)) ((xs @ addr_bytes (fst p)) @ replicate (n - 20) 0) =
      ((xs @ addr_bytes (fst p)) @ u64_bytes (snd p)) @ replicate (n - 28) 0"
    using put_at_zeros [of "i + 20" "xs @ addr_bytes (fst p)" "u64_bytes (snd p)" "n - 20"] Cons.prems by simp
  show ?case
    unfolding write_records.simps 1 2
    by (subst Cons.IH) (use Cons.prems in \<open>simp_all add: rec_bytes_def\<close>)
qed (simp add: rec_bytes_def)

lemma read_records_app:
  "read_records (length r) (rec_bytes r @ ys) acc = foldl (\<lambda>m p. om_emplace (fst p) (snd p) m) acc r"
  by (induction r arbitrary: acc) (simp_all add: rec_bytes_def)

lemma foldl_emplace_wf: "om_wf m \<Longrightarrow> om_wf (foldl (\<lambda>m p. om_emplace (fst p) (snd p) m) m r)"
  by (induction r arbitrary: m) auto

lemma foldl_emplace_find:
  "om_find (foldl (\<lambda>m p. om_emplace (fst p) (snd p) m) m r) k =
     (case om_find m k of Some v \<Rightarrow> Some v | None \<Rightarrow> om_find r k)"
proof (induction r arbitrary: m)
  case (Cons p r)
  then show ?case by (cases p) (auto simp: om_find_Cons split: option.split)
qed (simp split: option.split)

lemma read_records_inverse: "om_wf r \<Longrightarrow> read_records (length r) (rec_bytes r) [] = r"
  using read_records_app [of r "[]"] by (auto intro!: om_eqI simp: foldl_emplace_wf foldl_emplace_find)

lemma zeros_split: "a \<le> n \<Longrightarrow> xs @ replicate n 0 = (xs @ replicate a (0::u8)) @ replicate (n - a) 0"
  by (simp flip: replicate_add)

lemma num_bytes: "length r \<le> 255 \<Longrightarrow> unat (of_nat (length r) :: u8) = length r"
  by (simp add: unat_of_nat take_bit_nat_eq_self)

definition fits :: "VoteInfo \<Rightarrow> bool" where
  "fits v \<longleftrightarrow> length (m_name v) \<le> NameMaxSize \<and> length (m_url v) \<le> URLMaxSize \<and> length (m_voteRecord v) \<le> 255 \<and>
     om_wf (m_voteRecord v)"

lemmas info_sizes = NameMaxSize_def URLMaxSize_def BasicSize_def info_size_def

lemma info_bytes_eq:
  assumes "fits v"
  shows "info_bytes v = Some ([of_nat (length (m_voteRecord v)), if m_isCandidate v then 1 else 0] @
    u64_bytes (m_holdVotes v) @ u64_bytes (m_receivedVote v) @ pad 40 (m_name v) @ pad 120 (m_url v) @ rec_bytes (m_voteRecord v))"
proof -
  let ?r = "m_voteRecord v" let ?n = "28 * length ?r"
  let ?p1 = "[of_nat (length ?r), if m_isCandidate v then 1 else 0] :: bytes"
  let ?p2 = "?p1 @ u64_bytes (m_holdVotes v) @ u64_bytes (m_receivedVote v)"
  note f = assms [unfolded fits_def info_sizes]
  have z: "info_size (of_nat (length ?r)) = 178 + ?n" using f by (simp add: info_sizes num_bytes)
  have a: "put_at 1 [if m_isCandidate v then 1 else 0] (put_at 0 [of_nat (length ?r)] (replicate (178 + ?n) 0))
      = ?p1 @ replicate (176 + ?n) 0"
    by (simp add: put_at_def)
  have b: "put_at 2 (u64_bytes (m_holdVotes v)) (?p1 @ replicate (176 + ?n) 0) = (?p1 @ u64_bytes (m_holdVotes v)) @ replicate (168 + ?n) 0"
    using put_at_zeros [of 2 ?p1 "u64_bytes (m_holdVotes v)" "176 + ?n"] by simp
  have c: "put_at 10 (u64_bytes (m_receivedVote v)) ((?p1 @ u64_bytes (m_holdVotes v)) @ replicate (168 + ?n) 0)
      = ?p2 @ replicate (160 + ?n) 0"
    using put_at_zeros [of 10 "?p1 @ u64_bytes (m_holdVotes v)" "u64_bytes (m_receivedVote v)" "168 + ?n"] by simp
  have d: "put_at 18 (m_name v) (?p2 @ replicate (160 + ?n) 0) = (?p2 @ pad 40 (m_name v)) @ replicate (120 + ?n) 0"
    using put_at_zeros [of 18 ?p2 "m_name v" "160 + ?n"] f
      zeros_split [of "40 - length (m_name v)" "160 + ?n - length (m_name v)" "?p2 @ m_name v"] by (simp add: pad_def)
  have e: "put_at 58 (m_url v) ((?p2 @ pad 40 (m_name v)) @ replicate (120 + ?n) 0)
      = ((?p2 @ pad 40 (m_name v)) @ pad 120 (m_url v)) @ replicate ?n 0"
    using put_at_zeros [of 58 "?p2 @ pad 40 (m_name v)" "m_url v" "120 + ?n"] f
      zeros_split [of "120 - length (m_url v)" "120 + ?n - length (m_url v)" "(?p2 @ pad 40 (m_name v)) @ m_url v"] by (simp add: pad_def)
  have g: "write_records 178 ?r (((?p2 @ pad 40 (m_name v)) @ pad 120 (m_url v)) @ replicate ?n 0)
      = ((?p2 @ pad 40 (m_name v)) @ pad 120 (m_url v)) @ rec_bytes ?r"
    using f by (intro write_records_app) (simp_all add: pad_def)
  have h: "\<not> (18 + length (m_name v) > 178 + ?n \<or> 58 + length (m_url v) > 178 + ?n \<or> length ?r > unat (of_nat (length ?r) :: u8))"
    using f by (simp add: num_bytes)
  have sz: "18 + NameMaxSize = 58" "BasicSize = 178" by (simp_all add: info_sizes)
  show ?thesis
    unfolding info_bytes_def Let_def z sz a b c d e g using h by simp
qed

text \<open>Reading the image back gives the record, with its strings cut at the first NUL.\<close>

definition trim :: "VoteInfo \<Rightarrow> VoteInfo" where
  "trim v = v\<lparr>m_name := takeWhile (\<lambda>b. b \<noteq> 0) (m_name v), m_url := takeWhile (\<lambda>b. b \<noteq> 0) (m_url v)\<rparr>"

lemma c_string_pad: "length bs \<le> n \<Longrightarrow> c_string n (pad n bs @ ys) = takeWhile (\<lambda>b. b \<noteq> 0) bs"
  by (cases "\<exists>b \<in> set bs. b = 0")
    (auto simp: c_string_def pad_def takeWhile_append takeWhile_eq_all_conv [THEN iffD2] split: if_splits)

lemma init_info_bytes:
  assumes f: "fits v" and b: "info_bytes v = Some bs"
  shows "initFromBytes (m_address v) bs = trim v" "length bs = info_size (bs ! 0)"
proof -
  let ?r = "m_voteRecord v"
  note s = f [unfolded fits_def info_sizes]
  have e: "bs = [of_nat (length ?r), if m_isCandidate v then 1 else 0] @
    u64_bytes (m_holdVotes v) @ u64_bytes (m_receivedVote v) @ pad 40 (m_name v) @ pad 120 (m_url v) @ rec_bytes ?r"
    using b info_bytes_eq [OF f] by simp
  have l: "length (pad 40 (m_name v)) = 40" "length (pad 120 (m_url v)) = 120" using s by (simp_all add: pad_def)
  show "length bs = info_size (bs ! 0)"
    using s l by (simp add: e num_bytes info_sizes)
  have d2: "drop 2 bs = u64_bytes (m_holdVotes v) @ u64_bytes (m_receivedVote v) @ pad 40 (m_name v) @ pad 120 (m_url v) @ rec_bytes ?r"
    by (simp add: e numeral_2_eq_2)
  have d10: "drop 10 bs = u64_bytes (m_receivedVote v) @ pad 40 (m_name v) @ pad 120 (m_url v) @ rec_bytes ?r"
    using arg_cong [OF d2, of "drop 8"] by simp
  have d18: "drop 18 bs = pad 40 (m_name v) @ pad 120 (m_url v) @ rec_bytes ?r"
    using arg_cong [OF d10, of "drop 8"] by simp
  have d58: "drop 58 bs = pad 120 (m_url v) @ rec_bytes ?r" using arg_cong [OF d18, of "drop 40"] l by simp
  have d178: "drop 178 bs = rec_bytes ?r" using arg_cong [OF d58, of "drop 120"] l by simp
  have n: "bs ! 0 = of_nat (length ?r)" "bs ! 1 = (if m_isCandidate v then 1 else 0)" by (simp_all add: e)
  have sz: "18 + NameMaxSize = 58" "BasicSize = 178" "NameMaxSize = 40" "URLMaxSize = 120" by (simp_all add: info_sizes)
  show "initFromBytes (m_address v) bs = trim v"
    unfolding initFromBytes_def sz(1,2) d2 d10 d18 d58 d178 n unfolding sz(3,4)
    using s by (intro VoteInfo.equality) (simp_all add: c_string_pad num_bytes read_records_inverse trim_def)
qed

end
