(* ===== verification/VoteLedger.thy ===== *)
theory VoteLedger
  imports VoteInfo
begin

text \<open>
  The vote ledger as a map from addresses to vote records: loading and saving a record are a
  lookup and an update of that map, and the operations of \<open>VoteManager\<close> refine pure
  operations on it.
\<close>

section \<open>Keys of the pages\<close>

lemma addressToU256_nat: "addressToU256 a i = of_nat (unat a * 2 ^ 96 + i)"
  by (simp only: addressToU256_def push_bit_eq_mult of_nat_add of_nat_mult of_nat_power of_nat_numeral of_nat_unat)

lemma addressToU256_unat:
  assumes "i < 2 ^ 96"
  shows "unat (addressToU256 a i) = unat a * 2 ^ 96 + i"
proof -
  have "unat a < 2 ^ 160" using unsigned_less [where 'a = nat, of a] by simp
  then have "unat a * 2 ^ 96 + i < 2 ^ 256" using assms by simp
  then show ?thesis unfolding addressToU256_nat by (simp add: unat_of_nat take_bit_nat_eq_self del: of_nat_add of_nat_mult)
qed

lemma addressToU256_eq:
  assumes "i < 2 ^ 96" "j < 2 ^ 96"
  shows "addressToU256 a i = addressToU256 b j \<longleftrightarrow> a = b \<and> i = j"
proof
  assume e: "addressToU256 a i = addressToU256 b j"
  then have "unat a * 2 ^ 96 + i = unat b * 2 ^ 96 + j"
    using addressToU256_unat [OF assms(1), of a] addressToU256_unat [OF assms(2), of b] by simp
  then have "(unat a * 2 ^ 96 + i) div 2 ^ 96 = (unat b * 2 ^ 96 + j) div 2 ^ 96"
    "(unat a * 2 ^ 96 + i) mod 2 ^ 96 = (unat b * 2 ^ 96 + j) mod 2 ^ 96" by simp_all
  then show "a = b \<and> i = j" using assms by (simp add: word_unat_eq_iff)
qed simp

lemma le_bytes_drop: "m \<le> n \<Longrightarrow> drop m (le_bytes n x) = le_bytes (n - m) (x div 256 ^ m)"
proof (induction m arbitrary: n x)
  case (Suc m)
  then obtain k where "n = Suc k" by (cases n) auto
  with Suc show ?case by (simp add: div_mult2_eq)
qed simp

lemma address_of_key: "bytes_addr (take 20 (h256_bytes k)) = of_nat (unat k div 2 ^ 96)" "unat k div 2 ^ 96 < 2 ^ 160"
proof -
  have e: "(256::nat) ^ 12 = 2 ^ 96" "(256::nat) ^ 20 = 2 ^ 160" "(2::nat) ^ 256 = 2 ^ 160 * 2 ^ 96" by simp_all
  have "unat k < 2 ^ 256" using unsigned_less [where 'a = nat, of k] by simp
  then show l: "unat k div 2 ^ 96 < 2 ^ 160" unfolding e by (rule less_mult_imp_div_less)
  have "rev (take 20 (h256_bytes k)) = drop 12 (le_bytes 32 (unat k))"
    by (simp add: h256_bytes_def take_rev)
  then have "le_val (rev (take 20 (h256_bytes k))) = unat k div 2 ^ 96 mod 2 ^ 160"
    by (simp add: le_bytes_drop le_val_bytes e del: power_numeral)
  with l show "bytes_addr (take 20 (h256_bytes k)) = of_nat (unat k div 2 ^ 96)"
    by (simp add: bytes_addr_def del: power_numeral)
qed

lemma first_page_iff: "first_page k = Some a \<longleftrightarrow> k = addressToU256 a 0"
proof -
  let ?d = "unat k div 2 ^ 96"
  have t: "take_bit 96 k = 0 \<longleftrightarrow> unat k mod 2 ^ 96 = 0"
  proof -
    have "unat (take_bit 96 k) = take_bit 96 (unat k)" by (rule unsigned_take_bit_eq)
    then have "unat (take_bit 96 k) = unat k mod 2 ^ 96" unfolding take_bit_eq_mod [of _ "unat k"] .
    then show ?thesis by (simp only: unat_eq_zero [symmetric])
  qed
  have d: "unat (of_nat ?d :: address) = ?d"
    using address_of_key(2) [of k] by (simp add: unat_of_nat take_bit_nat_eq_self del: power_numeral)
  have z: "unat (addressToU256 a 0) = unat a * 2 ^ 96" by (simp add: addressToU256_unat)
  have "unat k mod 2 ^ 96 = 0 \<and> of_nat ?d = a \<longleftrightarrow> unat k = unat a * 2 ^ 96"
  proof
    assume "unat k mod 2 ^ 96 = 0 \<and> of_nat ?d = a"
    then have "unat k mod 2 ^ 96 = 0" "unat a = ?d" using d by auto
    then show "unat k = unat a * 2 ^ 96" using div_mult_mod_eq [of "unat k" "2 ^ 96"] by (simp del: power_numeral)
  next
    assume "unat k = unat a * 2 ^ 96"
    then have "unat k mod 2 ^ 96 = 0" "?d = unat a" by simp_all
    then show "unat k mod 2 ^ 96 = 0 \<and> of_nat ?d = a" by simp
  qed
  then show ?thesis
    unfolding first_page_def address_of_key(1) word_unat_eq_iff [of k] z t by (auto split: if_splits)
qed


section \<open>Loading and saving\<close>

text \<open>The record a storage holds for an address.\<close>

definition info_of :: "(u256 \<Rightarrow> u256) \<Rightarrow> address \<Rightarrow> VoteInfo" where
  "info_of f a =
     (let sz = info_size (h256_bytes (f (addressToU256 a 0)) ! 0)
      in initFromBytes a (concat (map (\<lambda>i. take (page_width sz i) (h256_bytes (f (addressToU256 a i)))) [0..<page_num sz])))"

type_synonym ledger = "address \<Rightarrow> VoteInfo"

abbreviation votes :: "State \<Rightarrow> u256 \<Rightarrow> u256" where
  "votes s \<equiv> stor s VoteInfoAddress"

definition ledger :: "State \<Rightarrow> ledger" where
  "ledger s = info_of (votes s)"

definition ledger_ok :: "State \<Rightarrow> bool" where
  "ledger_ok s \<longleftrightarrow> has_account VoteInfoAddress s"

definition others :: "State \<Rightarrow> (address \<Rightarrow> aview option) \<times> (address, stored_account) omap \<times> u256" where
  "others s = but_storage VoteInfoAddress s"

lemma info_size_bounds: "178 \<le> info_size b" "page_num (info_size b) < 2 ^ 96" "1 < page_num (info_size b)"
  "page_width (info_size b) 0 = 32"
proof -
  have b: "unat b < 256" using unsigned_less [where 'a = nat, of b] by simp
  have sz: "info_size b = unat b * 28 + 178" by (simp add: info_sizes)
  then show "178 \<le> info_size b" by simp
  have "page_num (info_size b) \<le> (256 * 28 + 178 + 31) div 32"
    unfolding page_num_def using b by (intro div_le_mono) (simp add: sz)
  then show "page_num (info_size b) < 2 ^ 96" by simp
  have "(178 + 31) div 32 \<le> page_num (info_size b)"
    unfolding page_num_def by (intro div_le_mono) (simp add: sz)
  then show p: "1 < page_num (info_size b)" by simp
  then show "page_width (info_size b) 0 = 32" by (simp add: page_width_def)
qed

text \<open>The rest of a record whose first page was already read.\<close>

lemma load_rest_run:
  assumes "ledger_ok s" "w = h256_bytes (votes s (addressToU256 a 0))" "sz = info_size (w ! 0)"
  shows "\<exists>d t. LoadFixedSizeBtyes pick VoteInfoAddress a sz 1 w s = (Inr d, t) \<and> initFromBytes a d = ledger s a \<and>
    ledger_ok t \<and> votes t = votes s \<and> others t = others s"
proof -
  note run = user.load_run [of VoteInfoAddress s pick "addressToU256 a" sz "[1..<page_num sz]" w]
  let ?d = "w @ user.data_at VoteInfoAddress (addressToU256 a) sz [1..<page_num sz] s"
  have up: "[0..<page_num sz] = 0 # [1..<page_num sz]"
    using info_size_bounds(3) [of "w ! 0"] assms(3) by (simp add: upt_conv_Cons)
  have "ledger s a = initFromBytes a (concat (map (\<lambda>i. take (page_width sz i) (h256_bytes (votes s (addressToU256 a i)))) [0..<page_num sz]))"
    by (simp add: ledger_def info_of_def assms(2,3) Let_def)
  also have "concat (map (\<lambda>i. take (page_width sz i) (h256_bytes (votes s (addressToU256 a i)))) [0..<page_num sz]) = ?d"
    unfolding up user.data_at_def using info_size_bounds(4) assms(2,3) by simp
  finally have "initFromBytes a ?d = ledger s a" by simp
  with run assms(1) show ?thesis unfolding LoadFixedSizeBtyes_def ledger_ok_def others_def by blast
qed

lemma info_load_run:
  assumes "ledger_ok s"
  obtains t where "VoteInfo_load pick a s = (Inr (ledger s a), t)" "ledger_ok t" "votes t = votes s" "others t = others s"
proof -
  let ?v = "votes s (addressToU256 a 0)"
  obtain t where t: "storage pick VoteInfoAddress (addressToU256 a 0) s = (Inr ?v, t)" "ledger_ok t" "votes t = votes s" "others t = others s"
    using user.get [of VoteInfoAddress s pick "addressToU256 a 0"] assms unfolding ledger_ok_def others_def by blast
  have l: "ledger t = ledger s" using t(3) by (simp add: ledger_def)
  obtain d u where u: "LoadFixedSizeBtyes pick VoteInfoAddress a (info_size (h256_bytes ?v ! 0)) 1 (h256_bytes ?v) t = (Inr d, u)"
    "initFromBytes a d = ledger s a" "ledger_ok u" "votes u = votes t" "others u = others t"
    using load_rest_run [OF t(2), of "h256_bytes ?v" a _ pick, OF _ refl] t(3) l by auto
  have "info_size (h256_bytes ?v ! 0) > 32" using info_size_bounds(1) [of "h256_bytes ?v ! 0"] by simp
  then have "VoteInfo_load pick a s = (Inr (ledger s a), u)"
    using t(1) u(1,2) by (simp add: VoteInfo_load_def bindE_def Let_def)
  with u t show ?thesis by (intro that [of u]) simp_all
qed

definition stored :: "VoteInfo \<Rightarrow> VoteInfo" where
  "stored v = trim (removeZeroVote v)"

lemma info_of_pages:
  assumes "fits v" "info_bytes v = Some bs"
    and "\<And>i. i < page_num (length bs) \<Longrightarrow> f (addressToU256 (m_address v) i) = page_of bs i"
  shows "info_of f (m_address v) = trim v"
proof -
  note b = init_info_bytes [OF assms(1,2)]
  let ?a = "m_address v"
  have p: "1 < page_num (length bs)" "page_width (length bs) 0 = 32" unfolding b(2) by (rule info_size_bounds)+
  have "178 \<le> length bs" unfolding b(2) by (rule info_size_bounds)
  then have "h256_bytes (page_of bs 0) ! 0 = bs ! 0"
    using p by (simp add: page_of_def h256_bytes_of)
  then have "info_size (h256_bytes (f (addressToU256 ?a 0)) ! 0) = length bs"
    using assms(3) [of 0] p b(2) by simp
  then show ?thesis unfolding info_of_def Let_def using pages_data [of bs "\<lambda>i. f (addressToU256 ?a i)"] assms(3) b(1) by simp
qed

lemma info_save_run:
  assumes "ledger_ok s" "fits (removeZeroVote v)"
  obtains t where "VoteInfo_save pick v s = (Inr (), t)" "ledger_ok t" "others t = others s"
    "ledger t = (ledger s)(m_address v := stored v)"
proof -
  let ?a = "m_address v" let ?w = "removeZeroVote v"
  have wa: "m_address ?w = ?a" by (simp add: removeZeroVote_def)
  obtain bs where bs: "info_bytes ?w = Some bs" using info_bytes_eq [OF assms(2)] by simp
  note b = init_info_bytes [OF assms(2) bs]
  let ?is = "[0..<page_num (length bs)]"
  have pn: "page_num (length bs) < 2 ^ 96" unfolding b(2) by (rule info_size_bounds)
  then have inj: "inj_on (addressToU256 ?a) (set ?is)"
    by (intro inj_onI) (simp add: addressToU256_eq)
  obtain t where t: "save_pages (setStorage pick VoteInfoAddress) (addressToU256 ?a) bs ?is s = (Inr (), t)"
    "has_account VoteInfoAddress t" "but_storage VoteInfoAddress t = but_storage VoteInfoAddress s"
    "\<forall>i \<in> set ?is. votes t (addressToU256 ?a i) = page_of bs i"
    "\<forall>k. k \<notin> addressToU256 ?a ` set ?is \<longrightarrow> votes t k = votes s k"
    using user.save_run [OF assms(1) [unfolded ledger_ok_def] inj distinct_upt, of pick bs] by blast
  have same: "ledger t ?a = stored v"
    using info_of_pages [OF assms(2) bs, of "votes t"] t(4) by (simp add: ledger_def stored_def wa)
  have other: "ledger t c = ledger s c" if c: "c \<noteq> ?a" for c
  proof -
    have k: "votes t (addressToU256 c i) = votes s (addressToU256 c i)" if "i < 2 ^ 96" for i
    proof -
      have "addressToU256 c i \<notin> addressToU256 ?a ` set ?is"
        using c that pn by (auto simp: addressToU256_eq)
      with t(5) show ?thesis by blast
    qed
    have m: "map (\<lambda>i. take (page_width (info_size x) i) (h256_bytes (votes t (addressToU256 c i)))) [0..<page_num (info_size x)] =
        map (\<lambda>i. take (page_width (info_size x) i) (h256_bytes (votes s (addressToU256 c i)))) [0..<page_num (info_size x)]" for x
      using info_size_bounds(2) [of x] by (intro map_cong refl) (simp add: k)
    have "votes t (addressToU256 c 0) = votes s (addressToU256 c 0)" by (rule k) simp
    then show ?thesis unfolding ledger_def info_of_def Let_def by (simp only: m)
  qed
  have "VoteInfo_save pick v s = (Inr (), t)"
    using t(1) bs by (simp add: VoteInfo_save_def theE_def SaveBytes_def)
  moreover have "ledger t = (ledger s)(?a := stored v)" using same other by auto
  ultimately show ?thesis using t(2,3) by (intro that [of t]) (simp_all add: ledger_ok_def others_def)
qed

end
