(* ===== verification/VoteSpec.thy ===== *)
theory VoteSpec
  imports VoteLedger
begin

text \<open>
  What the operations of \<open>VoteManager\<close> do to the ledger, stated without pages and bytes,
  and that the code does exactly that.
\<close>

section \<open>Clean ledgers\<close>

definition tidy :: "VoteInfo \<Rightarrow> bool" where
  "tidy v \<longleftrightarrow> fits v \<and> (\<forall>p \<in> set (m_voteRecord v). snd p \<noteq> 0) \<and> 0 \<notin> set (m_name v) \<and> 0 \<notin> set (m_url v)"

definition clean_ledger :: "ledger \<Rightarrow> bool" where
  "clean_ledger L \<longleftrightarrow> (\<forall>a. m_address (L a) = a \<and> tidy (L a))"

lemma stored_sel [simp]:
  "m_address (stored v) = m_address v" "m_isCandidate (stored v) = m_isCandidate v"
  "m_receivedVote (stored v) = m_receivedVote v" "m_holdVotes (stored v) = m_holdVotes v"
  "m_voteRecord (stored v) = filter (\<lambda>p. snd p \<noteq> 0) (m_voteRecord v)"
  "m_name (stored v) = takeWhile (\<lambda>b. b \<noteq> 0) (m_name v)" "m_url (stored v) = takeWhile (\<lambda>b. b \<noteq> 0) (m_url v)"
  by (simp_all add: stored_def trim_def removeZeroVote_def case_prod_beta')

lemma fits_removeZero:
  "fits (removeZeroVote v) \<longleftrightarrow> length (m_name v) \<le> NameMaxSize \<and> length (m_url v) \<le> URLMaxSize \<and>
     length (filter (\<lambda>p. snd p \<noteq> 0) (m_voteRecord v)) \<le> 255 \<and> om_wf (filter (\<lambda>p. snd p \<noteq> 0) (m_voteRecord v))"
  by (simp add: fits_def removeZeroVote_def case_prod_beta')

lemma takeWhile_no_zero: "0 \<notin> set bs \<Longrightarrow> takeWhile (\<lambda>b. b \<noteq> 0) bs = bs"
  by (auto simp: takeWhile_eq_all_conv)

lemma tidy_stored: "tidy v \<Longrightarrow> stored v = v"
  by (intro VoteInfo.equality) (auto simp: tidy_def takeWhile_no_zero)

lemma tidy_of_stored: "fits (removeZeroVote v) \<Longrightarrow> tidy (stored v)"
  unfolding tidy_def fits_def [of "stored v"] fits_removeZero
  by (auto simp: dest: set_takeWhileD intro: order.trans [OF length_takeWhile_le])

lemma tidy_fits: "tidy v \<Longrightarrow> fits (removeZeroVote v)"
  unfolding fits_removeZero
  by (auto simp: tidy_def fits_def om_wf_filter intro: order.trans [OF length_filter_le])

text \<open>Changing the counters of a tidy record leaves it tidy.\<close>

lemma tidy_upd [simp]:
  "tidy (v\<lparr>m_holdVotes := h\<rparr>) = tidy v" "tidy (v\<lparr>m_receivedVote := r\<rparr>) = tidy v" "tidy (v\<lparr>m_isCandidate := c\<rparr>) = tidy v"
  by (simp_all add: tidy_def fits_def)

lemma clean_ledgerD: "clean_ledger L \<Longrightarrow> m_address (L a) = a" "clean_ledger L \<Longrightarrow> tidy (L a)"
  by (simp_all add: clean_ledger_def)

lemma votes_to_0: "tidy v \<Longrightarrow> votes_to c v = 0 \<longleftrightarrow> om_find (m_voteRecord v) c = None"
  by (fastforce simp: votes_to_def tidy_def split: option.splits dest: om_find_SomeD)

lemma votes_to_stored: "om_wf (m_voteRecord v) \<Longrightarrow> votes_to c (stored v) = votes_to c v"
  by (auto simp: votes_to_def om_find_filter split: option.split)


section \<open>The specification\<close>

text \<open>\<open>n\<close> votes of \<open>from\<close> go to the candidate \<open>to\<close>; a negative number takes them back.\<close>

definition give :: "address \<Rightarrow> address \<Rightarrow> u64 \<Rightarrow> ledger \<Rightarrow> ledger" where
  "give from to n L =
     (let M = L(to := (L to)\<lparr>m_receivedVote := m_receivedVote (L to) + n\<rparr>)
      in M(from := stored ((M from)\<lparr>m_holdVotes := m_holdVotes (M from) - n,
           m_voteRecord := om_put to (votes_to to (M from) + n) (m_voteRecord (M from))\<rparr>)))"

definition hold :: "address \<Rightarrow> u64 \<Rightarrow> ledger \<Rightarrow> ledger" where
  "hold a n L = L(a := (L a)\<lparr>m_holdVotes := m_holdVotes (L a) + n\<rparr>)"

definition withdraw :: "address \<Rightarrow> ledger \<Rightarrow> ledger" where
  "withdraw a L =
     (let M = (\<lambda>v. stored (take_back a (L v)))
      in M(a := (M a)\<lparr>m_isCandidate := False, m_receivedVote := 0, m_name := [], m_url := []\<rparr>))"

datatype vote_op =
    Register bytes bytes
  | Deregister
  | Mortgage u64
  | Redeem u64
  | Send address u64
  | Vote address u64
  | RemoveVote address u64

text \<open>\<open>b\<close> is the balance of the caller \<open>a\<close>; \<open>paid\<close> is its balance afterwards.\<close>

fun spec :: "vote_op \<Rightarrow> u256 \<Rightarrow> address \<Rightarrow> ledger \<Rightarrow> bool \<times> ledger" where
  "spec (Register name url) b a L =
     (if m_isCandidate (L a) then (False, L)
      else (True, L(a := (L a)\<lparr>m_name := takeWhile (\<lambda>b. b \<noteq> 0) name, m_url := takeWhile (\<lambda>b. b \<noteq> 0) url,
              m_isCandidate := True\<rparr>)))"
| "spec Deregister b a L = (if m_isCandidate (L a) then (True, withdraw a L) else (False, L))"
| "spec (Mortgage money) b a L = 
     (True, if ucast money \<le> b then hold a (money div VOTES_PRE_ETH) L else L)"
| "spec (Redeem n) b a L = (True, if n \<le> m_holdVotes (L a) then hold a (- n) L else L)"
| "spec (Send to n) b a L =
     (if to = a then (True, L)
      else if m_holdVotes (L a) < n then (False, L)
      else (True, hold to n (hold a (- n) L)))"
| "spec (Vote to n) b a L =
     (if m_holdVotes (L a) < n \<or> (15 \<le> length (m_voteRecord (L a)) \<and> votes_to to (L a) = 0) \<or> \<not> m_isCandidate (L to)
      then (False, L)
      else (True, give a to n L))"
| "spec (RemoveVote to n) b a L =
     (if votes_to to (L a) = 0 \<or> votes_to to (L a) < n \<or> \<not> m_isCandidate (L to)
      then (False, L)
      else (True, give a to (- n) L))"

fun paid :: "vote_op \<Rightarrow> u256 \<Rightarrow> VoteInfo \<Rightarrow> u256" where
  "paid (Mortgage money) b v =
     (if ucast money \<le> b then b - ucast (money div VOTES_PRE_ETH * VOTES_PRE_ETH) else b)"
| "paid (Redeem n) b v = (if n \<le> m_holdVotes v then b + ucast (n * VOTES_PRE_ETH) else b)"
| "paid _ b v = b"

fun exec_vote :: "(h256 \<Rightarrow> h256) \<Rightarrow> pick \<Rightarrow> vote_op \<Rightarrow> address \<Rightarrow> bool stE" where
  "exec_vote sha3 pick (Register name url) a = VoteManager_candidateRegister pick name url a"
| "exec_vote sha3 pick Deregister a = VoteManager_candidateDeregister sha3 pick a"
| "exec_vote sha3 pick (Mortgage money) a = VoteManager_mortgage pick money a"
| "exec_vote sha3 pick (Redeem n) a = VoteManager_redeem pick n a"
| "exec_vote sha3 pick (Send to n) a = VoteManager_send pick to n a"
| "exec_vote sha3 pick (Vote to n) a = VoteManager_vote pick to n a"
| "exec_vote sha3 pick (RemoveVote to n) a = VoteManager_removeVote pick to n a"


section \<open>Runs\<close>

text \<open>From the ledger \<open>L\<close>, \<open>m\<close> returns \<open>r\<close> and leaves the ledger \<open>L'\<close> and all else alone.\<close>

definition runs :: "ledger \<Rightarrow> 'a stE \<Rightarrow> 'a \<Rightarrow> ledger \<Rightarrow> bool" where
  "runs L m r L' \<longleftrightarrow> (\<forall>s. ledger_ok s \<longrightarrow> ledger s = L \<longrightarrow>
     (\<exists>t. m s = (Inr r, t) \<and> ledger_ok t \<and> ledger t = L' \<and> others t = others s))"

lemma runsI:
  assumes "\<And>s. ledger_ok s \<Longrightarrow> ledger s = L \<Longrightarrow> \<exists>t. m s = (Inr r, t) \<and> ledger_ok t \<and> ledger t = L' \<and> others t = others s"
  shows "runs L m r L'"
  using assms unfolding runs_def by blast

lemma runsD:
  assumes "runs L m r L'" "ledger_ok s" "ledger s = L"
  obtains t where "m s = (Inr r, t)" "ledger_ok t" "ledger t = L'" "others t = others s"
  using assms unfolding runs_def by blast

lemma runs_ret: "runs L (ret x) x L"
  by (rule runsI) simp

lemma runs_bind:
  assumes "runs L m x M" "runs M (f x) r L'"
  shows "runs L (bindE m f) r L'"
proof (rule runsI)
  fix s assume s: "ledger_ok s" "ledger s = L"
  obtain t where t: "m s = (Inr x, t)" "ledger_ok t" "ledger t = M" "others t = others s" by (rule runsD [OF assms(1) s])
  obtain u where "f x t = (Inr r, u)" "ledger_ok u" "ledger u = L'" "others u = others t" by (rule runsD [OF assms(2) t(2,3)])
  with t show "\<exists>t. bindE m f s = (Inr r, t) \<and> ledger_ok t \<and> ledger t = L' \<and> others t = others s"
    by (intro exI [of _ u]) (simp add: bindE_def)
qed

lemma runs_then: "runs L m x M \<Longrightarrow> runs M n r L' \<Longrightarrow> runs L (thenE m n) r L'"
  by (simp add: thenE_def runs_bind)

lemma runs_load: "runs L (VoteInfo_load pick a) (L a) L"
proof (rule runsI)
  fix s assume s: "ledger_ok s" "ledger s = L"
  obtain t where "VoteInfo_load pick a s = (Inr (ledger s a), t)" "ledger_ok t" "votes t = votes s" "others t = others s"
    by (rule info_load_run [OF s(1), of pick a])
  with s(2) show "\<exists>t. VoteInfo_load pick a s = (Inr (L a), t) \<and> ledger_ok t \<and> ledger t = L \<and> others t = others s"
    by (auto simp: ledger_def)
qed

lemma runs_save:
  assumes "fits (removeZeroVote v)"
  shows "runs L (VoteInfo_save pick v) () (L(m_address v := stored v))"
proof (rule runsI)
  fix s assume s: "ledger_ok s" "ledger s = L"
  obtain t where "VoteInfo_save pick v s = (Inr (), t)" "ledger_ok t" "others t = others s" "ledger t = (ledger s)(m_address v := stored v)"
    by (rule info_save_run [OF s(1) assms, of pick])
  with s(2) show "\<exists>t. VoteInfo_save pick v s = (Inr (), t) \<and> ledger_ok t \<and> ledger t = L(m_address v := stored v) \<and> others t = others s"
    by auto
qed

lemma runs_load_bind: "runs L (f (L a)) r L' \<Longrightarrow> runs L (bindE (VoteInfo_load pick a) f) r L'"
  by (rule runs_bind [OF runs_load])

lemma runs_save_then:
  "fits (removeZeroVote v) \<Longrightarrow> runs (L(m_address v := stored v)) m r L' \<Longrightarrow> runs L (thenE (VoteInfo_save pick v) m) r L'"
  by (rule runs_then [OF runs_save])

lemma runs_save_tidy:
  assumes "tidy v" "m_address v = a" "runs (L(a := v)) m r L'"
  shows "runs L (thenE (VoteInfo_save pick v) m) r L'"
  using assms(3) by (intro runs_save_then) (simp_all add: tidy_fits tidy_stored assms(1,2))


section \<open>The operations that leave balances alone\<close>

lemma om_put_length: "om_wf m \<Longrightarrow> length (om_put k v m) = (case om_find m k of None \<Rightarrow> Suc (length m) | Some _ \<Rightarrow> length m)"
proof (induction k v m rule: om_put.induct)
  case (2 k v a b m)
  have "k < a \<Longrightarrow> om_find m k = None" using 2(2) by (auto simp: om_wf_Cons om_find_None)
  with 2 show ?case by (cases k a rule: linorder_cases) (auto simp: om_wf_Cons om_find_Cons split: option.split)
qed simp

lemma recordVoteTo_eq:
  "recordVoteTo to n v = v\<lparr>m_voteRecord := om_put to (votes_to to v + n) (m_voteRecord v)\<rparr>"
  by (simp add: recordVoteTo_def votes_to_def split: option.split)

lemma fits_bump:
  assumes "tidy v" "length (m_voteRecord v) < 15 \<or> om_find (m_voteRecord v) to \<noteq> None"
  shows "fits (removeZeroVote (v\<lparr>m_receivedVote := r, m_holdVotes := h, m_voteRecord := om_put to k (m_voteRecord v)\<rparr>))"
proof -
  have v: "fits v" using assms(1) by (simp add: tidy_def)
  then have "length (om_put to k (m_voteRecord v)) \<le> 255"
    using assms(2) by (auto simp: fits_def om_put_length split: option.split)
  with v show ?thesis
    unfolding fits_removeZero by (auto simp: fits_def intro: om_wf_filter order.trans [OF length_filter_le])
qed

lemma fits_bump': 
  assumes "tidy v" "length (m_voteRecord v) < 15 \<or> om_find (m_voteRecord v) to \<noteq> None"
  shows "fits (removeZeroVote (v\<lparr>m_holdVotes := h, m_voteRecord := om_put to k (m_voteRecord v)\<rparr>))"
  using fits_bump [OF assms, where r = "m_receivedVote v" and h = h and k = k] unfolding fits_removeZero by simp

lemma votes_to_upd [simp]:
  "votes_to c (v\<lparr>m_holdVotes := h\<rparr>) = votes_to c v" "votes_to c (v\<lparr>m_receivedVote := r\<rparr>) = votes_to c v"
  by (simp_all add: votes_to_def)

lemma runs_vote:
  assumes L: "clean_ledger L"
  shows "runs L (VoteManager_vote pick to n a) (fst (spec (Vote to n) b a L)) (snd (spec (Vote to n) b a L))"
proof -
  note a = clean_ledgerD [OF L]
  let ?S = "L a"
  show ?thesis
  proof (cases "m_holdVotes ?S < n \<or> (15 \<le> length (m_voteRecord ?S) \<and> votes_to to ?S = 0)")
    case True
    then show ?thesis
      unfolding VoteManager_vote_def Let_def
      by (intro runs_load_bind) (auto simp: votes_to_0 [OF a(2)] intro: runs_ret)
  next
    case False
    then have room: "length (m_voteRecord ?S) < 15 \<or> om_find (m_voteRecord ?S) to \<noteq> None"
      by (auto simp: votes_to_0 [OF a(2)])
    show ?thesis
    proof (cases "m_isCandidate (L to)")
      case no: False
      with False room show ?thesis
        unfolding VoteManager_vote_def Let_def
        by (intro runs_load_bind) (auto intro!: runs_load_bind runs_ret)
    next
      case yes: True
      let ?b = "om_put to (votes_to to ?S + n) (m_voteRecord ?S)"
      show ?thesis
      proof (cases "to = a")
        case self: True
        have "runs L (thenE (VoteInfo_save pick (?S\<lparr>m_receivedVote := m_receivedVote ?S + n, m_holdVotes := m_holdVotes ?S - n,
            m_voteRecord := ?b\<rparr>)) (ret True)) True (give a to n L)"
          using room self fits_bump [OF a(2)]
          by (intro runs_save_then) (auto simp: give_def Let_def a(1) intro: runs_ret)
        with self yes False room show ?thesis
          unfolding VoteManager_vote_def Let_def
          by (intro runs_load_bind) (auto simp: recordVoteTo_eq)
      next
        case other: False
        have "runs L (thenE (VoteInfo_save pick ((L to)\<lparr>m_receivedVote := m_receivedVote (L to) + n\<rparr>))
           (thenE (VoteInfo_save pick (?S\<lparr>m_holdVotes := m_holdVotes ?S - n, m_voteRecord := ?b\<rparr>)) (ret True))) True (give a to n L)"
        proof (rule runs_save_tidy)
          show "runs (L(to := (L to)\<lparr>m_receivedVote := m_receivedVote (L to) + n\<rparr>))
             (thenE (VoteInfo_save pick (?S\<lparr>m_holdVotes := m_holdVotes ?S - n, m_voteRecord := ?b\<rparr>)) (ret True)) True (give a to n L)"
            using room other fits_bump' [OF a(2)]
            by (intro runs_save_then) (auto simp: give_def Let_def a(1) intro: runs_ret)
        qed (simp_all add: a)
        with other yes False room show ?thesis
          unfolding VoteManager_vote_def Let_def
          by (intro runs_load_bind) (auto simp: recordVoteTo_eq intro!: runs_load_bind)
      qed
    qed
  qed
qed

lemma runs_removeVote:
  assumes L: "clean_ledger L"
  shows "runs L (VoteManager_removeVote pick to n a) (fst (spec (RemoveVote to n) b a L)) (snd (spec (RemoveVote to n) b a L))"
proof -
  note a = clean_ledgerD [OF L]
  let ?S = "L a"
  show ?thesis
  proof (cases "votes_to to ?S = 0 \<or> votes_to to ?S < n \<or> \<not> m_isCandidate (L to)")
    case True
    then show ?thesis
      unfolding VoteManager_removeVote_def Let_def
      by (intro runs_load_bind) (auto simp: votes_to_0 [OF a(2)] intro!: runs_load_bind runs_ret)
  next
    case False
    then have room: "om_find (m_voteRecord ?S) to \<noteq> None" by (auto simp: votes_to_0 [OF a(2)])
    let ?b = "om_put to (votes_to to ?S - n) (m_voteRecord ?S)"
    show ?thesis
    proof (cases "to = a")
      case self: True
      have "runs L (thenE (VoteInfo_save pick (?S\<lparr>m_receivedVote := m_receivedVote ?S - n, m_holdVotes := m_holdVotes ?S + n,
          m_voteRecord := ?b\<rparr>)) (ret True)) True (give a to (- n) L)"
        using room self fits_bump [OF a(2)]
        by (intro runs_save_then) (auto simp: give_def Let_def a(1) intro: runs_ret)
      with self False room show ?thesis
        unfolding VoteManager_removeVote_def Let_def
        by (intro runs_load_bind) (auto simp: not_less)
    next
      case other: False
      have "runs L (thenE (VoteInfo_save pick ((L to)\<lparr>m_receivedVote := m_receivedVote (L to) - n\<rparr>))
         (thenE (VoteInfo_save pick (?S\<lparr>m_holdVotes := m_holdVotes ?S + n, m_voteRecord := ?b\<rparr>)) (ret True))) True (give a to (- n) L)"
      proof (rule runs_save_tidy)
        show "runs (L(to := (L to)\<lparr>m_receivedVote := m_receivedVote (L to) - n\<rparr>))
           (thenE (VoteInfo_save pick (?S\<lparr>m_holdVotes := m_holdVotes ?S + n, m_voteRecord := ?b\<rparr>)) (ret True)) True (give a to (- n) L)"
          using room other fits_bump' [OF a(2)]
          by (intro runs_save_then) (auto simp: give_def Let_def a(1) intro: runs_ret)
      qed (simp_all add: a)
      with other False room show ?thesis
        unfolding VoteManager_removeVote_def Let_def
        by (intro runs_load_bind) (auto simp: not_less intro!: runs_load_bind)
    qed
  qed
qed

lemma runs_send:
  assumes L: "clean_ledger L"
  shows "runs L (VoteManager_send pick to n a) (fst (spec (Send to n) b a L)) (snd (spec (Send to n) b a L))"
proof (cases "to = a \<or> m_holdVotes (L a) < n")
  case True
  then show ?thesis unfolding VoteManager_send_def
    by (auto intro!: runs_load_bind runs_ret)
next
  case False
  note a = clean_ledgerD [OF L]
  have "runs L (thenE (VoteInfo_save pick ((L a)\<lparr>m_holdVotes := m_holdVotes (L a) - n\<rparr>))
      (thenE (VoteInfo_save pick ((L to)\<lparr>m_holdVotes := m_holdVotes (L to) + n\<rparr>)) (ret True))) True
      (hold to n (hold a (- n) L))"
    using False
    by (intro runs_save_tidy [where a = a] runs_save_tidy [where a = to]) (auto simp: a hold_def intro: runs_ret)
  with False show ?thesis unfolding VoteManager_send_def
    by (auto simp: not_less intro!: runs_load_bind)
qed

lemma runs_register:
  assumes L: "clean_ledger L" and s: "length name \<le> NameMaxSize" "length url \<le> URLMaxSize"
  shows "runs L (VoteManager_candidateRegister pick name url a) (fst (spec (Register name url) b a L)) (snd (spec (Register name url) b a L))"
proof (cases "m_isCandidate (L a)")
  case True
  then show ?thesis unfolding VoteManager_candidateRegister_def by (auto intro!: runs_load_bind runs_ret)
next
  case False
  note a = clean_ledgerD [OF L]
  let ?v = "(L a)\<lparr>m_name := name, m_url := url, m_isCandidate := True\<rparr>"
  have "fits (removeZeroVote ?v)"
    using tidy_fits [OF a(2), of a] s by (simp add: fits_removeZero)
  moreover have "stored ?v = (L a)\<lparr>m_name := takeWhile (\<lambda>b. b \<noteq> 0) name, m_url := takeWhile (\<lambda>b. b \<noteq> 0) url, m_isCandidate := True\<rparr>"
    using a(2) [of a] by (intro VoteInfo.equality) (simp_all add: tidy_def)
  ultimately show ?thesis using False unfolding VoteManager_candidateRegister_def
    by (auto simp: a(1) intro!: runs_load_bind runs_save_then runs_ret)
qed

end
