(* ===== verification/VoteDeregister.thy ===== *)
theory VoteDeregister
  imports VoteSpec
begin

text \<open>
  \<open>candidateDeregister\<close>: it finds every voter by listing the storage of the ledger, so it
  rests on the hash of storage keys having no collision among them.
\<close>

section \<open>The storage listing\<close>

lemma find_root_listing:
  assumes "inj sha3"
  shows "om_wf r \<Longrightarrow> om_find (foldl (\<lambda>m (k, v). om_put (sha3 k) (k, v) m) m r) (sha3 k) =
     (case om_find r k of Some v \<Rightarrow> Some (k, v) | None \<Rightarrow> om_find m (sha3 k))"
proof (induction r arbitrary: m)
  case (Cons e r)
  obtain j v where e: "e = (j, v)" by fastforce
  have "om_find r j = None" using Cons.prems by (auto simp: e om_wf_Cons om_find_None)
  with Cons e assms show ?case by (auto simp: om_wf_Cons om_find_Cons inj_eq split: option.split)
qed simp

lemma find_merge_overlay:
  assumes "inj sha3"
  shows "om_wf ov \<Longrightarrow> om_find (merge_overlay sha3 ov m) (sha3 k) =
     (case om_find ov k of Some v \<Rightarrow> if v \<noteq> 0 then Some (k, v) else None | None \<Rightarrow> om_find m (sha3 k))"
  unfolding merge_overlay_def
proof (induction ov arbitrary: m)
  case (Cons e r)
  obtain j v where e: "e = (j, v)" by fastforce
  have "om_find r j = None" using Cons.prems by (auto simp: e om_wf_Cons om_find_None)
  with Cons e assms show ?case by (auto simp: om_wf_Cons om_find_Cons inj_eq split: option.split)
qed simp

lemma listing_keys:
  "om_wf m \<Longrightarrow> fst ` set m \<subseteq> range sha3 \<Longrightarrow>
     om_wf (foldl (\<lambda>m (k, v). om_put (sha3 k) (k, v) m) m r) \<and> fst ` set (foldl (\<lambda>m (k, v). om_put (sha3 k) (k, v) m) m r) \<subseteq> range sha3"
  by (induction r arbitrary: m) (simp_all add: om_keys_put split_beta)

lemma om_erase_keys: "fst ` set (om_erase k m) \<subseteq> fst ` set m"
  by (auto simp: om_erase_def)

lemma merge_keys:
  "om_wf m \<Longrightarrow> fst ` set m \<subseteq> range sha3 \<Longrightarrow>
     om_wf (merge_overlay sha3 ov m) \<and> fst ` set (merge_overlay sha3 ov m) \<subseteq> range sha3"
  unfolding merge_overlay_def
proof (induction ov arbitrary: m)
  case (Cons e r)
  obtain j v where e: "e = (j, v)" by fastforce
  have "fst ` set (om_erase (sha3 j) m) \<subseteq> range sha3" using om_erase_keys [of "sha3 j" m] Cons.prems(2) by (rule subset_trans)
  with Cons.IH Cons.prems show ?case by (cases "v = 0") (simp_all add: e om_keys_put)
qed simp

text \<open>Every entry shows the value of its key, and every value that is not zero is listed.\<close>

definition lists :: "(u256 \<Rightarrow> u256) \<Rightarrow> (h256, u256 \<times> u256) omap \<Rightarrow> bool" where
  "lists f m \<longleftrightarrow> (\<forall>p \<in> set m. snd (snd p) = f (fst (snd p))) \<and> (\<forall>k. f k \<noteq> 0 \<longrightarrow> (\<exists>p \<in> set m. fst (snd p) = k))"

lemma listing_lists:
  assumes i: "inj sha3" and x: "acc_wf x"
  shows "lists (acc_stor x) (merge_overlay sha3 (m_storageOverlay x) (foldl (\<lambda>m (k, v). om_put (sha3 k) (k, v) m) [] (m_storageRoot x)))"
    (is "lists _ ?m")
proof -
  let ?r = "foldl (\<lambda>m (k, v). om_put (sha3 k) (k, v) m) [] (m_storageRoot x)"
  have wf: "om_wf (m_storageOverlay x)" "om_wf (m_storageRoot x)" using x by (simp_all add: acc_wf_def)
  have k: "om_wf ?m" "fst ` set ?m \<subseteq> range sha3"
    using merge_keys [of ?r sha3] listing_keys [of "[]" sha3 "m_storageRoot x"] by simp_all
  have f: "om_find ?m (sha3 k) = (case om_find (m_storageOverlay x) k of Some v \<Rightarrow> if v \<noteq> 0 then Some (k, v) else None
      | None \<Rightarrow> (case om_find (m_storageRoot x) k of Some v \<Rightarrow> Some (k, v) | None \<Rightarrow> None))" for k
    unfolding find_merge_overlay [OF i wf(1)] find_root_listing [OF i wf(2)] by (simp split: option.split)
  have "snd (snd p) = acc_stor x (fst (snd p))" if p: "p \<in> set ?m" for p
  proof -
    have "fst p \<in> range sha3" by (rule subsetD [OF k(2) imageI [OF p]])
    then obtain k where e: "fst p = sha3 k" by (rule rangeE)
    have "(fst p, snd p) \<in> set ?m" using p by simp
    then have "om_find ?m (sha3 k) = Some (snd p)" unfolding e om_find_in_set [OF k(1)] .
    then show ?thesis unfolding f
      by (cases "snd p") (auto simp: acc_stor_def lookup0_def split: option.splits if_splits)
  qed
  moreover have "\<exists>p \<in> set ?m. fst (snd p) = k" if "acc_stor x k \<noteq> 0" for k
  proof -
    have "om_find ?m (sha3 k) = Some (k, acc_stor x k)"
      using that by (auto simp: f acc_stor_def lookup0_def split: option.splits)
    then show ?thesis using om_find_SomeD by force
  qed
  ultimately show ?thesis by (simp add: lists_def)
qed

lemma listing_run:
  assumes "inj sha3" "ledger_ok s"
  obtains m t where "storage_map sha3 pick VoteInfoAddress s = (Inr m, t)" "ledger_ok t" "votes t = votes s" "others t = others s"
    "lists (votes s) m"
proof -
  have ok: "st_ok s" "view s VoteInfoAddress \<noteq> None" using assms(2) by (simp_all add: ledger_ok_def has_account_def)
  show thesis
  proof (rule accountE_run [OF ok(1), of pick VoteInfoAddress])
    fix x t assume t: "accountE pick VoteInfoAddress s = (Inr x, t)" "st_ok t" "same_abs s t"
      "map_option vw x = view s VoteInfoAddress" "om_find (m_cache t) VoteInfoAddress = x"
    then obtain y where y: "x = Some y" "view s VoteInfoAddress = Some (vw y)" using ok(2) by auto
    have wf: "acc_wf y" using st_okD(4) [OF t(2)] t(5) y(1) by simp
    have "votes s = acc_stor y" using y(2) by (simp add: stor_def fun_eq_iff)
    with listing_lists [OF assms(1) wf] has_account_same [OF _ t(2,3), of VoteInfoAddress VoteInfoAddress] assms(2) t(1) y(1) show thesis
      by (intro that [of _ t]) (simp_all add: storage_map_def bindE_def ledger_ok_def others_def)
  qed
qed


section \<open>The list of voters\<close>

lemma info_loop_run:
  assumes "ledger_ok s" "\<forall>p \<in> set ps. snd (snd p) = votes s (fst (snd p))" "om_wf infos"
  shows "\<exists>m t. info_loop pick ps infos s = (Inr m, t) \<and> ledger_ok t \<and> votes t = votes s \<and> others t = others s \<and> om_wf m \<and>
    (\<forall>a. om_find m a = (if \<exists>p \<in> set ps. fst (snd p) = addressToU256 a 0 then Some (ledger s a) else om_find infos a))"
  using assms
proof (induction ps arbitrary: infos s)
  case Nil
  then show ?case by simp
next
  case (Cons p ps)
  let ?k = "fst (snd p)"
  show ?case
  proof (cases "first_page ?k")
    case None
    then have "?k \<noteq> addressToU256 a 0" for a using first_page_iff [of ?k a] by auto
    with None Cons.IH [OF Cons.prems(1) _ Cons.prems(3)] Cons.prems(2) show ?thesis by simp
  next
    case (Some a)
    then have k: "?k = addressToU256 a 0" by (simp add: first_page_iff)
    have key: "addressToU256 a 0 = addressToU256 b 0 \<longleftrightarrow> a = b" for b by (simp add: addressToU256_eq)
    let ?v = "h256_bytes (snd (snd p))"
    have v: "?v = h256_bytes (votes s (addressToU256 a 0))" using Cons.prems(2) k by simp
    obtain d t where t: "LoadFixedSizeBtyes pick VoteInfoAddress a (info_size (?v ! 0)) 1 ?v s = (Inr d, t)"
      "initFromBytes a d = ledger s a" "ledger_ok t" "votes t = votes s" "others t = others s"
      using load_rest_run [OF Cons.prems(1) v refl, of pick] by blast
    have l: "ledger t = ledger s" using t(4) by (simp add: ledger_def)
    have "om_wf (om_put a (ledger s a) infos)" using Cons.prems(3) by simp
    from Cons.IH [OF t(3) _ this] Cons.prems(2) obtain m u where
      u: "info_loop pick ps (om_put a (ledger s a) infos) t = (Inr m, u)" "ledger_ok u" "votes u = votes t" "others u = others t" "om_wf m"
        "\<forall>b. om_find m b = (if \<exists>p \<in> set ps. fst (snd p) = addressToU256 b 0 then Some (ledger t b)
           else om_find (om_put a (ledger s a) infos) b)"
      using t(4) by auto
    have big: "info_size (?v ! 0) > 32" using info_size_bounds(1) [of "?v ! 0"] by simp
    have "info_loop pick (p # ps) infos s = (Inr m, u)"
      using Some big t(1,2) u(1) by (simp add: Let_def bindE_def)
    moreover have "\<forall>b. om_find m b = (if \<exists>q \<in> set (p # ps). fst (snd q) = addressToU256 b 0 then Some (ledger s b) else om_find infos b)"
      using u(6) k key l by auto
    ultimately show ?thesis using u(2-5) t(4,5) by auto
  qed
qed

lemma filter_put_zero:
  "om_wf m \<Longrightarrow> filter (\<lambda>p. snd p \<noteq> 0) (om_put c (0::u64) m) = filter (\<lambda>p. snd p \<noteq> 0) (om_erase c m)"
  by (rule om_eqI) (auto simp: om_wf_filter om_find_filter split: option.split)

lemma fits_take_back: "tidy v \<Longrightarrow> fits (removeZeroVote (take_back c v))"
proof -
  assume v: "tidy v"
  then have w: "om_wf (m_voteRecord v)" by (simp add: tidy_def fits_def)
  have "length (filter (\<lambda>p. snd p \<noteq> 0) (om_erase c (m_voteRecord v))) \<le> length (m_voteRecord v)"
    unfolding om_erase_def by (rule order.trans [OF length_filter_le length_filter_le])
  with v w show ?thesis
    unfolding fits_removeZero by (simp add: take_back_def filter_put_zero om_wf_filter tidy_def fits_def)
qed

lemma runs_take_back:
  assumes "distinct (map fst ps)" "\<forall>p \<in> set ps. snd p = L (fst p) \<and> m_address (snd p) = fst p \<and> tidy (snd p)"
  shows "runs L (forE ps (\<lambda>p. VoteInfo_save pick (take_back c (snd p)))) ()
    (\<lambda>b. if b \<in> fst ` set ps then stored (take_back c (L b)) else L b)"
  using assms
proof (induction ps arbitrary: L)
  case Nil
  show ?case by (simp only: forE.simps list.set image_empty empty_iff if_False runs_ret)
next
  case (Cons p ps)
  let ?M = "L(fst p := stored (take_back c (snd p)))"
  have n: "fst p \<notin> fst ` set ps" using Cons.prems(1) by auto
  have pa: "m_address (snd p) = fst p" and pt: "tidy (snd p)" using Cons.prems(2) by auto
  have "runs ?M (forE ps (\<lambda>p. VoteInfo_save pick (take_back c (snd p)))) ()
    (\<lambda>b. if b \<in> fst ` set ps then stored (take_back c (?M b)) else ?M b)"
    using Cons.prems n by (intro Cons.IH) (auto simp: image_iff)
  moreover have "(\<lambda>b. if b \<in> fst ` set ps then stored (take_back c (?M b)) else ?M b) =
      (\<lambda>b. if b \<in> fst ` set (p # ps) then stored (take_back c (L b)) else L b)"
    using n Cons.prems(2) by (auto simp: fun_eq_iff image_iff)
  moreover have "m_address (take_back c (snd p)) = fst p" using pa by (simp add: take_back_def)
  ultimately show ?case unfolding forE.simps by (intro runs_save_then fits_take_back [OF pt]) (simp only:)
qed

lemma le_bytes_zero: "le_bytes n 0 = replicate n 0"
  by (induction n) simp_all

lemma info_of_zero:
  assumes "f (addressToU256 a 0) = 0"
  shows "m_voteRecord (info_of f a) = []"
proof -
  have z: "h256_bytes (0 :: h256) = replicate 32 0" by (simp add: h256_bytes_def le_bytes_zero)
  let ?sz = "info_size 0"
  have "[0..<page_num ?sz] = 0 # [1..<page_num ?sz]"
    using info_size_bounds(3) [of 0] by (simp add: upt_conv_Cons)
  then have "concat (map (\<lambda>i. take (page_width ?sz i) (h256_bytes (f (addressToU256 a i)))) [0..<page_num ?sz]) ! 0 = 0"
    using info_size_bounds(4) [of 0] assms by (simp add: z nth_append)
  with assms show ?thesis by (simp add: info_of_def Let_def z initFromBytes_def)
qed

lemma stored_take_back_none: "tidy v \<Longrightarrow> m_voteRecord v = [] \<Longrightarrow> stored (take_back c v) = v"
  by (intro VoteInfo.equality) (simp_all add: take_back_def votes_to_def tidy_def takeWhile_no_zero)

lemma deregister_run:
  assumes L: "clean_ledger (ledger s)" and i: "inj sha3" and s: "ledger_ok s"
  shows "\<exists>t. VoteManager_candidateDeregister sha3 pick a s = (Inr (fst (spec Deregister b a (ledger s))), t) \<and> ledger_ok t \<and>
    ledger t = snd (spec Deregister b a (ledger s)) \<and> others t = others s"
proof -
  let ?L = "ledger s"
  note a = clean_ledgerD [OF L]
  obtain t0 where t0: "VoteInfo_load pick a s = (Inr (?L a), t0)" "ledger_ok t0" "votes t0 = votes s" "others t0 = others s"
    by (rule info_load_run [OF s])
  show ?thesis
  proof (cases "m_isCandidate (?L a)")
    case False
    with t0 show ?thesis by (simp add: VoteManager_candidateDeregister_def bindE_def ledger_def)
  next
    case True
    obtain m t1 where t1: "storage_map sha3 pick VoteInfoAddress t0 = (Inr m, t1)" "ledger_ok t1" "votes t1 = votes t0" "others t1 = others t0"
      "lists (votes t0) m" by (rule listing_run [OF i t0(2)])
    have e: "\<forall>p \<in> set m. snd (snd p) = votes t1 (fst (snd p))" using t1(3,5) by (simp add: lists_def)
    obtain im t2 where t2: "info_loop pick m [] t1 = (Inr im, t2)" "ledger_ok t2" "votes t2 = votes t1" "others t2 = others t1" "om_wf im"
      "\<forall>b. om_find im b = (if \<exists>p \<in> set m. fst (snd p) = addressToU256 b 0 then Some (ledger t1 b) else None)"
      using info_loop_run [OF t1(2) e, of "[]" pick] by auto
    have l: "ledger t1 = ?L" "ledger t2 = ?L" using t0(3) t1(3) t2(3) by (simp_all add: ledger_def)
    have im: "\<forall>p \<in> set im. snd p = ?L (fst p) \<and> m_address (snd p) = fst p \<and> tidy (snd p)"
    proof
      fix p assume "p \<in> set im"
      then have "om_find im (fst p) = Some (snd p)" using om_find_in_set [OF t2(5)] by simp
      then have "snd p = ?L (fst p)" using t2(6) l(1) by (simp split: if_splits)
      with a show "snd p = ?L (fst p) \<and> m_address (snd p) = fst p \<and> tidy (snd p)" by simp
    qed
    define M where "M = (\<lambda>b. if b \<in> fst ` set im then stored (take_back a (?L b)) else ?L b)"
    have Mb: "M b = stored (take_back a (?L b))" for b
    proof (cases "b \<in> fst ` set im")
      case False
      then have "om_find im b = None" by (simp add: om_find_None)
      then have "\<not> (\<exists>p \<in> set m. fst (snd p) = addressToU256 b 0)" using t2(6) by (auto split: if_splits)
      then have "votes s (addressToU256 b 0) = 0" using t1(5) t0(3) unfolding lists_def by metis
      then have "m_voteRecord (?L b) = []" by (simp add: ledger_def info_of_zero)
      with False stored_take_back_none [OF a(2)] show ?thesis by (simp add: M_def)
    qed (simp add: M_def)
    have sv: "runs ?L (forE im (\<lambda>p. VoteInfo_save pick (take_back a (snd p)))) () M"
      unfolding M_def by (rule runs_take_back [OF om_wf_distinct [OF t2(5)] im])
    have tv: "tidy (M a)" unfolding Mb by (rule tidy_of_stored [OF fits_take_back [OF a(2)]])
    have ma: "m_address (M a) = a" unfolding Mb by (simp add: take_back_def a(1))
    let ?v = "(M a)\<lparr>m_isCandidate := False, m_receivedVote := 0, m_name := [], m_url := []\<rparr>"
    have w: "withdraw a ?L = M(a := ?v)" by (simp add: withdraw_def Let_def Mb fun_eq_iff)
    have "runs M (thenE (VoteInfo_save pick ?v) (ret True)) True (M(a := ?v))"
      using tv ma by (intro runs_save_tidy [where a = a] runs_ret) (simp_all add: tidy_def fits_def)
    then have "runs ?L (thenE (forE im (\<lambda>p. VoteInfo_save pick (take_back a (snd p))))
        (bindE (VoteInfo_load pick a) (\<lambda>v. thenE (VoteInfo_save pick (v\<lparr>m_isCandidate := False, m_receivedVote := 0, m_name := [], m_url := []\<rparr>))
          (ret True)))) True (withdraw a ?L)"
      unfolding w by (intro runs_then [OF sv] runs_load_bind)
    then obtain t where t: "thenE (forE im (\<lambda>p. VoteInfo_save pick (take_back a (snd p))))
        (bindE (VoteInfo_load pick a) (\<lambda>v. thenE (VoteInfo_save pick (v\<lparr>m_isCandidate := False, m_receivedVote := 0, m_name := [], m_url := []\<rparr>))
          (ret True))) t2 = (Inr True, t)" "ledger_ok t" "ledger t = withdraw a ?L" "others t = others t2"
      by (rule runsD [OF _ t2(2) l(2)])
    have "VoteManager_candidateDeregister sha3 pick a s = (Inr True, t)"
      using t0(1) t1(1) t2(1) t(1) True
      by (simp add: VoteManager_candidateDeregister_def getVoteInfoMap_def bindE_def)
    with t t0(4) t1(4) t2(4) True show ?thesis by simp
  qed
qed

end
