(* ===== verification/VoteProps.thy ===== *)
theory VoteProps
  imports VoteDeregister
begin

text \<open>
  Correctness of the vote ledger: every operation of \<open>VoteManager\<close> refines its
  specification, candidates have received exactly the votes recorded for them, and votes
  only appear and disappear with the money they are bought and redeemed for.
\<close>

section \<open>Money\<close>

lemma others_view:
  assumes "others t = others s"
  shows "bal t = bal s" "view t a = None \<longleftrightarrow> view s a = None"
proof -
  have v: "(view t)(VoteInfoAddress := map_option (\<lambda>v. v\<lparr>v_stor := (\<lambda>_. 0)\<rparr>) (view t VoteInfoAddress)) =
      (view s)(VoteInfoAddress := map_option (\<lambda>v. v\<lparr>v_stor := (\<lambda>_. 0)\<rparr>) (view s VoteInfoAddress))"
    using assms by (simp add: others_def but_storage_def)
  have e: "map_option v_balance (view t c) = map_option v_balance (view s c)" for c
  proof (cases "c = VoteInfoAddress")
    case True
    from arg_cong [OF fun_cong [OF v, of c], of "map_option v_balance"] True show ?thesis
      by (simp add: option.map_comp o_def)
  next
    case False
    with fun_cong [OF v, of c] show ?thesis by simp
  qed
  have "bal t c = bal s c" for c
    using e [of c] by (auto simp: bal_def split: option.splits)
  then show "bal t = bal s" ..
  show "view t a = None \<longleftrightarrow> view s a = None" using e [of a] by auto
qed

lemma addBalance_ledger:
  assumes s: "ledger_ok s" "view s a \<noteq> None"
  obtains t where "addBalance pick a n s = (Inr (), t)" "ledger_ok t" "votes t = votes s" "bal t = (bal s)(a := bal s a + n)"
    "\<And>c. view t c = None \<longleftrightarrow> view s c = None"
proof -
  obtain v where v: "view s a = Some v" using s(2) by blast
  have ok: "st_ok s" using s(1) by (simp add: ledger_ok_def has_account_def)
  obtain t cs where t: "addBalance pick a n s = (Inr (), t)" "acc_step s t a (v\<lparr>v_balance := v_balance v + n\<rparr>) cs"
    by (rule addBalance_run [OF ok v])
  then have w: "view t = (view s)(a := Some (v\<lparr>v_balance := v_balance v + n\<rparr>))" "st_ok t" by (simp_all add: acc_step_def)
  have "ledger_ok t" using s(1) w by (simp add: ledger_ok_def has_account_def)
  moreover have "votes t = votes s" using v by (auto simp: stor_def w fun_eq_iff)
  moreover have "bal t = (bal s)(a := bal s a + n)" using v by (auto simp: bal_def w fun_eq_iff)
  moreover have "view t c = None \<longleftrightarrow> view s c = None" for c using v by (simp add: w)
  ultimately show thesis using t(1) by (intro that)
qed

text \<open>What an operation promises about the ledger and the balances.\<close>

definition does :: "State \<Rightarrow> vote_op \<Rightarrow> address \<Rightarrow> bool stE \<Rightarrow> bool" where
  "does s op a m \<longleftrightarrow> (\<exists>t. m s = (Inr (fst (spec op (bal s a) a (ledger s))), t) \<and> ledger_ok t \<and>
     ledger t = snd (spec op (bal s a) a (ledger s)) \<and> bal t = (bal s)(a := paid op (bal s a) (ledger s a)) \<and>
     (\<forall>c. view t c = None \<longleftrightarrow> view s c = None))"

lemma runs_does:
  assumes "runs (ledger s) m (fst (spec op (bal s a) a (ledger s))) (snd (spec op (bal s a) a (ledger s)))" "ledger_ok s"
    and p: "paid op (bal s a) (ledger s a) = bal s a"
  shows "does s op a m"
proof -
  obtain t where "m s = (Inr (fst (spec op (bal s a) a (ledger s))), t)" "ledger_ok t"
    "ledger t = snd (spec op (bal s a) a (ledger s))" "others t = others s"
    by (rule runsD [OF assms(1,2) refl])
  with others_view [of t s] p show ?thesis unfolding does_def by auto
qed

lemma redeem_does:
  assumes s: "ledger_ok s" "view s a \<noteq> None" and L: "clean_ledger (ledger s)"
  shows "does s (Redeem n) a (VoteManager_redeem pick n a)"
proof -
  let ?L = "ledger s"
  note a = clean_ledgerD [OF L]
  obtain t0 where t0: "VoteInfo_load pick a s = (Inr (?L a), t0)" "ledger_ok t0" "votes t0 = votes s" "others t0 = others s"
    by (rule info_load_run [OF s(1)])
  note o0 = others_view [OF t0(4)]
  show ?thesis
  proof (cases "n \<le> m_holdVotes (?L a)")
    case False
    with t0 o0 show ?thesis unfolding does_def VoteManager_redeem_def by (simp add: bindE_def thenE_def ledger_def)
  next
    case True
    obtain t1 where t1: "addBalance pick a (ucast (n * VOTES_PRE_ETH)) t0 = (Inr (), t1)" "ledger_ok t1" "votes t1 = votes t0"
      "bal t1 = (bal t0)(a := bal t0 a + ucast (n * VOTES_PRE_ETH))" "\<And>c. view t1 c = None \<longleftrightarrow> view t0 c = None"
      using addBalance_ledger [OF t0(2), of a pick] s(2) o0(2) by metis
    let ?v = "(?L a)\<lparr>m_holdVotes := m_holdVotes (?L a) - n\<rparr>"
    have tv: "tidy ?v" by (simp add: a)
    obtain t2 where t2: "VoteInfo_save pick ?v t1 = (Inr (), t2)" "ledger_ok t2" "others t2 = others t1"
      "ledger t2 = (ledger t1)(m_address ?v := stored ?v)"
      by (rule info_save_run [OF t1(2) tidy_fits [OF tv]])
    have "ledger t1 = ?L" using t1(3) t0(3) by (simp add: ledger_def)
    then have "ledger t2 = hold a (- n) ?L" using t2(4) tidy_stored [OF tv] by (simp add: hold_def a)
    with True t0(1) t1 t2(1,2) o0 others_view [OF t2(3)] show ?thesis
      unfolding does_def VoteManager_redeem_def by (intro exI [of _ t2]) (simp add: bindE_def thenE_def)
  qed
qed

lemma div_mult_le_word: "(money div k * k :: u64) \<le> money"
  by (metis word_div_mult_le mult.commute)

lemma unat_ucast64: "unat (ucast (x :: u64) :: u256) = unat x"
proof -
  have "unat x < 2 ^ 256" by (rule less_trans [OF unsigned_less [where 'a = nat, of x]]) simp
  then show ?thesis by (simp add: unsigned_ucast_eq take_bit_nat_eq_self)
qed

lemma subBalance_ledger:
  assumes s: "ledger_ok s" "view s a \<noteq> None" and n: "n \<le> bal s a"
  shows "\<exists>t. subBalance pick a n s = (Inr (), t) \<and> ledger_ok t \<and> votes t = votes s \<and>
    bal t = (bal s)(a := bal s a - n) \<and> (\<forall>c. view t c = None \<longleftrightarrow> view s c = None)"
proof (cases "n = 0")
  case True
  with s(1) show ?thesis by (simp add: subBalance_def fun_upd_idem)
next
  case False
  have ok: "st_ok s" using s(1) by (simp add: ledger_ok_def has_account_def)
  obtain v where v: "view s a = Some v" using s(2) by blast
  show ?thesis
  proof (rule accountE_run [OF ok, of pick a])
    fix x u assume u: "accountE pick a s = (Inr x, u)" "st_ok u" "same_abs s u" "map_option vw x = view s a"
    then obtain y where y: "x = Some y" "vw y = v" using v by auto
    have hu: "ledger_ok u" "stor u = stor s" "view u = view s"
      using has_account_same [OF _ u(2,3), of VoteInfoAddress VoteInfoAddress] s(1) u(3)
      by (simp_all add: ledger_ok_def same_abs_def)
    have bu: "bal u = bal s" using hu(3) by (simp add: bal_def fun_eq_iff)
    have "m_balance y = bal s a" using v y(2) by (simp add: bal_def) (metis vw_sel(3))
    then have enough: "\<not> m_balance y < n" using n by simp
    obtain t where "addBalance pick a (0 - n) u = (Inr (), t)" "ledger_ok t" "votes t = votes u"
      "bal t = (bal u)(a := bal u a + (0 - n))" "\<And>c. view t c = None \<longleftrightarrow> view u c = None"
      using addBalance_ledger [OF hu(1), of a pick "0 - n"] v hu(3) by (metis option.distinct(1))
    with u(1) y(1) enough False hu bu show ?thesis
      by (intro exI [of _ t]) (simp add: subBalance_def bindE_def thenE_def throwIf_def)
  qed
qed

lemma mortgage_does:
  assumes s: "ledger_ok s" "view s a \<noteq> None" and L: "clean_ledger (ledger s)"
  shows "does s (Mortgage money) a (VoteManager_mortgage pick money a)"
proof -
  let ?L = "ledger s" let ?m = "money div VOTES_PRE_ETH * VOTES_PRE_ETH"
  note a = clean_ledgerD [OF L]
  have ok: "st_ok s" using s(1) by (simp add: ledger_ok_def has_account_def)
  obtain t0 where t0: "balance pick a s = (Inr (bal s a), t0)" "st_ok t0" "same_abs s t0" by (rule balance_run [OF ok])
  have h: "has_account VoteInfoAddress t0" "votes t0 = votes s" "others t0 = others s"
    using has_account_same [OF _ t0(2,3), of VoteInfoAddress VoteInfoAddress] s(1) by (simp_all add: ledger_ok_def others_def)
  note o0 = others_view [OF h(3)]
  show ?thesis
  proof (cases "ucast money \<le> bal s a")
    case False
    with t0(1) h o0 show ?thesis unfolding does_def VoteManager_mortgage_def
      by (simp add: bindE_def thenE_def ledger_def ledger_ok_def)
  next
    case True
    obtain t1 where t1: "VoteInfo_load pick a t0 = (Inr (ledger t0 a), t1)" "ledger_ok t1" "votes t1 = votes t0" "others t1 = others t0"
      by (rule info_load_run [OF h(1) [folded ledger_ok_def]])
    note o1 = others_view [OF t1(4)]
    have l0: "ledger t0 = ?L" using h(2) by (simp add: ledger_def)
    have "(ucast ?m :: u256) \<le> ucast money"
      using div_mult_le_word [of money VOTES_PRE_ETH] by (simp only: word_le_nat_alt unat_ucast64)
    with True o0(1) o1(1) have "ucast ?m \<le> bal t1 a" by simp
    moreover have "view t1 a \<noteq> None" using s(2) o0(2) [of a] o1(2) [of a] by simp
    ultimately obtain t2 where t2: "subBalance pick a (ucast ?m) t1 = (Inr (), t2)" "ledger_ok t2" "votes t2 = votes t1"
        "bal t2 = (bal t1)(a := bal t1 a - ucast ?m)" "\<forall>c. view t2 c = None \<longleftrightarrow> view t1 c = None"
      using subBalance_ledger [OF t1(2), of a "ucast ?m" pick] by blast
    let ?v = "(?L a)\<lparr>m_holdVotes := m_holdVotes (?L a) + money div VOTES_PRE_ETH\<rparr>"
    have tv: "tidy ?v" by (simp add: a)
    obtain t3 where t3: "VoteInfo_save pick ?v t2 = (Inr (), t3)" "ledger_ok t3" "others t3 = others t2"
      "ledger t3 = (ledger t2)(m_address ?v := stored ?v)"
      by (rule info_save_run [OF t2(2) tidy_fits [OF tv]])
    have "ledger t2 = ?L" using t2(3) t1(3) h(2) by (simp add: ledger_def)
    then have "ledger t3 = hold a (money div VOTES_PRE_ETH) ?L" using t3(4) tidy_stored [OF tv] by (simp add: hold_def a)
    with True t0(1) t1(1) t2 t3(1,2) o0 o1 others_view [OF t3(3)] l0 show ?thesis
      unfolding does_def VoteManager_mortgage_def by (intro exI [of _ t3]) (simp add: bindE_def thenE_def Let_def)
  qed
qed

fun op_fits :: "vote_op \<Rightarrow> bool" where
  "op_fits (Register name url) \<longleftrightarrow> length name \<le> NameMaxSize \<and> length url \<le> URLMaxSize"
| "op_fits _ \<longleftrightarrow> True"

lemma exec_vote_does:
  assumes s: "ledger_ok s" "clean_ledger (ledger s)" "view s a \<noteq> None" and i: "inj sha3" and f: "op_fits op"
  shows "does s op a (exec_vote sha3 pick op a)"
proof (cases op)
  case Deregister
  obtain t where "VoteManager_candidateDeregister sha3 pick a s = (Inr (fst (spec Deregister (bal s a) a (ledger s))), t)" "ledger_ok t"
    "ledger t = snd (spec Deregister (bal s a) a (ledger s))" "others t = others s"
    using deregister_run [OF s(2) i s(1), of pick a "bal s a"] by blast
  with others_view [of t s] Deregister show ?thesis unfolding does_def by (intro exI [of _ t]) auto
next
  case (Mortgage m) with mortgage_does [OF s(1,3,2)] show ?thesis by simp
next
  case (Redeem n) with redeem_does [OF s(1,3,2)] show ?thesis by simp
next
  case (Register n u) with f runs_register [OF s(2)] s(1) show ?thesis by (auto intro!: runs_does)
next
  case (Send c n) with runs_send [OF s(2)] s(1) show ?thesis by (auto intro!: runs_does simp del: spec.simps)
next
  case (Vote c n) with runs_vote [OF s(2)] s(1) show ?thesis by (auto intro!: runs_does simp del: spec.simps)
next
  case (RemoveVote c n) with runs_removeVote [OF s(2)] s(1) show ?thesis by (auto intro!: runs_does simp del: spec.simps)
qed

end
