(* ===== verification/VoteInv.thy ===== *)
theory VoteInv
  imports VoteProps
begin

text \<open>The invariant of the ledger and the accounting of votes.\<close>

section \<open>The invariant\<close>

definition ledger_inv :: "ledger \<Rightarrow> bool" where
  "ledger_inv L \<longleftrightarrow> clean_ledger L \<and> (\<forall>a. length (m_voteRecord (L a)) \<le> 15) \<and>
     (\<forall>c. m_receivedVote (L c) = (\<Sum>v \<in> UNIV. votes_to c (L v))) \<and>
     (\<forall>c v. votes_to c (L v) \<noteq> 0 \<longrightarrow> m_isCandidate (L c))"

text \<open>All votes that are held or recorded, as a number that does not wrap around.\<close>

definition total_votes :: "ledger \<Rightarrow> int" where
  "total_votes L = (\<Sum>v \<in> UNIV. uint (m_holdVotes (L v))) + (\<Sum>v \<in> UNIV. \<Sum>c \<in> UNIV. uint (votes_to c (L v)))"

fun minted :: "vote_op \<Rightarrow> u256 \<Rightarrow> VoteInfo \<Rightarrow> int" where
  "minted (Mortgage money) b v = (if ucast money \<le> b then uint (money div VOTES_PRE_ETH) else 0)"
| "minted (Redeem n) b v = (if n \<le> m_holdVotes v then - uint n else 0)"
| "minted _ b v = 0"

lemma ledger_invD:
  assumes "ledger_inv L"
  shows "clean_ledger L" "length (m_voteRecord (L a)) \<le> 15" "m_receivedVote (L c) = (\<Sum>v \<in> UNIV. votes_to c (L v))"
    "votes_to c (L v) \<noteq> 0 \<Longrightarrow> m_isCandidate (L c)" "om_wf (m_voteRecord (L a))" "tidy (L a)" "m_address (L a) = a"
  using assms by (auto simp: ledger_inv_def clean_ledger_def tidy_def fits_def)

lemma sum_bump: "(\<Sum>v \<in> UNIV. f v + (if v = (a :: address) then n else (0 :: u64))) = (\<Sum>v \<in> UNIV. f v) + n"
  by (simp add: sum.distrib)

lemma uint_add_fits: "uint x + uint y < 2 ^ 64 \<Longrightarrow> uint (x + y :: u64) = uint x + uint y"
  by (simp add: uint_word_ariths)

lemma uint_sub_fits:
  assumes "y \<le> x"
  shows "uint (x + - y :: u64) = uint x - uint y"
proof -
  have "0 \<le> uint x - uint y" using assms by (simp add: word_le_def)
  moreover have "uint x < 2 ^ 64" using unsigned_less [of x, where ?'a = int] by simp
  then have "uint x - uint y < 2 ^ 64" using unsigned_greater_eq [of y, where ?'a = int] by linarith
  ultimately show ?thesis by (simp add: uint_word_ariths)
qed

lemma sum_bump_int:
  assumes "uint (f a + n) = uint (f a) + d"
  shows "(\<Sum>v \<in> UNIV. uint (f v + (if v = (a :: address) then n else (0 :: u64)))) = (\<Sum>v \<in> UNIV. uint (f v)) + d"
proof -
  have "uint (f v + (if v = a then n else 0)) = uint (f v) + (if v = a then d else 0)" for v using assms by simp
  then show ?thesis by (simp add: sum.distrib)
qed

lemma total_bound: "uint (m_holdVotes (L v)) + uint (votes_to c (L v)) \<le> total_votes L"
proof -
  have "uint (votes_to c (L v)) \<le> (\<Sum>c \<in> UNIV. uint (votes_to c (L v)))" by (rule member_le_sum) simp_all
  also have "\<dots> \<le> (\<Sum>v \<in> UNIV. \<Sum>c \<in> UNIV. uint (votes_to c (L v)))" by (rule member_le_sum) (simp_all add: sum_nonneg)
  finally have 1: "uint (votes_to c (L v)) \<le> (\<Sum>v \<in> UNIV. \<Sum>c \<in> UNIV. uint (votes_to c (L v)))" .
  have "uint (m_holdVotes (L v)) \<le> (\<Sum>v \<in> UNIV. uint (m_holdVotes (L v)))" by (rule member_le_sum) simp_all
  with 1 show ?thesis by (simp add: total_votes_def)
qed

lemma hold_bound: "uint (m_holdVotes (L v)) \<le> total_votes L"
  using total_bound [of L v 0] unsigned_greater_eq [of "votes_to 0 (L v)", where ?'a = int] by linarith

text \<open>A ledger that differs only in who holds how many votes.\<close>

lemma inv_hold:
  assumes "ledger_inv L"
  shows "ledger_inv (hold a n L)"
    "uint (m_holdVotes (L a) + n) = uint (m_holdVotes (L a)) + d \<Longrightarrow> total_votes (hold a n L) = total_votes L + d"
proof -
  have v: "votes_to c (hold a n L v) = votes_to c (L v)" for c v by (simp add: hold_def)
  have h: "m_holdVotes (hold a n L v) = m_holdVotes (L v) + (if v = a then n else 0)" for v by (simp add: hold_def)
  have r: "m_receivedVote (hold a n L v) = m_receivedVote (L v)" "m_isCandidate (hold a n L v) = m_isCandidate (L v)"
    "m_voteRecord (hold a n L v) = m_voteRecord (L v)" "tidy (hold a n L v) = tidy (L v)" "m_address (hold a n L v) = m_address (L v)"
    for v by (simp_all add: hold_def)
  show "ledger_inv (hold a n L)" using assms by (simp add: ledger_inv_def clean_ledger_def v r)
  show "total_votes (hold a n L) = total_votes L + d" if "uint (m_holdVotes (L a) + n) = uint (m_holdVotes (L a)) + d"
    unfolding total_votes_def v h sum_bump_int [of "\<lambda>v. m_holdVotes (L v)", OF that] by simp
qed

lemma give_sel:
  assumes L: "ledger_inv L"
  shows "votes_to c (give a to n L v) = votes_to c (L v) + (if v = a then (if c = to then n else 0) else 0)"
    "m_holdVotes (give a to n L v) = m_holdVotes (L v) + (if v = a then - n else 0)"
    "m_receivedVote (give a to n L v) = m_receivedVote (L v) + (if v = to then n else 0)"
    "m_isCandidate (give a to n L v) = m_isCandidate (L v)"
    "m_address (give a to n L v) = v"
proof -
  have w: "om_wf (m_voteRecord (L v))" for v by (rule ledger_invD(5) [OF L])
  show "votes_to c (give a to n L v) = votes_to c (L v) + (if v = a then (if c = to then n else 0) else 0)"
    by (auto simp: give_def Let_def votes_to_stored w) (simp_all add: votes_to_def)
  show "m_holdVotes (give a to n L v) = m_holdVotes (L v) + (if v = a then - n else 0)"
    "m_receivedVote (give a to n L v) = m_receivedVote (L v) + (if v = to then n else 0)"
    "m_isCandidate (give a to n L v) = m_isCandidate (L v)" "m_address (give a to n L v) = v"
    by (auto simp: give_def Let_def ledger_invD(7) [OF L])
qed

lemma give_record:
  assumes L: "ledger_inv L" and room: "length (m_voteRecord (L a)) < 15 \<or> votes_to to (L a) \<noteq> 0"
  shows "tidy (give a to n L v)" "length (m_voteRecord (give a to n L v)) \<le> 15"
proof -
  note l = ledger_invD [OF L]
  have rm: "length (m_voteRecord (L a)) < 15 \<or> om_find (m_voteRecord (L a)) to \<noteq> None"
    using room votes_to_0 [OF l(6), of to a] by auto
  have "length (om_put to k (m_voteRecord (L a))) \<le> 15" for k
    using rm l(2) [of a] by (auto simp: om_put_length [OF l(5)] split: option.split)
  then have f: "length (filter P (om_put to k (m_voteRecord (L a)))) \<le> 15" for k P
    by (rule order.trans [OF length_filter_le])
  show "length (m_voteRecord (give a to n L v)) \<le> 15"
    using l(2) f by (cases "to = a"; cases "v = a") (simp_all add: give_def Let_def)
  show "tidy (give a to n L v)"
    using l(6) tidy_of_stored [OF fits_bump' [OF l(6) rm]] tidy_of_stored [OF fits_bump [OF l(6) rm]]
    by (cases "to = a"; cases "v = a") (simp_all add: give_def Let_def)
qed

lemma inv_give:
  assumes L: "ledger_inv L" and c: "m_isCandidate (L to)" and room: "length (m_voteRecord (L a)) < 15 \<or> votes_to to (L a) \<noteq> 0"
  shows "ledger_inv (give a to n L)"
    "uint (m_holdVotes (L a) + - n) = uint (m_holdVotes (L a)) + - d \<Longrightarrow>
     uint (votes_to to (L a) + n) = uint (votes_to to (L a)) + d \<Longrightarrow> total_votes (give a to n L) = total_votes L"
proof -
  note l = ledger_invD [OF L] and g = give_sel [OF L] and r = give_record [OF L room]
  have s: "(\<Sum>v \<in> UNIV. votes_to c (give a to n L v)) = (\<Sum>v \<in> UNIV. votes_to c (L v)) + (if c = to then n else 0)" for c
    unfolding g sum_bump ..
  show "ledger_inv (give a to n L)"
    unfolding ledger_inv_def clean_ledger_def
  proof (intro conjI allI impI)
    show "m_receivedVote (give a to n L d) = (\<Sum>v \<in> UNIV. votes_to d (give a to n L v))" for d
      unfolding s g(3) l(3) ..
    show "m_isCandidate (give a to n L d)" if "votes_to d (give a to n L v) \<noteq> 0" for d v
      using that l(4) [of d v] c unfolding g by (cases "d = to"; cases "v = a") auto
  qed (use g(5) r in auto)
  assume h: "uint (m_holdVotes (L a) + - n) = uint (m_holdVotes (L a)) + - d"
    and v: "uint (votes_to to (L a) + n) = uint (votes_to to (L a)) + d"
  have "(\<Sum>c \<in> UNIV. uint (votes_to c (give a to n L v))) = (\<Sum>c \<in> UNIV. uint (votes_to c (L v))) + (if v = a then d else 0)" for v
    unfolding g using sum_bump_int [of "\<lambda>c. votes_to c (L a)", OF v] by (cases "v = a") simp_all
  then show "total_votes (give a to n L) = total_votes L"
    unfolding total_votes_def g(2) sum_bump_int [of "\<lambda>v. m_holdVotes (L v)", OF h] by (simp add: sum.distrib)
qed

lemma withdraw_sel:
  assumes L: "ledger_inv L"
  shows "votes_to c (withdraw a L v) = (if c = a then 0 else votes_to c (L v))"
    "m_holdVotes (withdraw a L v) = m_holdVotes (L v) + votes_to a (L v)"
    "m_receivedVote (withdraw a L v) = (if v = a then 0 else m_receivedVote (L v))"
    "m_isCandidate (withdraw a L v) = (m_isCandidate (L v) \<and> v \<noteq> a)"
    "m_address (withdraw a L v) = v" "tidy (withdraw a L v)" "length (m_voteRecord (withdraw a L v)) \<le> 15"
proof -
  note l = ledger_invD [OF L]
  have st: "votes_to c (stored (take_back a (L v))) = (if c = a then 0 else votes_to c (L v))" for c v
    using l(5) [of v] by (simp add: votes_to_stored take_back_def) (simp add: votes_to_def)
  have up: "votes_to c (x\<lparr>m_isCandidate := False, m_receivedVote := 0, m_name := [], m_url := []\<rparr>) = votes_to c x" for c x
    by (simp add: votes_to_def)
  show "votes_to c (withdraw a L v) = (if c = a then 0 else votes_to c (L v))"
    by (simp add: withdraw_def Let_def st up)
  show "m_holdVotes (withdraw a L v) = m_holdVotes (L v) + votes_to a (L v)"
    "m_receivedVote (withdraw a L v) = (if v = a then 0 else m_receivedVote (L v))"
    "m_isCandidate (withdraw a L v) = (m_isCandidate (L v) \<and> v \<noteq> a)" "m_address (withdraw a L v) = v"
    by (simp_all add: withdraw_def Let_def take_back_def l(7))
  have t: "tidy (stored (take_back a (L v)))" for v by (rule tidy_of_stored [OF fits_take_back [OF l(6)]])
  have "tidy (x\<lparr>m_isCandidate := False, m_receivedVote := 0, m_name := [], m_url := []\<rparr>)" if "tidy x" for x
    using that by (simp add: tidy_def fits_def)
  with t show "tidy (withdraw a L v)" by (simp add: withdraw_def Let_def)
  have "length (m_voteRecord (stored (take_back a (L v)))) \<le> length (m_voteRecord (L v))" for v
    unfolding stored_sel take_back_def om_erase_def
    by (simp add: filter_put_zero l(5) om_erase_def)
  then show "length (m_voteRecord (withdraw a L v)) \<le> 15"
    using l(2) by (auto simp: withdraw_def Let_def simp del: stored_sel intro: order.trans)
qed

lemma inv_withdraw:
  assumes L: "ledger_inv L"
  shows "ledger_inv (withdraw a L)" "total_votes L < 2 ^ 64 \<Longrightarrow> total_votes (withdraw a L) = total_votes L"
proof -
  note l = ledger_invD [OF L] and w = withdraw_sel [OF L]
  show "ledger_inv (withdraw a L)"
    unfolding ledger_inv_def clean_ledger_def
  proof (intro conjI allI impI)
    show "m_receivedVote (withdraw a L d) = (\<Sum>v \<in> UNIV. votes_to d (withdraw a L v))" for d
      unfolding w l(3) by simp
    show "m_isCandidate (withdraw a L d)" if "votes_to d (withdraw a L v) \<noteq> 0" for d v
      using that l(4) [of d v] unfolding w by (auto split: if_splits)
  qed (use w in auto)
  assume b: "total_votes L < 2 ^ 64"
  have "(\<Sum>c \<in> UNIV. uint (votes_to c (L v))) = uint (votes_to a (L v)) + (\<Sum>c \<in> UNIV. uint (if c = a then 0 else votes_to c (L v)))" for v
    using sum.remove [of "UNIV :: address set" a "\<lambda>c. uint (votes_to c (L v))"]
      sum.remove [of "UNIV :: address set" a "\<lambda>c. uint (if c = a then 0 else votes_to c (L v))"] by simp
  moreover have "uint (m_holdVotes (L v) + votes_to a (L v)) = uint (m_holdVotes (L v)) + uint (votes_to a (L v))" for v
    using b total_bound [of L v a] by (intro uint_add_fits) simp
  ultimately show "total_votes (withdraw a L) = total_votes L"
    unfolding total_votes_def w by (simp add: sum.distrib)
qed

lemma register_inv:
  fixes a :: address
  assumes L: "ledger_inv L" and o: "op_fits (Register name url)"
  defines "M \<equiv> L(a := (L a)\<lparr>m_name := takeWhile (\<lambda>b. b \<noteq> 0) name, m_url := takeWhile (\<lambda>b. b \<noteq> 0) url, m_isCandidate := True\<rparr>)"
  shows "ledger_inv M" "total_votes M = total_votes L"
proof -
  note l = ledger_invD [OF L]
  have v: "votes_to c (M v) = votes_to c (L v)" for c v by (simp add: votes_to_def M_def)
  have f: "m_receivedVote (M v) = m_receivedVote (L v)" "m_holdVotes (M v) = m_holdVotes (L v)" "m_address (M v) = v"
    "m_voteRecord (M v) = m_voteRecord (L v)" "m_isCandidate (L v) \<Longrightarrow> m_isCandidate (M v)" for v
    using l(7) by (simp_all add: M_def)
  have t: "tidy (M v)" for v
    using l(6) [of v] o
    by (auto simp: tidy_def fits_def M_def dest: set_takeWhileD intro: order.trans [OF length_takeWhile_le])
  show "ledger_inv M"
    unfolding ledger_inv_def clean_ledger_def v f(1,3,4) using l(2,3,4) f(5) t by blast
  show "total_votes M = total_votes L" unfolding total_votes_def v f(2) ..
qed

lemma inv_spec:
  assumes L: "ledger_inv L" and o: "op_fits op"
  shows "ledger_inv (snd (spec op b a L))"
proof (cases op)
  case (Send c n)
  have "ledger_inv (hold a (- n) L)" by (rule inv_hold [OF L])
  from Send inv_hold(1) [OF this, of c n] L show ?thesis by simp
next
  case (Vote c n)
  with inv_give(1) [OF L, of c a n] L show ?thesis by (auto simp: not_le)
next
  case (RemoveVote c n)
  with inv_give(1) [OF L, of c a "- n"] L show ?thesis by auto
qed (use L o register_inv(1) [OF L] inv_hold(1) [OF L] inv_withdraw(1) [OF L] in \<open>simp_all del: op_fits.simps\<close>)

lemma total_spec:
  assumes L: "ledger_inv L" and o: "op_fits op"
    and b: "total_votes L < 2 ^ 64" "total_votes L + minted op b (L a) < 2 ^ 64"
  shows "total_votes (snd (spec op b a L)) = total_votes L + minted op b (L a)"
proof (cases op)
  case (Register name url)
  with register_inv(2) [OF L] o show ?thesis by (simp del: op_fits.simps)
next
  case Deregister with inv_withdraw(2) [OF L b(1)] show ?thesis by simp
next
  case (Mortgage m)
  have "uint (m_holdVotes (L a) + m div VOTES_PRE_ETH) = uint (m_holdVotes (L a)) + uint (m div VOTES_PRE_ETH)" if "ucast m \<le> b"
    using b(2) that hold_bound [of L a] Mortgage by (intro uint_add_fits) simp
  with inv_hold(2) [OF L] Mortgage show ?thesis by simp
next
  case (Redeem n)
  then show ?thesis using inv_hold(2) [OF L, of a "- n" "- uint n"] uint_sub_fits [of n "m_holdVotes (L a)"] by simp
next
  case (Send c n)
  have i: "ledger_inv (hold a (- n) L)" by (rule inv_hold [OF L])
  show ?thesis
  proof (cases "c = a \<or> m_holdVotes (L a) < n")
    case False
    then have t: "total_votes (hold a (- n) L) = total_votes L - uint n"
      using inv_hold(2) [OF L, of a "- n" "- uint n"] uint_sub_fits [of n "m_holdVotes (L a)"] by (simp add: not_less)
    have "uint (m_holdVotes (hold a (- n) L c) + n) = uint (m_holdVotes (hold a (- n) L c)) + uint n"
      using t b(1) hold_bound [of "hold a (- n) L" c] by (intro uint_add_fits) simp
    with inv_hold(2) [OF i, of c n "uint n"] t Send False show ?thesis by simp
  qed (use Send in auto)
next
  case (Vote c n)
  have "n \<le> m_holdVotes (L a) \<Longrightarrow> uint (votes_to c (L a) + n) = uint (votes_to c (L a)) + uint n"
    using b(1) total_bound [of L a c] by (intro uint_add_fits) (simp add: word_le_def)
  with Vote inv_give(2) [OF L, of c a n "uint n"] uint_sub_fits [of n "m_holdVotes (L a)"] show ?thesis by (auto simp: not_le)
next
  case (RemoveVote c n)
  have "n \<le> votes_to c (L a) \<Longrightarrow> uint (m_holdVotes (L a) + n) = uint (m_holdVotes (L a)) + uint n"
    using b(1) total_bound [of L a c] by (intro uint_add_fits) (simp add: word_le_def)
  with RemoveVote inv_give(2) [OF L, of c a "- n" "- uint n"] uint_sub_fits [of n "votes_to c (L a)"] show ?thesis
    by (auto simp: not_less)
qed


section \<open>Theorems\<close>

lemma blank_ledger:
  assumes "\<And>k. f k = 0"
  shows "info_of f a = \<lparr>m_address = a, m_isCandidate = False, m_receivedVote = 0, m_name = [], m_url = [],
    m_holdVotes = 0, m_voteRecord = []\<rparr>"
proof -
  have z: "h256_bytes (0 :: h256) = replicate 32 0" by (simp add: h256_bytes_def le_bytes_zero)
  have sz: "info_size 0 = 178" "page_num 178 = 6" by (simp_all add: info_sizes page_num_def)
  have "concat (map (\<lambda>i. take (page_width 178 i) (replicate 32 (0::u8))) [0..<6]) = replicate 178 0"
    by (simp add: upt_rec [of _ 6] page_width_def page_num_def flip: replicate_add)
  then show ?thesis
    by (simp add: info_of_def assms z sz initFromBytes_def BasicSize_def NameMaxSize_def URLMaxSize_def c_string_def bytes_u64_def)
qed

definition wit_ledger :: State where
  "wit_ledger = \<lparr>m_state = [(0x21, \<lparr>st_nonce = 0, st_balance = 0, st_root = [], st_codeHash = [1]\<rparr>),
       (0x55, \<lparr>st_nonce = 1, st_balance = 10 ^ 18, st_root = [], st_codeHash = []\<rparr>),
       (0x66, \<lparr>st_nonce = 1, st_balance = 0, st_root = [], st_codeHash = []\<rparr>)],
     m_cache = [], m_unchangedCacheEntries = [], m_nonExistingAccountsCache = [], m_touched = [], m_accountStartNonce = 0,
     m_changeLog = []\<rparr>"

lemma wit_ledger_ok: "ledger_ok wit_ledger" "view wit_ledger 0x55 \<noteq> None" "view wit_ledger 0x66 \<noteq> None"
proof -
  have "st_ok wit_ledger"
    by (auto simp: st_ok_def wit_ledger_def dirty_def view_def om_wf_def om_find_def split: if_splits)
  then show "ledger_ok wit_ledger"
    by (simp add: ledger_ok_def has_account_def view_def base_def wit_ledger_def om_find_def VoteInfoAddress_def)
  show "view wit_ledger 0x55 \<noteq> None" "view wit_ledger 0x66 \<noteq> None"
    by (simp_all add: view_def base_def wit_ledger_def om_find_def)
qed

lemma wit_ledger_blank: "ledger wit_ledger a = \<lparr>m_address = a, m_isCandidate = False, m_receivedVote = 0, m_name = [], m_url = [],
    m_holdVotes = 0, m_voteRecord = []\<rparr>"
  unfolding ledger_def
  by (rule blank_ledger)
    (simp add: stor_def view_def base_def wit_ledger_def om_find_def VoteInfoAddress_def load_account_def acc_stor_def
      dead_account_def lookup0_def)

lemma wit_ledger_inv: "ledger_inv (ledger wit_ledger)"
  by (auto simp: ledger_inv_def clean_ledger_def wit_ledger_blank tidy_def fits_def votes_to_def)

text \<open>
  C34. Saving a vote record and loading it gives the record back (without empty entries, strings
  cut at a NUL), and every other address still loads the record it had.
\<close>

theorem vote_info_roundtrip:
  assumes "ledger_ok s" "length (m_name v) \<le> NameMaxSize" "length (m_url v) \<le> URLMaxSize" "om_wf (m_voteRecord v)"
    "length (m_voteRecord v) \<le> 255"
  shows "\<exists>t. VoteInfo_save pick v s = (Inr (), t) \<and>
    fst (VoteInfo_load pick' (m_address v) t) = Inr (v\<lparr>m_voteRecord := filter (\<lambda>p. snd p \<noteq> 0) (m_voteRecord v),
      m_name := takeWhile (\<lambda>b. b \<noteq> 0) (m_name v), m_url := takeWhile (\<lambda>b. b \<noteq> 0) (m_url v)\<rparr>) \<and>
    (\<forall>b. b \<noteq> m_address v \<longrightarrow> fst (VoteInfo_load pick' b t) = fst (VoteInfo_load pick' b s))"
proof -
  have f: "fits (removeZeroVote v)"
    using assms(2-5) unfolding fits_removeZero by (auto intro: om_wf_filter order.trans [OF length_filter_le])
  obtain t where t: "VoteInfo_save pick v s = (Inr (), t)" "ledger_ok t" "ledger t = (ledger s)(m_address v := stored v)"
    by (rule info_save_run [OF assms(1) f])
  have l: "fst (VoteInfo_load pick' b u) = Inr (ledger u b)" if "ledger_ok u" for u b
    by (rule info_load_run [OF that, of pick' b]) simp
  have st: "stored v = v\<lparr>m_voteRecord := filter (\<lambda>p. snd p \<noteq> 0) (m_voteRecord v),
      m_name := takeWhile (\<lambda>b. b \<noteq> 0) (m_name v), m_url := takeWhile (\<lambda>b. b \<noteq> 0) (m_url v)\<rparr>"
    by (intro VoteInfo.equality) simp_all
  show ?thesis using t l [OF assms(1)] l [OF t(2)] st by (intro exI [of _ t]) simp
qed

theorem vote_info_roundtrip_witness:
  "\<exists>t. VoteInfo_save (\<lambda>_. 0) \<lparr>m_address = 0x55, m_isCandidate = True, m_receivedVote = 7, m_name = [65, 66], m_url = [67],
      m_holdVotes = 9, m_voteRecord = [(0x55, 3), (0x66, 0), (0x77, 5)]\<rparr> wit_ledger = (Inr (), t) \<and>
    fst (VoteInfo_load (\<lambda>_. 0) 0x55 t) = Inr \<lparr>m_address = 0x55, m_isCandidate = True, m_receivedVote = 7, m_name = [65, 66],
      m_url = [67], m_holdVotes = 9, m_voteRecord = [(0x55, 3), (0x77, 5)]\<rparr>"
  using vote_info_roundtrip [OF wit_ledger_ok(1), where pick = "\<lambda>_. 0" and pick' = "\<lambda>_. 0" and
      v = "\<lparr>m_address = 0x55, m_isCandidate = True, m_receivedVote = 7, m_name = [65, 66], m_url = [67],
      m_holdVotes = 9, m_voteRecord = [(0x55, 3), (0x66, 0), (0x77, 5)]\<rparr>"]
  by (fastforce simp: NameMaxSize_def URLMaxSize_def om_wf_def)

text \<open>
  C3. Every operation of \<open>VoteManager\<close>, called by an account that exists, ends without an
  exception, returns what the specification says, changes the ledger exactly as the
  specification does, and changes no balance but the caller's, to the amount specified.
\<close>

theorem vote_manager_refines:
  assumes "ledger_ok s" "clean_ledger (ledger s)" "view s a \<noteq> None" "inj sha3" "op_fits op"
  shows "\<exists>t. exec_vote sha3 pick op a s = (Inr (fst (spec op (bal s a) a (ledger s))), t) \<and> ledger_ok t \<and>
    ledger t = snd (spec op (bal s a) a (ledger s)) \<and> bal t = (bal s)(a := paid op (bal s a) (ledger s a))"
  using exec_vote_does [OF assms] unfolding does_def by blast

lemma wit_ledger_clean: "clean_ledger (ledger wit_ledger)"
  using wit_ledger_inv by (simp add: ledger_inv_def)

theorem vote_manager_refines_witness:
  "\<exists>t. exec_vote id (\<lambda>_. 0) (Mortgage (5 * 10 ^ 16 + 1)) 0x55 wit_ledger = (Inr True, t) \<and>
     m_holdVotes (ledger t 0x55) = 5 \<and> bal t 0x55 = 95 * 10 ^ 16"
proof -
  have b: "bal wit_ledger 0x55 = 10 ^ 18"
    by (simp add: bal_def view_def base_def wit_ledger_def om_find_def load_account_def)
  obtain t where t: "exec_vote id (\<lambda>_. 0) (Mortgage (5 * 10 ^ 16 + 1)) 0x55 wit_ledger
      = (Inr (fst (spec (Mortgage (5 * 10 ^ 16 + 1)) (bal wit_ledger 0x55) 0x55 (ledger wit_ledger))), t)"
    "ledger t = snd (spec (Mortgage (5 * 10 ^ 16 + 1)) (bal wit_ledger 0x55) 0x55 (ledger wit_ledger))"
    "bal t = (bal wit_ledger)(0x55 := paid (Mortgage (5 * 10 ^ 16 + 1)) (bal wit_ledger 0x55) (ledger wit_ledger 0x55))"
    using vote_manager_refines [OF wit_ledger_ok(1) wit_ledger_clean wit_ledger_ok(2) inj_on_id, of "Mortgage (5 * 10 ^ 16 + 1)" "\<lambda>_. 0"] by auto
  then show ?thesis by (intro exI [of _ t]) (simp add: b hold_def wit_ledger_blank VOTES_PRE_ETH_def)
qed

text \<open>A sequence of calls, each with its sender.\<close>

definition exec_votes :: "(h256 \<Rightarrow> h256) \<Rightarrow> pick \<Rightarrow> (address \<times> vote_op) list \<Rightarrow> unit stE" where
  "exec_votes sha3 pick calls = forE calls (\<lambda>c. thenE (exec_vote sha3 pick (snd c) (fst c)) (ret ()))"

lemma exec_votes_inv:
  assumes "ledger_ok s" "ledger_inv (ledger s)" "inj sha3" "\<forall>c \<in> set calls. view s (fst c) \<noteq> None \<and> op_fits (snd c)"
  shows "\<exists>t. exec_votes sha3 pick calls s = (Inr (), t) \<and> ledger_ok t \<and> ledger_inv (ledger t)"
  using assms
proof (induction calls arbitrary: s)
  case Nil
  then show ?case by (auto simp: exec_votes_def)
next
  case (Cons c calls)
  have "does s (snd c) (fst c) (exec_vote sha3 pick (snd c) (fst c))"
    using Cons.prems ledger_invD(1) by (intro exec_vote_does) auto
  then obtain r u where u: "exec_vote sha3 pick (snd c) (fst c) s = (Inr r, u)" "ledger_ok u"
    "ledger u = snd (spec (snd c) (bal s (fst c)) (fst c) (ledger s))" "\<forall>c. view u c = None \<longleftrightarrow> view s c = None"
    unfolding does_def by blast
  have "ledger_inv (ledger u)" unfolding u(3) using inv_spec [OF Cons.prems(2)] Cons.prems(4) by simp
  moreover have "\<forall>c \<in> set calls. view u (fst c) \<noteq> None \<and> op_fits (snd c)" using Cons.prems(4) u(4) by simp
  ultimately obtain t where "exec_votes sha3 pick calls u = (Inr (), t)" "ledger_ok t" "ledger_inv (ledger t)"
    using Cons.IH [OF u(2)] Cons.prems(3) by blast
  with u(1) show ?case by (auto simp: exec_votes_def thenE_def bindE_def)
qed

text \<open>
  C10. After any calls to \<open>VoteManager\<close> every candidate has received exactly the votes recorded
  for it by all voters, no votes are recorded for anyone who is not a candidate, and nobody
  votes for more than fifteen.
\<close>

theorem received_votes_exact:
  assumes "ledger_ok s" "ledger_inv (ledger s)" "inj sha3" "\<forall>c \<in> set calls. view s (fst c) \<noteq> None \<and> op_fits (snd c)"
  shows "\<exists>t. exec_votes sha3 pick calls s = (Inr (), t) \<and>
    (\<forall>c. m_receivedVote (ledger t c) = (\<Sum>v \<in> UNIV. votes_to c (ledger t v))) \<and>
    (\<forall>c v. votes_to c (ledger t v) \<noteq> 0 \<longrightarrow> m_isCandidate (ledger t c)) \<and>
    (\<forall>a. length (m_voteRecord (ledger t a)) \<le> 15)"
  using exec_votes_inv [OF assms, of pick] unfolding ledger_inv_def by blast

theorem received_votes_exact_witness:
  "\<exists>t. exec_votes id (\<lambda>_. 0) [(0x55, Register [65] [66, 67, 68, 69, 70]), (0x55, Mortgage (10 ^ 17)), (0x55, Vote 0x55 4),
      (0x55, Send 0x66 3), (0x66, Vote 0x55 2)] wit_ledger = (Inr (), t) \<and>
    m_receivedVote (ledger t 0x55) = (\<Sum>v \<in> UNIV. votes_to 0x55 (ledger t v))"
proof -
  have "\<forall>c \<in> set [(0x55, Register [65] [66, 67, 68, 69, 70]), (0x55, Mortgage (10 ^ 17)), (0x55, Vote 0x55 4),
      (0x55, Send 0x66 3), (0x66, Vote 0x55 2)]. view wit_ledger (fst c) \<noteq> None \<and> op_fits (snd c)"
    using wit_ledger_ok by (simp add: NameMaxSize_def URLMaxSize_def)
  from received_votes_exact [OF wit_ledger_ok(1) wit_ledger_inv inj_on_id this, of "\<lambda>_. 0"] show ?thesis by blast
qed

text \<open>
  C33. While there are fewer than \<open>2 ^ 64\<close> votes, counted without wrapping around, no call
  creates or destroys any, except that a mortgage adds the votes it pays for and a redemption
  removes the votes it redeems: nobody spends votes they do not have.
\<close>

theorem votes_accounted:
  assumes "ledger_ok s" "ledger_inv (ledger s)" "view s a \<noteq> None" "inj sha3" "op_fits op"
    "exec_vote sha3 pick op a s = (r, t)"
    "total_votes (ledger s) < 2 ^ 64" "total_votes (ledger s) + minted op (bal s a) (ledger s a) < 2 ^ 64"
  shows "total_votes (ledger t) = total_votes (ledger s) + minted op (bal s a) (ledger s a)"
proof -
  have "does s op a (exec_vote sha3 pick op a)"
    using assms ledger_invD(1) [OF assms(2)] by (intro exec_vote_does)
  with assms(6) have "ledger t = snd (spec op (bal s a) a (ledger s))" unfolding does_def by auto
  with total_spec [OF assms(2,5,7,8)] show ?thesis by simp
qed

theorem votes_accounted_witness:
  "total_votes (ledger (snd (exec_vote id (\<lambda>_. 0) (Mortgage (10 ^ 17)) 0x55 wit_ledger))) = 10"
proof -
  have b: "bal wit_ledger 0x55 = 10 ^ 18"
    by (simp add: bal_def view_def base_def wit_ledger_def om_find_def load_account_def)
  have z: "total_votes (ledger wit_ledger) = 0" by (simp add: total_votes_def wit_ledger_blank votes_to_def)
  have m: "minted (Mortgage (10 ^ 17)) (bal wit_ledger 0x55) (ledger wit_ledger 0x55) = 10"
    by (simp add: b VOTES_PRE_ETH_def)
  show ?thesis
    using votes_accounted [OF wit_ledger_ok(1) wit_ledger_inv wit_ledger_ok(2) inj_on_id, of "Mortgage (10 ^ 17)" "\<lambda>_. 0",
        OF _ prod.collapse [symmetric]] unfolding z m by simp
qed

text \<open>
  C36. \<open>redeem\<close> multiplies in 64 bits: redeeming up to 1844 votes pays what they cost, and
  redeeming more pays less than that.
\<close>

theorem redeem_pays:
  assumes "ledger_ok s" "clean_ledger (ledger s)" "view s a \<noteq> None" "n \<le> m_holdVotes (ledger s a)"
  shows "\<exists>t. VoteManager_redeem pick n a s = (Inr True, t) \<and>
    (\<exists>m. bal t a = bal s a + of_nat m \<and> (if unat n \<le> 1844 then m = unat n * 10 ^ 16 else m < unat n * 10 ^ 16))"
proof -
  have "does s (Redeem n) a (VoteManager_redeem pick n a)" by (rule redeem_does [OF assms(1,3,2)])
  then obtain t where t: "VoteManager_redeem pick n a s = (Inr True, t)" "bal t a = bal s a + ucast (n * VOTES_PRE_ETH)"
    using assms(4) unfolding does_def by auto
  have "unat (n * VOTES_PRE_ETH) = unat n * 10 ^ 16 mod 2 ^ 64"
    by (simp add: unat_word_ariths VOTES_PRE_ETH_def)
  moreover have "unat n * 10 ^ 16 mod 2 ^ 64 < unat n * 10 ^ 16" if "1844 < unat n"
    by (rule less_le_trans [OF mod_less_divisor]) (use that in simp_all)
  ultimately have "if unat n \<le> 1844 then unat (n * VOTES_PRE_ETH) = unat n * 10 ^ 16 else unat (n * VOTES_PRE_ETH) < unat n * 10 ^ 16"
    by auto
  moreover have "(ucast (n * VOTES_PRE_ETH) :: u256) = of_nat (unat (n * VOTES_PRE_ETH))" by (simp only: of_nat_unat)
  ultimately show ?thesis using t by metis
qed

theorem redeem_pays_witness:
  "\<exists>s t m. m_holdVotes (ledger s 0x55) = 1845 \<and> VoteManager_redeem (\<lambda>_. 0) 1845 0x55 s = (Inr True, t) \<and>
     bal t 0x55 = bal s 0x55 + of_nat m \<and> m < 1845 * 10 ^ 16"
proof -
  let ?v = "(ledger wit_ledger 0x55)\<lparr>m_holdVotes := 1845\<rparr>"
  have tv: "tidy ?v" using wit_ledger_clean by (simp add: clean_ledger_def)
  obtain s where s: "ledger_ok s" "others s = others wit_ledger" "ledger s = (ledger wit_ledger)(m_address ?v := stored ?v)"
    by (rule info_save_run [OF wit_ledger_ok(1) tidy_fits [OF tv], of "\<lambda>_. 0"])
  have "m_address ?v = 0x55" by (simp add: wit_ledger_blank)
  with s(3) have l: "ledger s = (ledger wit_ledger)(0x55 := ?v)" by (simp only: tidy_stored [OF tv])
  then have c: "clean_ledger (ledger s)" using wit_ledger_clean tv by (simp add: clean_ledger_def)
  have h: "m_holdVotes (ledger s 0x55) = 1845" by (simp add: l)
  have v: "view s 0x55 \<noteq> None" using others_view(2) [OF s(2)] wit_ledger_ok(2) by simp
  have "(1845 :: u64) \<le> m_holdVotes (ledger s 0x55)" using h by simp
  from redeem_pays [OF s(1) c v this, of "\<lambda>_. 0"] h show ?thesis by auto
qed

end
