(* ===== verification/StateMap.thy ===== *)
theory StateMap
  imports VoteInfo
begin

text \<open>
  Objects kept in a storage listing (\<open>libevm/Vote.cpp\<close>): \<open>StateMap\<close> with its byte
  encodings and pages, the older vote records \<open>Vote\<close> and the proof of work answers
  \<open>POW_Operation\<close>, with \<open>VoteDelegate\<close> that writes the changed pages back to the state.
  The listing and the map of changes are shared by reference between all objects built on
  them; they are the state of the computations here. \<open>sha3\<close> is the Keccak hash of a byte
  string, \<open>recover\<close> and \<open>sign\<close> are the signature functions of secp256k1 and \<open>jump\<close> the
  table of proof of work hashes.
\<close>

section \<open>Encodings\<close>

record maps =
  m_map :: "(h256, u256 \<times> u256) omap"
  m_mapChange :: "(u256, u256) omap"

type_synonym 'a mapE = "(eth_exn, maps, 'a) exc"

definition uint64_tToBytes :: "u64 \<Rightarrow> bytes" where
  "uint64_tToBytes n = map (\<lambda>i. of_nat (unat n div 8 ^ i mod 8)) [0..<8]"

definition bytesToUint64_t :: "bytes \<Rightarrow> (eth_exn, 's, u64) exc" where
  "bytesToUint64_t bs =
     (if length bs \<noteq> 8 then throw LengthError
      else ret (foldr (\<lambda>b res. res * 8 + ucast b) bs 0))"

definition expand :: "address \<Rightarrow> nat \<Rightarrow> u256" where
  "expand a number =
     bytes_h256 (addr_bytes a @ map (\<lambda>i. of_nat (number div 8 ^ i mod 8)) [0..<8] @ replicate 4 0)"


section \<open>Pages\<close>

definition put_page :: "(bytes \<Rightarrow> h256) \<Rightarrow> u256 \<Rightarrow> h256 \<Rightarrow> maps \<Rightarrow> maps" where
  "put_page sha3 key page m = m\<lparr>m_map := om_put (sha3 (h256_bytes key)) (key, page) (m_map m),
     m_mapChange := om_put key page (m_mapChange m)\<rparr>"

definition get_page :: "(bytes \<Rightarrow> h256) \<Rightarrow> u256 \<Rightarrow> maps \<Rightarrow> h256" where
  "get_page sha3 key m = (case om_find (m_map m) (sha3 (h256_bytes key)) of None \<Rightarrow> 0 | Some p \<Rightarrow> snd p)"

definition saveInMaps :: "(bytes \<Rightarrow> h256) \<Rightarrow> address \<Rightarrow> bytes \<Rightarrow> unit mapE" where
  "saveInMaps sha3 a data =
     (let page = length data div 32;
          segment = length data mod 32;
          lastPage = drop (page * 32) data @ replicate (32 - segment) 0
      in thenE (forE [0..<page] (\<lambda>i. updE (put_page sha3 (expand a i) (bytes_h256 (take 32 (drop (i * 32) data))))))
               (updE (put_page sha3 (expand a page) (bytes_h256 (take 32 lastPage)))))"

definition loadFromMap :: "(bytes \<Rightarrow> h256) \<Rightarrow> address \<Rightarrow> nat \<Rightarrow> maps \<Rightarrow> bytes" where
  "loadFromMap sha3 a sz m =
     (let page = sz div 32;
          segment = sz mod 32
      in concat (map (\<lambda>i. h256_bytes (get_page sha3 (expand a i) m)) [0..<page])
           @ take segment (h256_bytes (get_page sha3 (expand a page) m)))"


section \<open>Vote\<close>

record Vote =
  vt_address :: address
  vt_isCandidate :: bool
  vt_votedNumber :: u64
  vt_unAssignNumber :: u64
  vt_assignNumber :: u64
  vt_isVoted :: bool
  vt_voteTo :: address
  vt_receivedVoteNumber :: u64

definition Vote_size :: nat where "Vote_size = 1 + 8 + 8 + 8 + 1 + 20 + 8"

definition Vote_loadImpl :: "address \<Rightarrow> bytes \<Rightarrow> (eth_exn, 's, Vote) exc" where
  "Vote_loadImpl a bs =
     bindE (bytesToUint64_t (take 8 (drop 1 bs))) (\<lambda>votedNumber.
     bindE (bytesToUint64_t (take 8 (drop 9 bs))) (\<lambda>unAssignNumber.
     bindE (bytesToUint64_t (take 8 (drop 17 bs))) (\<lambda>assignNumber.
     bindE (bytesToUint64_t (take 8 (drop 46 bs))) (\<lambda>receivedVoteNumber.
     ret \<lparr>vt_address = a, vt_isCandidate = (bs ! 0 \<noteq> 0), vt_votedNumber = votedNumber,
       vt_unAssignNumber = unAssignNumber, vt_assignNumber = assignNumber, vt_isVoted = (bs ! 25 \<noteq> 0),
       vt_voteTo = bytes_addr (take 20 (drop 26 bs)), vt_receivedVoteNumber = receivedVoteNumber\<rparr>))))"

definition Vote_saveImpl :: "Vote \<Rightarrow> bytes" where
  "Vote_saveImpl v =
     [if vt_isCandidate v then 1 else 0] @ uint64_tToBytes (vt_votedNumber v) @ uint64_tToBytes (vt_unAssignNumber v)
     @ uint64_tToBytes (vt_assignNumber v) @ [if vt_isVoted v then 1 else 0] @ addr_bytes (vt_voteTo v)
     @ uint64_tToBytes (vt_receivedVoteNumber v)"

definition Vote_load :: "(bytes \<Rightarrow> h256) \<Rightarrow> address \<Rightarrow> Vote mapE" where
  "Vote_load sha3 a = bindE (getE (loadFromMap sha3 a Vote_size)) (Vote_loadImpl a)"

definition Vote_save :: "(bytes \<Rightarrow> h256) \<Rightarrow> Vote \<Rightarrow> unit mapE" where
  "Vote_save sha3 v = saveInMaps sha3 (vt_address v) (Vote_saveImpl v)"

text \<open>Load the record of an account, change the votes for it, and save it.\<close>

definition add_voted :: "(bytes \<Rightarrow> h256) \<Rightarrow> address \<Rightarrow> u64 \<Rightarrow> unit mapE" where
  "add_voted sha3 a n =
     bindE (Vote_load sha3 a) (\<lambda>before. Vote_save sha3 (before\<lparr>vt_votedNumber := vt_votedNumber before + n\<rparr>))"

definition Vote_mortgage :: "u64 \<Rightarrow> Vote \<Rightarrow> (int \<times> Vote) mapE" where
  "Vote_mortgage amount v = ret (1, v\<lparr>vt_unAssignNumber := vt_unAssignNumber v + amount div VOTES_PRE_ETH\<rparr>)"

definition Vote_redeem :: "u64 \<Rightarrow> Vote \<Rightarrow> (int \<times> Vote) mapE" where
  "Vote_redeem voteCount v =
     (if vt_unAssignNumber v < voteCount then ret (0, v)
      else ret (1, v\<lparr>vt_unAssignNumber := vt_unAssignNumber v - voteCount\<rparr>))"

definition Vote_vote :: "(bytes \<Rightarrow> h256) \<Rightarrow> address \<Rightarrow> Vote \<Rightarrow> (int \<times> Vote) mapE" where
  "Vote_vote sha3 addr v =
     (if addr = vt_address v then
        (if \<not> vt_isCandidate v then ret (0, v)
         else if \<not> vt_isVoted v then
           ret (1, v\<lparr>vt_voteTo := addr, vt_isVoted := True, vt_votedNumber := vt_votedNumber v + vt_assignNumber v\<rparr>)
         else if vt_voteTo v = addr then ret (2, v)
         else thenE (add_voted sha3 (vt_voteTo v) (- vt_assignNumber v))
                (ret (1, v\<lparr>vt_voteTo := addr, vt_isVoted := True, vt_votedNumber := vt_votedNumber v + vt_assignNumber v\<rparr>)))
      else
        bindE (Vote_load sha3 addr) (\<lambda>to.
        let to' = to\<lparr>vt_votedNumber := vt_votedNumber to + vt_assignNumber v\<rparr> in
        if \<not> vt_isCandidate to then ret (0, v)
        else if \<not> vt_isVoted v then
          thenE (Vote_save sha3 to') (ret (1, v\<lparr>vt_voteTo := addr, vt_isVoted := True\<rparr>))
        else if vt_voteTo v = addr then ret (2, v)
        else if vt_voteTo v = vt_address v then
          thenE (Vote_save sha3 to')
            (ret (1, v\<lparr>vt_votedNumber := vt_votedNumber v - vt_assignNumber v, vt_voteTo := addr, vt_isVoted := True\<rparr>))
        else
          thenE (add_voted sha3 (vt_voteTo v) (- vt_assignNumber v))
         (thenE (Vote_save sha3 to') (ret (1, v\<lparr>vt_voteTo := addr, vt_isVoted := True\<rparr>)))))"

definition Vote_removeVote :: "(bytes \<Rightarrow> h256) \<Rightarrow> Vote \<Rightarrow> (int \<times> Vote) mapE" where
  "Vote_removeVote sha3 v =
     (if \<not> vt_isVoted v then ret (2, v)
      else if vt_voteTo v = vt_address v then
        ret (1, v\<lparr>vt_votedNumber := vt_votedNumber v - vt_assignNumber v, vt_isVoted := False, vt_voteTo := 0\<rparr>)
      else thenE (add_voted sha3 (vt_voteTo v) (- vt_assignNumber v))
             (ret (1, v\<lparr>vt_isVoted := False, vt_voteTo := 0\<rparr>)))"

definition Vote_assign :: "(bytes \<Rightarrow> h256) \<Rightarrow> u64 \<Rightarrow> Vote \<Rightarrow> (int \<times> Vote) mapE" where
  "Vote_assign sha3 voteCount v =
     (if vt_unAssignNumber v < voteCount then ret (0, v)
      else
        let finish = (\<lambda>v. ret (1, v\<lparr>vt_unAssignNumber := vt_unAssignNumber v - voteCount,
                              vt_assignNumber := vt_assignNumber v + voteCount\<rparr>))
        in if \<not> vt_isVoted v then finish v
           else if vt_voteTo v = vt_address v then finish (v\<lparr>vt_votedNumber := vt_votedNumber v + voteCount\<rparr>)
           else thenE (add_voted sha3 (vt_voteTo v) voteCount) (finish v))"

definition Vote_deAssign :: "(bytes \<Rightarrow> h256) \<Rightarrow> u64 \<Rightarrow> Vote \<Rightarrow> (int \<times> Vote) mapE" where
  "Vote_deAssign sha3 voteCount v =
     (if vt_assignNumber v - vt_receivedVoteNumber v < voteCount then ret (0, v)
      else
        let finish = (\<lambda>v. ret (1, v\<lparr>vt_assignNumber := vt_assignNumber v - voteCount,
                              vt_unAssignNumber := vt_unAssignNumber v + voteCount\<rparr>))
        in if \<not> vt_isVoted v then finish v
           else if vt_voteTo v = vt_address v then finish (v\<lparr>vt_votedNumber := vt_votedNumber v - voteCount\<rparr>)
           else thenE (add_voted sha3 (vt_voteTo v) (- voteCount)) (finish v))"

definition Vote_send :: "(bytes \<Rightarrow> h256) \<Rightarrow> address \<Rightarrow> u64 \<Rightarrow> Vote \<Rightarrow> (int \<times> Vote) mapE" where
  "Vote_send sha3 addr voteCount v =
     (if addr = vt_address v \<or> vt_unAssignNumber v < voteCount then ret (0, v)
      else
        let v = v\<lparr>vt_unAssignNumber := vt_unAssignNumber v - voteCount\<rparr> in
        bindE (Vote_load sha3 addr) (\<lambda>to.
        let to = to\<lparr>vt_receivedVoteNumber := vt_receivedVoteNumber to + voteCount,
                    vt_assignNumber := vt_assignNumber to + voteCount\<rparr>
        in if \<not> vt_isVoted to then thenE (Vote_save sha3 to) (ret (1, v))
           else if vt_voteTo to = vt_address v then
             thenE (Vote_save sha3 to) (ret (1, v\<lparr>vt_votedNumber := vt_votedNumber v + vt_votedNumber v\<rparr>))
           else if vt_voteTo to = addr then
             thenE (Vote_save sha3 (to\<lparr>vt_votedNumber := vt_votedNumber to + voteCount\<rparr>)) (ret (1, v))
           else
             thenE (add_voted sha3 (vt_voteTo to) voteCount)
            (thenE (Vote_save sha3 to) (ret (1, v)))))"

definition Vote_candidateRegister :: "Vote \<Rightarrow> (int \<times> Vote) mapE" where
  "Vote_candidateRegister v =
     ret (1, (if \<not> vt_isCandidate v then v\<lparr>vt_votedNumber := 0\<rparr> else v)\<lparr>vt_isCandidate := True\<rparr>)"

text \<open>
  \<open>resetVotedTo\<close> walks the listing while the records it resets are written to it. The walk
  goes from a key to the next larger one of the listing at that moment. It takes the address
  from the key of the listing, which is a hash.
\<close>

definition next_key :: "nat \<Rightarrow> maps \<Rightarrow> h256 option" where
  "next_key lo m = map_option fst (find (\<lambda>p. lo \<le> unat (fst p)) (m_map m))"

definition reset_one :: "(bytes \<Rightarrow> h256) \<Rightarrow> address \<Rightarrow> h256 \<Rightarrow> Vote \<Rightarrow> Vote mapE" where
  "reset_one sha3 addr k v =
     (if drop 20 (h256_bytes k) \<noteq> replicate 12 0 then ret v
      else let a = bytes_addr (take 20 (h256_bytes k)) in
        if a = vt_address v then
          ret (if vt_voteTo v = vt_address v then v\<lparr>vt_isVoted := False, vt_voteTo := 0\<rparr> else v)
        else
          bindE (Vote_load sha3 a) (\<lambda>reset.
          thenE (if vt_voteTo reset = addr
                 then Vote_save sha3 (reset\<lparr>vt_isVoted := False, vt_voteTo := 0\<rparr>) else ret ())
         (ret v)))"

lemma next_key_le: "next_key lo m = Some k \<Longrightarrow> lo \<le> unat k \<and> unat k < 2 ^ 256"
  using unsigned_less [where 'a = nat, of k]
  by (auto simp: next_key_def find_Some_iff) (metis fst_conv)

function resetVotedTo :: "(bytes \<Rightarrow> h256) \<Rightarrow> address \<Rightarrow> nat \<Rightarrow> Vote \<Rightarrow> maps \<Rightarrow> (eth_exn + Vote) \<times> maps" where
  "resetVotedTo sha3 addr lo v m =
     (case next_key lo m of
        None \<Rightarrow> (Inr v, m)
      | Some k \<Rightarrow>
          (case reset_one sha3 addr k v m of
             (Inl e, m') \<Rightarrow> (Inl e, m')
           | (Inr v', m') \<Rightarrow> resetVotedTo sha3 addr (Suc (unat k)) v' m'))"
  by auto
termination
  by (relation "measure (\<lambda>(_, _, lo, _, _). 2 ^ 256 - lo)") (auto dest!: next_key_le)

declare resetVotedTo.simps [simp del]

definition Vote_candidateDeregister :: "(bytes \<Rightarrow> h256) \<Rightarrow> Vote \<Rightarrow> (int \<times> Vote) mapE" where
  "Vote_candidateDeregister sha3 v =
     bindE (resetVotedTo sha3 (vt_address v) 0 v) (\<lambda>v.
     ret (1, v\<lparr>vt_votedNumber := 0, vt_isCandidate := False\<rparr>))"


section \<open>POW\_Operation\<close>

record POW_Operation =
  worker_pubkey :: bytes \<comment> \<open>\<open>h512\<close>\<close>
  block_id :: h256
  nonce :: u64
  input :: h256
  work :: h256
  signature :: bytes \<comment> \<open>\<open>h520\<close>\<close>

definition POW_size :: nat where "POW_size = 64 + 32 + 8 + 32 + 32 + 65"

definition POW_loadImpl :: "bytes \<Rightarrow> (eth_exn, 's, POW_Operation) exc" where
  "POW_loadImpl bs =
     bindE (bytesToUint64_t (take 8 (drop 96 bs))) (\<lambda>n.
     ret \<lparr>worker_pubkey = take 64 bs, block_id = bytes_h256 (take 32 (drop 64 bs)), nonce = n,
       input = bytes_h256 (take 32 (drop 104 bs)), work = bytes_h256 (take 32 (drop 136 bs)),
       signature = take 65 (drop 168 bs)\<rparr>)"

definition POW_saveImpl :: "POW_Operation \<Rightarrow> bytes" where
  "POW_saveImpl op = worker_pubkey op @ h256_bytes (block_id op) @ uint64_tToBytes (nonce op)
     @ h256_bytes (input op) @ h256_bytes (work op) @ signature op"

definition POW_load :: "(bytes \<Rightarrow> h256) \<Rightarrow> address \<Rightarrow> POW_Operation mapE" where
  "POW_load sha3 a = bindE (getE (loadFromMap sha3 a POW_size)) POW_loadImpl"

definition POW_save :: "(bytes \<Rightarrow> h256) \<Rightarrow> address \<Rightarrow> POW_Operation \<Rightarrow> unit mapE" where
  "POW_save sha3 a op = saveInMaps sha3 a (POW_saveImpl op)"

definition work_input :: "(bytes \<Rightarrow> h256) \<Rightarrow> POW_Operation \<Rightarrow> h256" where
  "work_input sha3 op =
     sha3 (uint64_tToBytes (nonce op) @ drop 8 (h256_bytes (sha3 (h256_bytes (block_id op)))))"

text \<open>\<open>sprintf("%02X")\<close> of every byte.\<close>

definition hex_digit :: "nat \<Rightarrow> u8" where
  "hex_digit n = of_nat (if n < 10 then 48 + n else 55 + n)"

definition Hex2Str :: "bytes \<Rightarrow> bytes" where
  "Hex2Str src = concat (map (\<lambda>b. [hex_digit (unat b div 16), hex_digit (unat b mod 16)]) src)"

text \<open>The hash of the answer: \<open>((uint16_t*)block_id.data())[0] % 13\<close> picks the function.\<close>

definition jump_id :: "h256 \<Rightarrow> nat" where
  "jump_id b = le_val (take 2 (h256_bytes b)) mod 13"

definition work_hash ::
    "(bytes \<Rightarrow> h256) \<Rightarrow> (bytes \<Rightarrow> h256 \<Rightarrow> bytes) \<Rightarrow> (nat \<Rightarrow> bytes \<Rightarrow> bytes) \<Rightarrow> h256 \<Rightarrow> bytes \<Rightarrow> h256" where
  "work_hash sha3 recover jump block sig =
     sha3 (jump (jump_id block) (Hex2Str (take 32 (recover sig (sha3 sig)))))"

definition validate ::
    "(bytes \<Rightarrow> h256) \<Rightarrow> (bytes \<Rightarrow> h256 \<Rightarrow> bytes) \<Rightarrow> (nat \<Rightarrow> bytes \<Rightarrow> bytes) \<Rightarrow> POW_Operation \<Rightarrow> bool" where
  "validate sha3 recover jump op =
     (if work_input sha3 op \<noteq> input op then False
      else if work op = 0 then False
      else if recover (signature op) (input op) \<noteq> worker_pubkey op then False
      else work op = work_hash sha3 recover jump (block_id op) (signature op))"

definition POW_create ::
    "(bytes \<Rightarrow> h256) \<Rightarrow> (bytes \<Rightarrow> h256 \<Rightarrow> bytes) \<Rightarrow> (nat \<Rightarrow> bytes \<Rightarrow> bytes) \<Rightarrow> ('w \<Rightarrow> h256 \<Rightarrow> bytes)
      \<Rightarrow> 'w \<Rightarrow> h256 \<Rightarrow> POW_Operation \<Rightarrow> POW_Operation" where
  "POW_create sha3 recover jump sign w i op =
     (let sig = sign w i
      in op\<lparr>input := i, signature := sig, work := work_hash sha3 recover jump (block_id op) sig\<rparr>)"


section \<open>VoteDelegate\<close>

text \<open>
  Every entry point lists the storage of an account, works on the listing and writes the
  changed pages back.
\<close>

definition POWInfoAddress :: address where "POWInfoAddress = 0x2b"

definition with_maps :: "'a mapE \<Rightarrow> (h256, u256 \<times> u256) omap \<Rightarrow> ('a \<times> (u256, u256) omap) stE" where
  "with_maps f listing =
     (case f \<lparr>m_map = listing, m_mapChange = []\<rparr> of
        (Inl e, m) \<Rightarrow> throw e
      | (Inr x, m) \<Rightarrow> ret (x, m_mapChange m))"

definition write_back :: "pick \<Rightarrow> address \<Rightarrow> (u256, u256) omap \<Rightarrow> unit stE" where
  "write_back pick a changes = forE changes (\<lambda>i. setStorage pick a (fst i) (snd i))"

definition on_vote :: "(bytes \<Rightarrow> h256) \<Rightarrow> pick \<Rightarrow> address \<Rightarrow> (Vote \<Rightarrow> (int \<times> Vote) mapE) \<Rightarrow> unit stE" where
  "on_vote sha3 pick a f =
     bindE (storage_map (\<lambda>k. sha3 (h256_bytes k)) pick VoteInfoAddress) (\<lambda>voteMap.
     bindE (with_maps (bindE (Vote_load sha3 a) (\<lambda>v. bindE (f v) (\<lambda>r. Vote_save sha3 (snd r)))) voteMap) (\<lambda>c.
     write_back pick VoteInfoAddress (snd c)))"

definition VoteDelegate_mortgage :: "(bytes \<Rightarrow> h256) \<Rightarrow> pick \<Rightarrow> u64 \<Rightarrow> address \<Rightarrow> unit stE" where
  "VoteDelegate_mortgage sha3 pick amount a =
     bindE (balance pick a) (\<lambda>b.
     if b \<ge> ucast amount then
       bindE (storage_map (\<lambda>k. sha3 (h256_bytes k)) pick VoteInfoAddress) (\<lambda>voteMap.
       let validBalance = amount div VOTES_PRE_ETH * VOTES_PRE_ETH in
       thenE (subBalance pick a (ucast validBalance))
      (bindE (with_maps (bindE (Vote_load sha3 a) (\<lambda>v.
         bindE (Vote_mortgage validBalance v) (\<lambda>r. Vote_save sha3 (snd r)))) voteMap) (\<lambda>c.
       write_back pick VoteInfoAddress (snd c))))
     else ret ())"

definition VoteDelegate_redeem :: "(bytes \<Rightarrow> h256) \<Rightarrow> pick \<Rightarrow> u64 \<Rightarrow> address \<Rightarrow> unit stE" where
  "VoteDelegate_redeem sha3 pick voteCount a =
     bindE (storage_map (\<lambda>k. sha3 (h256_bytes k)) pick VoteInfoAddress) (\<lambda>voteMap.
     bindE (with_maps (bindE (Vote_load sha3 a) (Vote_redeem voteCount)) voteMap) (\<lambda>r.
     thenE (if fst (fst r) \<noteq> 0 then addBalance pick a (ucast (voteCount * VOTES_PRE_ETH)) else ret ())
    (bindE (with_maps (Vote_save sha3 (snd (fst r))) voteMap) (\<lambda>c.
     write_back pick VoteInfoAddress (snd c)))))"

definition VoteDelegate_candidateRegister :: "(bytes \<Rightarrow> h256) \<Rightarrow> pick \<Rightarrow> address \<Rightarrow> unit stE" where
  "VoteDelegate_candidateRegister sha3 pick a = on_vote sha3 pick a Vote_candidateRegister"

definition VoteDelegate_candidateDeregister :: "(bytes \<Rightarrow> h256) \<Rightarrow> pick \<Rightarrow> address \<Rightarrow> unit stE" where
  "VoteDelegate_candidateDeregister sha3 pick a = on_vote sha3 pick a (Vote_candidateDeregister sha3)"

definition VoteDelegate_vote :: "(bytes \<Rightarrow> h256) \<Rightarrow> pick \<Rightarrow> address \<Rightarrow> address \<Rightarrow> unit stE" where
  "VoteDelegate_vote sha3 pick toAddress a = on_vote sha3 pick a (Vote_vote sha3 toAddress)"

definition VoteDelegate_removeVote :: "(bytes \<Rightarrow> h256) \<Rightarrow> pick \<Rightarrow> address \<Rightarrow> unit stE" where
  "VoteDelegate_removeVote sha3 pick a = on_vote sha3 pick a (Vote_removeVote sha3)"

definition VoteDelegate_send :: "(bytes \<Rightarrow> h256) \<Rightarrow> pick \<Rightarrow> address \<Rightarrow> u64 \<Rightarrow> address \<Rightarrow> unit stE" where
  "VoteDelegate_send sha3 pick toAddress amount a = on_vote sha3 pick a (Vote_send sha3 toAddress amount)"

definition VoteDelegate_assign :: "(bytes \<Rightarrow> h256) \<Rightarrow> pick \<Rightarrow> u64 \<Rightarrow> address \<Rightarrow> unit stE" where
  "VoteDelegate_assign sha3 pick voteCount a = on_vote sha3 pick a (Vote_assign sha3 voteCount)"

definition VoteDelegate_deAssign :: "(bytes \<Rightarrow> h256) \<Rightarrow> pick \<Rightarrow> u64 \<Rightarrow> address \<Rightarrow> unit stE" where
  "VoteDelegate_deAssign sha3 pick voteCount a = on_vote sha3 pick a (Vote_deAssign sha3 voteCount)"

definition VoteDelegate_pow :: "(bytes \<Rightarrow> h256) \<Rightarrow> pick \<Rightarrow> address \<Rightarrow> POW_Operation \<Rightarrow> unit stE" where
  "VoteDelegate_pow sha3 pick a answer =
     bindE (storage_map (\<lambda>k. sha3 (h256_bytes k)) pick POWInfoAddress) (\<lambda>powMap.
     bindE (with_maps (bindE (POW_load sha3 a) (\<lambda>powop.
       POW_save sha3 a (powop\<lparr>worker_pubkey := worker_pubkey answer, block_id := block_id answer,
         nonce := nonce answer, input := input answer, work := work answer, signature := signature answer\<rparr>))) powMap) (\<lambda>c.
     write_back pick POWInfoAddress (snd c)))"

text \<open>The precompiled contract that receives an answer.\<close>

definition powReceive ::
    "(bytes \<Rightarrow> h256) \<Rightarrow> (bytes \<Rightarrow> h256 \<Rightarrow> bytes) \<Rightarrow> (nat \<Rightarrow> bytes \<Rightarrow> bytes) \<Rightarrow> pick \<Rightarrow> bytes \<Rightarrow> address
      \<Rightarrow> (bool \<times> bytes) stE" where
  "powReceive sha3 recover jump pick inp a =
     (if POW_size \<noteq> length inp then ret (False, [])
      else bindE (POW_loadImpl inp) (\<lambda>op.
        if \<not> validate sha3 recover jump op then ret (False, [])
        else thenE (VoteDelegate_pow sha3 pick a op) (ret (True, []))))"

end
