(* ===== verification/StateMapProps.thy ===== *)
theory StateMapProps
  imports StateMap
begin

text \<open>
  What the pages of a \<open>StateMap\<close> give back: numbers are kept modulo \<open>2^24\<close>, everything else
  exactly, one account at a time. An answer that validates still validates after it has been
  stored and read.
\<close>

section \<open>Numbers\<close>

lemma digits8:
  "foldr (\<lambda>i r. r * 8 + n div 8 ^ i mod 8) [0..<k] r = r * 8 ^ k + n mod 8 ^ k" for n r :: nat
proof (induction k arbitrary: r)
  case (Suc k)
  have "n mod 8 ^ Suc k = 8 ^ k * (n div 8 ^ k mod 8) + n mod 8 ^ k"
    by (simp add: mod_mult2_eq mult.commute [of 8])
  with Suc show ?case by (simp add: algebra_simps)
qed simp

lemma bytesToUint64_t_bytes: "bytesToUint64_t (uint64_tToBytes n) = ret (of_nat (unat n mod 2 ^ 24))"
proof -
  have d: "ucast (of_nat (m mod 8) :: u8) = (of_nat (m mod 8) :: u64)" for m
  proof -
    have "m mod 8 < 256" using mod_less_divisor [of 8 m] by linarith
    then show ?thesis by (simp add: unsigned_of_nat take_bit_nat_eq_self)
  qed
  have "foldr (\<lambda>i r. r * 8 + (of_nat (m div 8 ^ i mod 8) :: u64)) is (of_nat r) =
      of_nat (foldr (\<lambda>i r. r * 8 + m div 8 ^ i mod 8) is r)" for m "is" r
    by (induction "is") simp_all
  from this [of "unat n" "[0..<8]" 0] digits8 [of "unat n" 8 0]
  have "foldr (\<lambda>b res. res * 8 + ucast b) (uint64_tToBytes n) 0 = (of_nat (unat n mod 8 ^ 8) :: u64)"
    unfolding uint64_tToBytes_def foldr_map o_def d by simp
  then show ?thesis by (simp add: bytesToUint64_t_def uint64_tToBytes_def)
qed

lemma uint64_tToBytes_mod: "uint64_tToBytes (of_nat (unat n mod 2 ^ 24)) = uint64_tToBytes n"
proof -
  have u: "unat (of_nat (unat n mod 2 ^ 24) :: u64) = unat n mod 8 ^ 8"
    using mod_less_divisor [of "2 ^ 24" "unat n"] by (simp add: unat_of_nat take_bit_nat_eq_self)
  have "m mod 8 ^ 8 div 8 ^ i mod 8 = m div 8 ^ i mod 8" if "i < 8" for m i :: nat
  proof -
    have e: "(8 :: nat) ^ 8 = 8 ^ i * (8 * 8 ^ (7 - i))" using that by (simp flip: power_add power_Suc)
    have "m mod (a * b) div a = m div a mod b" if "0 < a" for a b :: nat using that by (simp add: mod_mult2_eq)
    then have "m mod 8 ^ 8 div 8 ^ i = m div 8 ^ i mod (8 * 8 ^ (7 - i))" unfolding e by simp
    then show ?thesis by (simp only: mod_mod_cancel dvd_triv_left)
  qed
  with u show ?thesis by (simp add: uint64_tToBytes_def)
qed


section \<open>Pages\<close>

text \<open>Two accounts share no page, and the first \<open>8^8\<close> pages of an account are distinct.\<close>

lemma expand_inj:
  assumes "expand a i = expand b j" "i < 8 ^ 8" "j < 8 ^ 8"
  shows "a = b \<and> i = j"
proof -
  let ?f = "\<lambda>n. map (\<lambda>i. of_nat (n div 8 ^ i mod 8) :: u8) [0..<8]"
  have "addr_bytes a @ ?f i @ replicate 4 0 = addr_bytes b @ ?f j @ replicate 4 0"
    using arg_cong [OF assms(1), of h256_bytes] by (simp add: expand_def h256_bytes_of)
  then have e: "addr_bytes a = addr_bytes b" "?f i = ?f j" by simp_all
  have "i div 8 ^ k mod 8 = j div 8 ^ k mod 8" if "k < 8" for k
  proof -
    have "(of_nat (i div 8 ^ k mod 8) :: u8) = of_nat (j div 8 ^ k mod 8)" using e(2) that by simp
    moreover have "m mod 8 < 256" for m :: nat using mod_less_divisor [of 8 m] by linarith
    ultimately show ?thesis by (simp add: word_of_nat_eq_iff take_bit_nat_eq_self)
  qed
  then have "foldr (\<lambda>k r. r * 8 + i div 8 ^ k mod 8) [0..<8] 0 = foldr (\<lambda>k r. r * 8 + j div 8 ^ k mod 8) [0..<8] 0"
    by (intro foldr_cong) auto
  then have "i = j" using assms(2,3) by (simp only: digits8 mult_0 add_0 mod_less)
  with e(1) show ?thesis by (metis bytes_addr_bytes)
qed

text \<open>No two keys have the same hash.\<close>

definition key_inj :: "(bytes \<Rightarrow> h256) \<Rightarrow> bool" where
  "key_inj sha3 \<longleftrightarrow> inj (\<lambda>k :: u256. sha3 (h256_bytes k))"

lemma get_put_page:
  "key_inj sha3 \<Longrightarrow> get_page sha3 k (put_page sha3 key page m) = (if k = key then page else get_page sha3 k m)"
  by (auto simp: get_page_def put_page_def key_inj_def dest: injD)

text \<open>Page \<open>i\<close> of a byte string, the last one filled up with zeros.\<close>

definition sm_page :: "bytes \<Rightarrow> nat \<Rightarrow> bytes" where
  "sm_page data i = take 32 (drop (i * 32) data) @ replicate (32 - length (drop (i * 32) data)) 0"

lemma length_page [simp]: "length (sm_page data i) = 32"
  by (simp add: sm_page_def)

lemma forE_append: "forE (xs @ ys) f = thenE (forE xs f) (forE ys f)"
proof (induction xs)
  case (Cons x xs)
  then show ?case by (simp add: thenE_def bindE_def fun_eq_iff split: prod.split sum.split)
qed (simp add: thenE_def bindE_def ret_def)

lemma forE_pages:
  assumes inj: "key_inj sha3"
  shows "n \<le> 8 ^ 8 \<Longrightarrow> \<exists>m'. (forE [0..<n] (\<lambda>i. updE (put_page sha3 (expand a i) (P i))) :: unit mapE) m = (Inr (), m') \<and>
    (\<forall>i<n. get_page sha3 (expand a i) m' = P i) \<and>
    (\<forall>k. (\<forall>i<n. k \<noteq> expand a i) \<longrightarrow> get_page sha3 k m' = get_page sha3 k m)"
proof (induction n)
  case (Suc n)
  have "n \<le> 8 ^ 8" using Suc.prems by simp
  from Suc.IH [OF this] obtain m' where m': "(forE [0..<n] (\<lambda>i. updE (put_page sha3 (expand a i) (P i))) :: unit mapE) m = (Inr (), m')"
    "\<forall>i<n. get_page sha3 (expand a i) m' = P i" "\<forall>k. (\<forall>i<n. k \<noteq> expand a i) \<longrightarrow> get_page sha3 k m' = get_page sha3 k m"
    by blast
  let ?m = "put_page sha3 (expand a n) (P n) m'"
  have "expand a i \<noteq> expand a n" if "i < n" for i using expand_inj [of a i a n] that Suc.prems by auto
  with m' have "\<forall>i<Suc n. get_page sha3 (expand a i) ?m = P i" by (simp add: get_put_page [OF inj] less_Suc_eq)
  moreover have "(forE [0..<Suc n] (\<lambda>i. updE (put_page sha3 (expand a i) (P i))) :: unit mapE) m = (Inr (), ?m)"
    using m'(1) by (simp add: forE_append thenE_def bindE_def updE_def)
  moreover have "\<forall>k. (\<forall>i<Suc n. k \<noteq> expand a i) \<longrightarrow> get_page sha3 k ?m = get_page sha3 k m"
    using m'(3) by (simp add: get_put_page [OF inj])
  ultimately show ?case by (intro exI [of _ ?m] conjI)
qed simp

lemma saveInMaps_run:
  assumes inj: "key_inj sha3" and len: "length data div 32 < 8 ^ 8"
  obtains m' where "saveInMaps sha3 a data m = (Inr (), m')"
    "\<And>i. i \<le> length data div 32 \<Longrightarrow> h256_bytes (get_page sha3 (expand a i) m') = sm_page data i"
    "\<And>b i. b \<noteq> a \<Longrightarrow> i < 8 ^ 8 \<Longrightarrow> get_page sha3 (expand b i) m' = get_page sha3 (expand b i) m"
proof -
  let ?n = "length data div 32"
  let ?P = "\<lambda>i. bytes_h256 (take 32 (drop (i * 32) data))" and ?L = "bytes_h256 (sm_page data ?n)"
  obtain m1 where m1: "(forE [0..<?n] (\<lambda>i. updE (put_page sha3 (expand a i) (?P i))) :: unit mapE) m = (Inr (), m1)"
    "\<forall>i<?n. get_page sha3 (expand a i) m1 = ?P i" "\<forall>k. (\<forall>i<?n. k \<noteq> expand a i) \<longrightarrow> get_page sha3 k m1 = get_page sha3 k m"
    using forE_pages [OF inj less_imp_le [OF len], of a ?P m] by blast
  have last: "take 32 (drop (?n * 32) data @ replicate (32 - length data mod 32) 0) = sm_page data ?n"
  proof -
    have "length (drop (?n * 32) data) = length data mod 32" by (simp add: minus_div_mult_eq_mod)
    moreover have "length data mod 32 < 32" by simp
    ultimately show ?thesis by (simp add: sm_page_def)
  qed
  let ?m = "put_page sha3 (expand a ?n) ?L m1"
  have "saveInMaps sha3 a data m = (Inr (), ?m)"
    using m1(1) last by (simp add: saveInMaps_def Let_def thenE_def bindE_def updE_def)
  moreover have "h256_bytes (get_page sha3 (expand a i) ?m) = sm_page data i" if "i \<le> ?n" for i
  proof (cases "i = ?n")
    case False
    then have i: "i < ?n" using that by simp
    then have "Suc i \<le> ?n" by simp
    then have "Suc i * 32 \<le> ?n * 32" by (rule mult_le_mono1)
    then have "length (drop (i * 32) data) \<ge> 32" using div_times_less_eq_dividend [of "length data" 32] by simp
    then have "sm_page data i = take 32 (drop (i * 32) data)" "length (take 32 (drop (i * 32) data)) = 32" by (simp_all add: sm_page_def)
    moreover have "expand a i \<noteq> expand a ?n" using expand_inj [of a i a ?n] i len by auto
    ultimately show ?thesis using m1(2) i by (simp add: get_put_page [OF inj] h256_bytes_of)
  qed (simp add: get_put_page [OF inj] h256_bytes_of)
  moreover have "get_page sha3 (expand b i) ?m = get_page sha3 (expand b i) m" if "b \<noteq> a" "i < 8 ^ 8" for b i
  proof -
    have "expand b i \<noteq> expand a j" if "j \<le> ?n" for j using expand_inj [of b i a j] \<open>b \<noteq> a\<close> \<open>i < 8 ^ 8\<close> that len by auto
    then show ?thesis using m1(3) by (simp add: get_put_page [OF inj])
  qed
  ultimately show thesis by (rule that)
qed

lemma concat_pages: "n * 32 \<le> length data \<Longrightarrow> concat (map (sm_page data) [0..<n]) = take (n * 32) data"
proof (induction n)
  case (Suc n)
  have "sm_page data n = take 32 (drop (n * 32) data)" using Suc.prems by (simp add: sm_page_def)
  moreover have "take (Suc n * 32) data = take (n * 32) data @ take 32 (drop (n * 32) data)"
    using take_add [of "n * 32" 32 data] by (simp add: add.commute)
  ultimately show ?case using Suc by simp
qed simp

lemma load_saved:
  assumes "\<And>i. i \<le> length data div 32 \<Longrightarrow> h256_bytes (get_page sha3 (expand a i) m) = sm_page data i"
  shows "loadFromMap sha3 a (length data) m = data"
proof -
  let ?n = "length data div 32"
  have "concat (map (\<lambda>i. h256_bytes (get_page sha3 (expand a i) m)) [0..<?n]) = concat (map (sm_page data) [0..<?n])"
    using assms by (intro arg_cong [where f = concat] map_cong) auto
  also have "\<dots> = take (?n * 32) data" by (rule concat_pages) simp
  finally have "concat (map (\<lambda>i. h256_bytes (get_page sha3 (expand a i) m)) [0..<?n]) = take (?n * 32) data" .
  moreover have "take (length data mod 32) (sm_page data ?n) = drop (?n * 32) data"
    by (simp add: sm_page_def minus_div_mult_eq_mod)
  ultimately show ?thesis using assms [of ?n] by (simp add: loadFromMap_def Let_def)
qed

lemma load_other:
  assumes "\<And>i. i < 8 ^ 8 \<Longrightarrow> get_page sha3 (expand b i) m' = get_page sha3 (expand b i) m" "sz div 32 < 8 ^ 8"
  shows "loadFromMap sha3 b sz m' = loadFromMap sha3 b sz m"
proof -
  have "concat (map (\<lambda>i. h256_bytes (get_page sha3 (expand b i) m')) [0..<sz div 32]) =
      concat (map (\<lambda>i. h256_bytes (get_page sha3 (expand b i) m)) [0..<sz div 32])"
    using assms by (intro arg_cong [where f = concat] map_cong) auto
  with assms show ?thesis by (simp add: loadFromMap_def Let_def)
qed


section \<open>Answers\<close>

lemma length_uint64_bytes [simp]: "length (uint64_tToBytes n) = 8"
  by (simp add: uint64_tToBytes_def)

lemma POW_load_save_bytes:
  assumes "length (worker_pubkey op) = 64" "length (signature op) = 65"
  shows "POW_loadImpl (POW_saveImpl op) = ret (op\<lparr>nonce := of_nat (unat (nonce op) mod 2 ^ 24)\<rparr>)"
    "length (POW_saveImpl op) = POW_size"
proof -
  have e: "\<lparr>worker_pubkey = worker_pubkey op, block_id = block_id op, nonce = n, input = input op, work = work op, signature = signature op\<rparr> =
      op\<lparr>nonce := n\<rparr>" for n
    by (cases op) simp
  show "POW_loadImpl (POW_saveImpl op) = ret (op\<lparr>nonce := of_nat (unat (nonce op) mod 2 ^ 24)\<rparr>)"
    unfolding e [symmetric] using assms by (intro ext) (simp add: POW_loadImpl_def POW_saveImpl_def bytesToUint64_t_bytes)
  show "length (POW_saveImpl op) = POW_size" using assms by (simp add: POW_saveImpl_def POW_size_def)
qed

lemma validate_nonce: "validate sha3 recover jump (op\<lparr>nonce := of_nat (unat (nonce op) mod 2 ^ 24)\<rparr>) = validate sha3 recover jump op"
  unfolding validate_def work_input_def by (simp add: uint64_tToBytes_mod [simplified])

text \<open>
  C35 (answers are kept). An answer saved in the listing of the POW account is read back with
  its nonce modulo \<open>2^24\<close> and everything else unchanged; it validates exactly when the
  answer saved does, because the puzzle sees the nonce through the same encoding. The
  answers of all other workers are read as before.
\<close>

theorem pow_answer_kept:
  assumes "inj (\<lambda>k :: u256. sha3 (h256_bytes k))" "length (worker_pubkey op) = 64" "length (signature op) = 65"
  shows "\<exists>m'. POW_save sha3 a op m = (Inr (), m') \<and>
    POW_load sha3 a m' = (Inr (op\<lparr>nonce := of_nat (unat (nonce op) mod 2 ^ 24)\<rparr>), m') \<and>
    validate sha3 recover jump (op\<lparr>nonce := of_nat (unat (nonce op) mod 2 ^ 24)\<rparr>) = validate sha3 recover jump op \<and>
    (\<forall>b. b \<noteq> a \<longrightarrow> fst (POW_load sha3 b m') = fst (POW_load sha3 b m))"
proof -
  have k: "key_inj sha3" using assms(1) by (simp add: key_inj_def)
  note io = POW_load_save_bytes [OF assms(2,3)]
  have len: "length (POW_saveImpl op) div 32 < 8 ^ 8" using io(2) by (simp add: POW_size_def)
  obtain m' where m': "saveInMaps sha3 a (POW_saveImpl op) m = (Inr (), m')"
    "\<And>i. i \<le> length (POW_saveImpl op) div 32 \<Longrightarrow> h256_bytes (get_page sha3 (expand a i) m') = sm_page (POW_saveImpl op) i"
    "\<And>b i. b \<noteq> a \<Longrightarrow> i < 8 ^ 8 \<Longrightarrow> get_page sha3 (expand b i) m' = get_page sha3 (expand b i) m"
    using saveInMaps_run [OF k len, where a = a and m = m] by blast
  have "loadFromMap sha3 a POW_size m' = POW_saveImpl op" using load_saved [OF m'(2)] io(2) by simp
  then have "POW_load sha3 a m' = (Inr (op\<lparr>nonce := of_nat (unat (nonce op) mod 2 ^ 24)\<rparr>), m')"
    by (simp add: POW_load_def io(1) ret_def)
  moreover have "fst (POW_load sha3 b m') = fst (POW_load sha3 b m)" if "b \<noteq> a" for b
  proof -
    have "loadFromMap sha3 b POW_size m' = loadFromMap sha3 b POW_size m"
      by (rule load_other [OF m'(3) [OF that]]) (simp_all add: POW_size_def)
    then show ?thesis by (simp add: POW_load_def POW_loadImpl_def bytesToUint64_t_def throw_def ret_def bindE_def)
  qed
  ultimately show ?thesis using m'(1) validate_nonce by (auto simp: POW_save_def)
qed

theorem pow_answer_kept_witness:
  "\<exists>m'. POW_save bytes_h256 7 \<lparr>worker_pubkey = replicate 64 3, block_id = 5, nonce = 0x5000001, input = 6, work = 8, signature = replicate 65 1\<rparr>
       \<lparr>m_map = [], m_mapChange = []\<rparr> = (Inr (), m') \<and>
     POW_load bytes_h256 7 m' = (Inr \<lparr>worker_pubkey = replicate 64 3, block_id = 5, nonce = 1, input = 6, work = 8, signature = replicate 65 1\<rparr>, m')"
proof -
  have "inj (\<lambda>k :: u256. bytes_h256 (h256_bytes k))" by (simp add: inj_on_def)
  moreover let ?op = "\<lparr>worker_pubkey = replicate 64 3, block_id = 5, nonce = 0x5000001, input = 6, work = 8, signature = replicate 65 1\<rparr>"
  have "length (worker_pubkey ?op) = 64" "length (signature ?op) = 65" by simp_all
  ultimately have "\<exists>m'. POW_save bytes_h256 7 ?op \<lparr>m_map = [], m_mapChange = []\<rparr> = (Inr (), m') \<and>
      POW_load bytes_h256 7 m' = (Inr (?op\<lparr>nonce := of_nat (unat (nonce ?op) mod 2 ^ 24)\<rparr>), m')"
    using pow_answer_kept [of bytes_h256 ?op 7 "\<lparr>m_map = [], m_mapChange = []\<rparr>"] by blast
  moreover have "?op\<lparr>nonce := of_nat (unat (nonce ?op) mod 2 ^ 24)\<rparr> = ?op\<lparr>nonce := 1\<rparr>" by simp
  ultimately show ?thesis by simp
qed

end
