(* ===== verification/Rlp.thy ===== *)
theory Rlp
  imports Bytes
begin

text \<open>
  Recursive linear prefix data (\<open>libdevcore/RLP.h\<close>, \<open>libdevcore/RLP.cpp\<close>): the reader
  \<open>RLP\<close> with its strictness flags, iterators and the cache of its subscript operator, and
  the writer \<open>RLPStream\<close> with its stack of open lists. An \<open>RLP\<close> is the byte string it
  refers to. Sizes are natural numbers: the only size that is computed from the data is the
  length field of at most eight bytes, which fits a \<open>size_t\<close>.
\<close>

section \<open>Big-endian numbers (\<open>CommonData.h\<close>)\<close>

datatype rlp_exn = BadRLP | BadCast | OversizeRLP | UndersizeRLP | RLPException | OutOfBounds

type_synonym 'a rlpR = "rlp_exn + 'a"

definition bindR :: "'a rlpR \<Rightarrow> ('a \<Rightarrow> 'b rlpR) \<Rightarrow> 'b rlpR" where
  "bindR m f = (case m of Inl e \<Rightarrow> Inl e | Inr x \<Rightarrow> f x)"

fun bytesRequired :: "nat \<Rightarrow> nat" where
  "bytesRequired i = (if i = 0 then 0 else Suc (bytesRequired (i div 256)))"

declare bytesRequired.simps [simp del]

text \<open>\<open>toBigEndian\<close> into a buffer of \<open>n\<close> bytes, and \<open>fromBigEndian\<close> into an unbounded integer.\<close>

definition toBigEndian :: "nat \<Rightarrow> nat \<Rightarrow> bytes" where
  "toBigEndian n v = rev (le_bytes n v)"

definition fromBigEndian :: "bytes \<Rightarrow> nat" where
  "fromBigEndian bs = foldl (\<lambda>ret b. ret * 256 + unat b) 0 bs"

definition toCompactBigEndian :: "nat \<Rightarrow> nat \<Rightarrow> bytes" where
  "toCompactBigEndian v mn = toBigEndian (max mn (bytesRequired v)) v"


section \<open>Reading\<close>

definition c_rlpMaxLengthBytes :: nat where "c_rlpMaxLengthBytes = 8"
definition c_rlpDataImmLenStart :: nat where "c_rlpDataImmLenStart = 0x80"
definition c_rlpListStart :: nat where "c_rlpListStart = 0xc0"
definition c_rlpDataImmLenCount :: nat where
  "c_rlpDataImmLenCount = c_rlpListStart - c_rlpDataImmLenStart - c_rlpMaxLengthBytes"
definition c_rlpDataIndLenZero :: nat where
  "c_rlpDataIndLenZero = c_rlpDataImmLenStart + c_rlpDataImmLenCount - 1"
definition c_rlpListImmLenCount :: nat where
  "c_rlpListImmLenCount = 256 - c_rlpListStart - c_rlpMaxLengthBytes"
definition c_rlpListIndLenZero :: nat where
  "c_rlpListIndLenZero = c_rlpListStart + c_rlpListImmLenCount - 1"

record Strictness =
  AllowNonCanon :: bool
  ThrowOnFail :: bool
  FailIfTooBig :: bool
  FailIfTooSmall :: bool

definition Strict :: Strictness where
  "Strict = \<lparr>AllowNonCanon = False, ThrowOnFail = True, FailIfTooBig = True, FailIfTooSmall = False\<rparr>"
definition VeryStrict :: Strictness where
  "VeryStrict = \<lparr>AllowNonCanon = False, ThrowOnFail = True, FailIfTooBig = True, FailIfTooSmall = True\<rparr>"
definition LaissezFaire :: Strictness where
  "LaissezFaire = \<lparr>AllowNonCanon = True, ThrowOnFail = False, FailIfTooBig = False, FailIfTooSmall = False\<rparr>"

definition isNull :: "bytes \<Rightarrow> bool" where "isNull d \<longleftrightarrow> d = []"
definition isEmpty :: "bytes \<Rightarrow> bool" where
  "isEmpty d \<longleftrightarrow> \<not> isNull d \<and> (unat (d ! 0) = c_rlpDataImmLenStart \<or> unat (d ! 0) = c_rlpListStart)"
definition isData :: "bytes \<Rightarrow> bool" where "isData d \<longleftrightarrow> \<not> isNull d \<and> unat (d ! 0) < c_rlpListStart"
definition isList :: "bytes \<Rightarrow> bool" where "isList d \<longleftrightarrow> \<not> isNull d \<and> unat (d ! 0) \<ge> c_rlpListStart"
definition isSingleByte :: "bytes \<Rightarrow> bool" where
  "isSingleByte d \<longleftrightarrow> \<not> isNull d \<and> unat (d ! 0) < c_rlpDataImmLenStart"

definition requireGood :: "bytes \<Rightarrow> unit rlpR" where
  "requireGood d =
     (if isNull d then Inl BadRLP
      else if unat (d ! 0) \<noteq> c_rlpDataImmLenStart + 1 then Inr ()
      else if length d < 2 then Inl BadRLP
      else if unat (d ! 1) < c_rlpDataImmLenStart then Inl BadRLP
      else Inr ())"

text \<open>The length field of \<open>lengthSize\<close> bytes; it may not have leading zeros nor be short.\<close>

definition long_length :: "nat \<Rightarrow> nat \<Rightarrow> bytes \<Rightarrow> nat rlpR" where
  "long_length lengthSize limit d =
     (if length d \<le> lengthSize then Inl BadRLP
      else if length d > 1 \<and> d ! 1 = 0 then Inl BadRLP
      else if lengthSize > 8 then Inl UndersizeRLP
      else let r = fromBigEndian (take lengthSize (drop 1 d)) in
        if r < limit then Inl BadRLP
        else if r \<ge> 2 ^ 64 - 1 - 0x100 then Inl UndersizeRLP
        else Inr r)"

definition rlp_length :: "bytes \<Rightarrow> nat rlpR" where
  "rlp_length d =
     (if isNull d then Inr 0
      else bindR (requireGood d) (\<lambda>_.
        let n = unat (d ! 0) in
        if n < c_rlpDataImmLenStart then Inr 1
        else if n \<le> c_rlpDataIndLenZero then Inr (n - c_rlpDataImmLenStart)
        else if n < c_rlpListStart then
          long_length (n - c_rlpDataIndLenZero) (c_rlpListStart - c_rlpDataImmLenStart - c_rlpMaxLengthBytes) d
        else if n \<le> c_rlpListIndLenZero then Inr (n - c_rlpListStart)
        else long_length (n - c_rlpListIndLenZero) (0x100 - c_rlpListStart - c_rlpMaxLengthBytes) d))"

definition lengthSize :: "bytes \<Rightarrow> nat" where
  "lengthSize d =
     (if isData d \<and> unat (d ! 0) > c_rlpDataIndLenZero then unat (d ! 0) - c_rlpDataIndLenZero
      else if isList d \<and> unat (d ! 0) > c_rlpListIndLenZero then unat (d ! 0) - c_rlpListIndLenZero
      else 0)"

definition payloadOffset :: "bytes \<Rightarrow> nat" where
  "payloadOffset d = (if isSingleByte d then 0 else 1 + lengthSize d)"

text \<open>\<open>vector_ref::cropped\<close>: None is the null reference.\<close>

definition cropped :: "nat \<Rightarrow> nat \<Rightarrow> bytes \<Rightarrow> bytes option" where
  "cropped begn cnt d = (if begn + cnt \<le> length d then Some (take cnt (drop begn d)) else None)"

definition contents_of :: "bytes option \<Rightarrow> bytes" where
  "contents_of r = (case r of None \<Rightarrow> [] | Some d \<Rightarrow> d)"

definition payload_ref :: "bytes \<Rightarrow> bytes option rlpR" where
  "payload_ref d = bindR (rlp_length d) (\<lambda>l. if l > length d then Inl BadRLP else Inr (cropped (payloadOffset d) l d))"

definition payload :: "bytes \<Rightarrow> bytes rlpR" where
  "payload d = bindR (payload_ref d) (\<lambda>r. Inr (contents_of r))"

definition actualSize :: "bytes \<Rightarrow> nat rlpR" where
  "actualSize d =
     (if isNull d then Inr 0
      else if isSingleByte d then Inr 1
      else if isData d \<or> isList d then bindR (rlp_length d) (\<lambda>l. Inr (payloadOffset d + l))
      else Inr 0)"

text \<open>The constructor: without \<open>ThrowOnFail\<close> a failure leaves a null node.\<close>

definition mkRLP :: "Strictness \<Rightarrow> bytes \<Rightarrow> bytes rlpR" where
  "mkRLP s d =
     bindR (if FailIfTooBig s
            then bindR (actualSize d) (\<lambda>n. if n < length d then (if ThrowOnFail s then Inl OversizeRLP else Inr []) else Inr d)
            else Inr d) (\<lambda>d1.
     if FailIfTooSmall s
     then bindR (actualSize d1) (\<lambda>n. if n > length d then (if ThrowOnFail s then Inl UndersizeRLP else Inr []) else Inr d1)
     else Inr d1)"

definition sizeAsEncoded :: "bytes \<Rightarrow> nat rlpR" where
  "sizeAsEncoded d =
     bindR (mkRLP \<lparr>AllowNonCanon = False, ThrowOnFail = True, FailIfTooBig = False, FailIfTooSmall = True\<rparr> d) actualSize"

definition isInt :: "bytes \<Rightarrow> bool rlpR" where
  "isInt d =
     (if isNull d then Inr False
      else bindR (requireGood d) (\<lambda>_.
        let n = unat (d ! 0) in
        if n < c_rlpDataImmLenStart then Inr (n \<noteq> 0)
        else if n = c_rlpDataImmLenStart then Inr True
        else if n \<le> c_rlpDataIndLenZero then (if length d \<le> 1 then Inl BadRLP else Inr (d ! 1 \<noteq> 0))
        else if n < c_rlpListStart then
          (if length d \<le> 1 + n - c_rlpDataIndLenZero then Inl BadRLP else Inr (d ! (1 + n - c_rlpDataIndLenZero) \<noteq> 0))
        else Inr False))"

lemma sizeAsEncoded_pos: "sizeAsEncoded d = Inr n \<Longrightarrow> d \<noteq> [] \<Longrightarrow> 0 < n \<and> n \<le> length d"
  by (auto simp: sizeAsEncoded_def mkRLP_def actualSize_def bindR_def isNull_def isData_def isList_def payloadOffset_def
      split: sum.splits if_splits)

function items_loop :: "nat \<Rightarrow> bytes \<Rightarrow> nat rlpR" where
  "items_loop i d =
     (if d = [] then Inr i
      else case sizeAsEncoded d of Inl e \<Rightarrow> Inl e | Inr n \<Rightarrow> items_loop (i + 1) (drop n d))"
  by auto
termination
  by (relation "measure (\<lambda>(_, d). length d)") (auto dest!: sizeAsEncoded_pos)

declare items_loop.simps [simp del]

definition items :: "bytes \<Rightarrow> nat rlpR" where
  "items d = (if isList d then bindR (payload d) (items_loop 0) else Inr 0)"

definition itemCount :: "bytes \<Rightarrow> nat rlpR" where
  "itemCount d = (if isList d then items d else Inr 0)"

definition itemCountStrict :: "bytes \<Rightarrow> nat rlpR" where
  "itemCountStrict d = (if \<not> isList d then Inl BadCast else items d)"


section \<open>Items of a list\<close>

text \<open>The subscript operator keeps the last item it found, its index and where it ends.\<close>

record rlp_cache =
  m_lastIndex :: nat
  m_lastEnd :: nat
  m_lastItem :: bytes

definition rlp_cache_init :: rlp_cache where
  "rlp_cache_init = \<lparr>m_lastIndex = 2 ^ 64 - 1, m_lastEnd = 0, m_lastItem = []\<rparr>"

definition liftR :: "'a rlpR \<Rightarrow> (rlp_exn, 's, 'a) exc" where
  "liftR r s = (r, s)"

primrec index_loop :: "nat \<Rightarrow> bytes \<Rightarrow> (rlp_exn, rlp_cache, unit) exc" where
  "index_loop 0 d = ret ()"
| "index_loop (Suc n) d =
     bindE (getE m_lastItem) (\<lambda>item.
     if item = [] then ret ()
     else
       bindE (liftR (payload d)) (\<lambda>p.
       thenE (updE (\<lambda>c. c\<lparr>m_lastItem := drop (m_lastEnd c) p\<rparr>))
      (bindE (getE m_lastItem) (\<lambda>rest.
       bindE (liftR (sizeAsEncoded rest)) (\<lambda>n'.
       thenE (updE (\<lambda>c. c\<lparr>m_lastItem := contents_of (cropped 0 n' rest),
                           m_lastEnd := m_lastEnd c + length (contents_of (cropped 0 n' rest)),
                           m_lastIndex := m_lastIndex c + 1\<rparr>))
             (index_loop n d))))))"

definition index_reset :: "bytes \<Rightarrow> (rlp_exn, rlp_cache, unit) exc" where
  "index_reset d =
     bindE (liftR (bindR (payload d) sizeAsEncoded)) (\<lambda>e.
     bindE (liftR (payload d)) (\<lambda>p.
     updE (\<lambda>c. \<lparr>m_lastIndex = 0, m_lastEnd = e, m_lastItem = contents_of (cropped 0 e p)\<rparr>)))"

definition rlp_at :: "bytes \<Rightarrow> nat \<Rightarrow> (rlp_exn, rlp_cache, bytes) exc" where
  "rlp_at d i =
     bindE (getE m_lastIndex) (\<lambda>last.
     thenE (if i < last then index_reset d else ret ())
    (bindE (getE m_lastIndex) (\<lambda>last.
     thenE (index_loop (i - last) d)
    (bindE (getE m_lastItem) (\<lambda>item.
     liftR (mkRLP \<lparr>AllowNonCanon = False, ThrowOnFail = True, FailIfTooBig = False, FailIfTooSmall = True\<rparr> item))))))"

text \<open>
  Iterators compare by position: a reference into the data is its offset and its size, None
  the null reference.
\<close>

record rlp_iterator =
  m_currentItem :: "(nat \<times> nat) option"
  m_remaining :: nat

definition view_of :: "bytes \<Rightarrow> (nat \<times> nat) option \<Rightarrow> bytes" where
  "view_of d r = (case r of None \<Rightarrow> [] | Some (pos, cnt) \<Rightarrow> take cnt (drop pos d))"

definition crop_view :: "nat \<Rightarrow> (nat \<times> nat) option \<Rightarrow> (nat \<times> nat) option" where
  "crop_view n r = (case r of None \<Rightarrow> None | Some (pos, cnt) \<Rightarrow> if n \<le> cnt then Some (pos, n) else None)"

definition view_size :: "(nat \<times> nat) option \<Rightarrow> nat" where
  "view_size r = (case r of None \<Rightarrow> 0 | Some (_, cnt) \<Rightarrow> cnt)"

definition iter_end :: "bytes \<Rightarrow> rlp_iterator" where
  "iter_end d = \<lparr>m_currentItem = Some (length d, 0), m_remaining = 0\<rparr>"

definition iter_begin :: "bytes \<Rightarrow> rlp_iterator rlpR" where
  "iter_begin d =
     (if isList d then
        bindR (payload_ref d) (\<lambda>p.
        let pl = (case p of None \<Rightarrow> None | Some q \<Rightarrow> Some (payloadOffset d, length q)) in
        bindR (sizeAsEncoded (view_of d pl)) (\<lambda>n.
        let item = crop_view n pl in
        Inr \<lparr>m_currentItem = item, m_remaining = view_size pl - view_size item\<rparr>))
      else Inr (iter_end d))"

definition iter_next :: "bytes \<Rightarrow> rlp_iterator \<Rightarrow> rlp_iterator rlpR" where
  "iter_next d it =
     (let nxt = (\<lambda>cnt. case m_currentItem it of None \<Rightarrow> None | Some (pos, c) \<Rightarrow> Some (pos + c, cnt)) in
      if m_remaining it \<noteq> 0 then
        bindR (sizeAsEncoded (view_of d (nxt (m_remaining it)))) (\<lambda>n.
        let item = crop_view n (nxt (m_remaining it)) in
        Inr \<lparr>m_currentItem = item, m_remaining = m_remaining it - min (m_remaining it) (view_size item)\<rparr>)
      else Inr \<lparr>m_currentItem = nxt 0, m_remaining = 0\<rparr>)"

text \<open>The range-based \<open>for\<close> over the items; None is a loop that does not end.\<close>

partial_function (option) iter_list :: "bytes \<Rightarrow> rlp_iterator \<Rightarrow> bytes list rlpR option" where
  "iter_list d it =
     (if m_currentItem it = m_currentItem (iter_end d) then Some (Inr [])
      else case mkRLP VeryStrict (view_of d (m_currentItem it)) of
        Inl e \<Rightarrow> Some (Inl e)
      | Inr r \<Rightarrow> (case iter_next d it of
          Inl e \<Rightarrow> Some (Inl e)
        | Inr it' \<Rightarrow> Option.bind (iter_list d it') (\<lambda>rs. Some (bindR rs (\<lambda>l. Inr (r # l))))))"

declare iter_list.simps [code]

definition rlp_items :: "bytes \<Rightarrow> bytes list rlpR option" where
  "rlp_items d = (case iter_begin d of Inl e \<Rightarrow> Some (Inl e) | Inr it \<Rightarrow> iter_list d it)"

definition toList :: "Strictness \<Rightarrow> bytes \<Rightarrow> bytes list rlpR option" where
  "toList f d = (if \<not> isList d then Some (if ThrowOnFail f then Inl BadCast else Inr []) else rlp_items d)"


section \<open>Conversions\<close>

text \<open>\<open>toBytes\<close> reads \<open>length()\<close> bytes from the start of the payload, also when that is null.\<close>

definition toBytes :: "Strictness \<Rightarrow> bytes \<Rightarrow> bytes rlpR" where
  "toBytes f d =
     (if \<not> isData d then (if ThrowOnFail f then Inl BadCast else Inr [])
      else bindR (payload_ref d) (\<lambda>p. bindR (rlp_length d) (\<lambda>l. case p of
        Some q \<Rightarrow> Inr q
      | None \<Rightarrow> if l = 0 then Inr [] else Inl OutOfBounds)))"

definition toString :: "Strictness \<Rightarrow> bytes \<Rightarrow> bytes rlpR" where
  "toString f d =
     (if \<not> isData d then (if ThrowOnFail f then Inl BadCast else Inr [])
      else bindR (payload d) (\<lambda>p. bindR (rlp_length d) (\<lambda>l. Inr (contents_of (cropped 0 l p)))))"

text \<open>\<open>toInt\<close> into an integer of \<open>maxSize\<close> bytes.\<close>

definition toInt :: "nat \<Rightarrow> Strictness \<Rightarrow> bytes \<Rightarrow> nat rlpR" where
  "toInt maxSize f d =
     bindR (requireGood d) (\<lambda>_.
     bindR (isInt d) (\<lambda>int.
     if (\<not> int \<and> \<not> AllowNonCanon f) \<or> isList d \<or> isNull d
     then (if ThrowOnFail f then Inl BadCast else Inr 0)
     else bindR (payload d) (\<lambda>p.
       if length p > maxSize \<and> FailIfTooBig f then (if ThrowOnFail f then Inl BadCast else Inr 0)
       else Inr (fromBigEndian p mod 256 ^ maxSize))))"

definition toHash :: "nat \<Rightarrow> Strictness \<Rightarrow> bytes \<Rightarrow> bytes rlpR" where
  "toHash n f d =
     bindR (requireGood d) (\<lambda>_.
     bindR (payload d) (\<lambda>p.
       let l = length p in
       if \<not> isData d \<or> (l > n \<and> FailIfTooBig f) \<or> (l < n \<and> FailIfTooSmall f)
       then (if ThrowOnFail f then Inl BadCast else Inr (replicate n 0))
       else let s = min n l in Inr (replicate (n - s) 0 @ take s p)))"

text \<open>Pairs, for any conversion of the items; \<open>dflt\<close> is the pair of default values.\<close>

definition toPair :: "(bytes \<Rightarrow> 'a rlpR) \<Rightarrow> (bytes \<Rightarrow> 'b rlpR) \<Rightarrow> 'a \<times> 'b \<Rightarrow> Strictness \<Rightarrow> bytes \<Rightarrow> (rlp_exn, rlp_cache, 'a \<times> 'b) exc" where
  "toPair conv1 conv2 dflt f d =
     bindE (liftR (itemCountStrict d)) (\<lambda>n.
     if n \<noteq> 2 then (if ThrowOnFail f then throw BadCast else ret dflt)
     else
       bindE (rlp_at d 0) (\<lambda>a. bindE (liftR (conv1 a)) (\<lambda>x.
       bindE (rlp_at d 1) (\<lambda>b. bindE (liftR (conv2 b)) (\<lambda>y. ret (x, y))))))"


section \<open>Writing\<close>

text \<open>The stack of open lists has its back at the head: items missing and start of the list.\<close>

record RLPStream =
  m_out :: bytes
  m_listStack :: "(nat \<times> nat) list"

type_synonym 'a rlpW = "(rlp_exn, RLPStream, 'a) exc"

definition RLPStream_init :: RLPStream where "RLPStream_init = \<lparr>m_out = [], m_listStack = []\<rparr>"

definition push_bytes :: "bytes \<Rightarrow> unit rlpW" where
  "push_bytes bs = updE (m_out_update (\<lambda>os. os @ bs))"

definition pushInt :: "nat \<Rightarrow> nat \<Rightarrow> unit rlpW" where
  "pushInt i br = push_bytes (toBigEndian br i)"

definition pushCount :: "nat \<Rightarrow> nat \<Rightarrow> unit rlpW" where
  "pushCount n base =
     (let br = bytesRequired n in
      thenE (throwIf (br + base > 0xff) RLPException)
     (thenE (push_bytes [of_nat (br + base)]) (pushInt n br)))"

text \<open>A list is complete: its payload moves up and its header goes in front of it.\<close>

definition close_list :: "nat \<Rightarrow> unit rlpW" where
  "close_list p st =
     (let s = length (m_out st) - p;
          brs = bytesRequired s;
          insert = (\<lambda>hd. st\<lparr>m_out := take p (m_out st) @ hd @ drop p (m_out st)\<rparr>)
      in if s < c_rlpListImmLenCount then (Inr (), insert [of_nat (c_rlpListStart + s)])
         else if c_rlpListIndLenZero + brs \<le> 0xff then (Inr (), insert (of_nat (c_rlpListIndLenZero + brs) # toBigEndian brs s))
         else (Inl RLPException, insert (replicate (1 + brs) 0)))"

fun note_loop :: "nat \<Rightarrow> (nat \<times> nat) list \<Rightarrow> unit rlpW" where
  "note_loop k [] st = (Inr (), st\<lparr>m_listStack := []\<rparr>)"
| "note_loop k ((n, p) # rest) st =
     (if n < k then (Inl RLPException, st\<lparr>m_listStack := (n, p) # rest\<rparr>)
      else if n - k \<noteq> 0 then (Inr (), st\<lparr>m_listStack := (n - k, p) # rest\<rparr>)
      else (case close_list p (st\<lparr>m_listStack := rest\<rparr>) of
          (Inl e, st') \<Rightarrow> (Inl e, st')
        | (Inr _, st') \<Rightarrow> note_loop 1 rest st'))"

definition noteAppended :: "nat \<Rightarrow> unit rlpW" where
  "noteAppended k st = (if k = 0 then (Inr (), st) else note_loop k (m_listStack st) st)"

definition appendRaw :: "bytes \<Rightarrow> nat \<Rightarrow> unit rlpW" where
  "appendRaw bs k = thenE (push_bytes bs) (noteAppended k)"

definition appendListRaw :: "bytes \<Rightarrow> unit rlpW" where
  "appendListRaw rlp =
     thenE (if length rlp < c_rlpListImmLenCount then push_bytes [of_nat (length rlp + c_rlpListStart)]
            else pushCount (length rlp) c_rlpListIndLenZero)
           (appendRaw rlp 1)"

definition appendList :: "nat \<Rightarrow> unit rlpW" where
  "appendList n =
     (if n \<noteq> 0 then updE (\<lambda>st. st\<lparr>m_listStack := (n, length (m_out st)) # m_listStack st\<rparr>)
      else appendListRaw [])"

definition append_bytes :: "bytes \<Rightarrow> bool \<Rightarrow> unit rlpW" where
  "append_bytes bs compact =
     (let d = (if compact then dropWhile (\<lambda>b. b = 0) bs else bs);
          s = length d
      in thenE (if s = 1 \<and> unat (d ! 0) < c_rlpDataImmLenStart then push_bytes [d ! 0]
                else
                  thenE (if s < c_rlpDataImmLenCount then push_bytes [of_nat (s + c_rlpDataImmLenStart)]
                         else pushCount s c_rlpDataIndLenZero)
                        (appendRaw d 0))
               (noteAppended 1))"

definition append_int :: "nat \<Rightarrow> unit rlpW" where
  "append_int i =
     thenE (if i = 0 then push_bytes [of_nat c_rlpDataImmLenStart]
            else if i < c_rlpDataImmLenStart then push_bytes [of_nat i]
            else
              let br = bytesRequired i in
              thenE (if br < c_rlpDataImmLenCount then push_bytes [of_nat (br + c_rlpDataImmLenStart)]
                     else
                       let brbr = bytesRequired br in
                       thenE (throwIf (c_rlpDataIndLenZero + brbr > 0xff) RLPException)
                      (thenE (push_bytes [of_nat (c_rlpDataIndLenZero + brbr)]) (pushInt br brbr)))
                    (pushInt i br))
           (noteAppended 1)"

definition rlp_out :: "bytes rlpW" where
  "rlp_out = bindE (getE m_listStack) (\<lambda>st. if st \<noteq> [] then throw RLPException else getE m_out)"

text \<open>Nested vectors (\<open>appendVector\<close>): byte strings at the leaves.\<close>

datatype rlp_tree = Leaf bytes | Node "rlp_tree list"

primrec append_tree :: "rlp_tree \<Rightarrow> unit rlpW" where
  "append_tree (Leaf bs) = append_bytes bs False"
| "append_tree (Node ts) =
     thenE (appendList (length ts)) (foldr (\<lambda>m r. thenE m r) (map append_tree ts) (ret ()))"

definition rlp :: "rlp_tree \<Rightarrow> bytes rlpR" where
  "rlp t = fst (thenE (append_tree t) rlp_out RLPStream_init)"

end
