(* ===== verification/RlpProps.thy ===== *)
theory RlpProps
  imports Rlp
begin

text \<open>
  The reader and the writer of \<open>RLP\<close> agree with the recursive definition of the encoding:
  the stream writes it, the strict reader accepts exactly it, and the subscript operator with
  its cache returns the items an iteration returns.
\<close>

section \<open>Numbers\<close>

lemmas rlp_consts = c_rlpMaxLengthBytes_def c_rlpDataImmLenStart_def c_rlpListStart_def c_rlpDataImmLenCount_def
  c_rlpDataIndLenZero_def c_rlpListImmLenCount_def c_rlpListIndLenZero_def

lemma unat_u8_less: "unat (b :: u8) < 256"
  using unsigned_less [of b] by simp

lemma unat_of_nat_u8: "n < 256 \<Longrightarrow> unat (of_nat n :: u8) = n"
  by (simp add: unat_of_nat take_bit_nat_eq_self)

lemma fromBigEndian_le: "fromBigEndian bs = le_val (rev bs)"
proof -
  have "foldl (\<lambda>ret b. ret * 256 + unat b) a bs = a * 256 ^ length bs + le_val (rev bs)" for a
    by (induction bs arbitrary: a) (simp_all add: le_val_append algebra_simps)
  from this [of 0] show ?thesis by (simp add: fromBigEndian_def)
qed

lemma bytesRequired_0 [simp]: "bytesRequired 0 = 0"
  by (simp add: bytesRequired.simps)

lemma bytesRequired_le: "bytesRequired n \<le> k \<longleftrightarrow> n < 256 ^ k"
proof (induction n arbitrary: k rule: bytesRequired.induct)
  case (1 n)
  show ?case
  proof (cases "n = 0")
    case False
    then have "bytesRequired n = Suc (bytesRequired (n div 256))" by (simp add: bytesRequired.simps [of n])
    with 1 [OF False] False show ?thesis
      by (cases k) (auto simp: less_mult_imp_div_less div_less_iff_less_mult mult.commute)
  qed simp
qed

lemma bytesRequired_gt: "k < bytesRequired n \<longleftrightarrow> 256 ^ k \<le> n"
  using bytesRequired_le [of n k] by linarith

lemma length_toBigEndian [simp]: "length (toBigEndian n v) = n"
  by (simp add: toBigEndian_def)

lemma from_toBigEndian: "v < 256 ^ n \<Longrightarrow> fromBigEndian (toBigEndian n v) = v"
  by (simp add: fromBigEndian_le toBigEndian_def le_val_bytes)

lemma to_fromBigEndian: "toBigEndian (length bs) (fromBigEndian bs) = bs"
  using le_bytes_val [of "rev bs"] by (simp add: fromBigEndian_le toBigEndian_def)

lemma fromBigEndian_less: "fromBigEndian bs < 256 ^ length bs"
  using le_val_less [of "rev bs"] by (simp add: fromBigEndian_le)

lemma fromBigEndian_Cons: "fromBigEndian (b # bs) = unat b * 256 ^ length bs + fromBigEndian bs"
  by (simp add: fromBigEndian_le le_val_append)

text \<open>A number without leading zeros has as many bytes as it requires.\<close>

lemma bytesRequired_from: "b \<noteq> 0 \<Longrightarrow> bytesRequired (fromBigEndian (b # bs)) = Suc (length bs)"
proof (rule antisym)
  assume b: "b \<noteq> 0"
  show "bytesRequired (fromBigEndian (b # bs)) \<le> Suc (length bs)"
    using fromBigEndian_less [of "b # bs"] by (simp add: bytesRequired_le)
  have "1 \<le> unat b" using b by (simp add: Suc_le_eq unat_gt_0)
  then have "256 ^ length bs \<le> fromBigEndian (b # bs)" unfolding fromBigEndian_Cons by (metis mult_le_mono1 mult_1 trans_le_add1)
  then have "length bs < bytesRequired (fromBigEndian (b # bs))" by (simp add: bytesRequired_gt)
  then show "Suc (length bs) \<le> bytesRequired (fromBigEndian (b # bs))" by simp
qed

lemma toBigEndian_head:
  assumes "0 < n"
  obtains b bs where "toBigEndian (bytesRequired n) n = b # bs" "b \<noteq> 0"
proof -
  have "0 < bytesRequired n" using assms bytesRequired_gt [of 0 n] by simp
  then obtain b bs where e: "toBigEndian (bytesRequired n) n = b # bs"
    by (metis length_toBigEndian length_greater_0_conv neq_Nil_conv)
  have "b \<noteq> 0"
  proof
    assume "b = 0"
    have "n = fromBigEndian (b # bs)" using from_toBigEndian [of n "bytesRequired n"] bytesRequired_le [of n "bytesRequired n"] e by simp
    also have "\<dots> < 256 ^ length bs" using fromBigEndian_less [of bs] \<open>b = 0\<close> by (simp add: fromBigEndian_Cons)
    finally have "bytesRequired n \<le> length bs" by (simp add: bytesRequired_le)
    moreover have "bytesRequired n = Suc (length bs)" using e by (metis length_toBigEndian length_Cons)
    ultimately show False by simp
  qed
  with e that show thesis by blast
qed


section \<open>The encoding\<close>

definition header :: "nat \<Rightarrow> nat \<Rightarrow> bytes" where
  "header base n = (if n < 56 then [of_nat (base + n)] else of_nat (base + 55 + bytesRequired n) # toBigEndian (bytesRequired n) n)"

fun enc :: "rlp_tree \<Rightarrow> bytes" where
  "enc (Leaf bs) = (if length bs = 1 \<and> unat (bs ! 0) < 128 then bs else header 128 (length bs) @ bs)"
| "enc (Node ts) = header 192 (length (concat (map enc ts))) @ concat (map enc ts)"

definition rlp_limit :: nat where "rlp_limit = 2 ^ 64 - 257"

lemma bytesRequired_8: "n < 2 ^ 64 \<Longrightarrow> bytesRequired n \<le> 8"
  by (simp add: bytesRequired_le)

lemma header_length: "header base n \<noteq> []" "length (header base n) = (if n < 56 then 1 else 1 + bytesRequired n)"
  by (simp_all add: header_def)

text \<open>What the reader sees of a header: \<open>base\<close> is 128 for data and 192 for lists.\<close>

lemma header_first:
  assumes "base \<in> {128, 192}" "n < 2 ^ 64"
  shows "unat (header base n ! 0) = base + (if n < 56 then n else 55 + bytesRequired n)"
    "base + (if n < 56 then n else 55 + bytesRequired n) < base + 64"
proof -
  have "(if n < 56 then n else 55 + bytesRequired n) < 64" using bytesRequired_8 [OF assms(2)] by auto
  then show "base + (if n < 56 then n else 55 + bytesRequired n) < base + 64" by simp
  with assms(1) have "base + (if n < 56 then n else 55 + bytesRequired n) < 256" by auto
  then have "unat (of_nat (base + (if n < 56 then n else 55 + bytesRequired n)) :: u8) = base + (if n < 56 then n else 55 + bytesRequired n)"
    by (rule unat_of_nat_u8)
  then show "unat (header base n ! 0) = base + (if n < 56 then n else 55 + bytesRequired n)"
    by (simp add: header_def add.assoc del: of_nat_add split: if_splits)
qed

lemma bytesRequired_pos: "56 \<le> n \<Longrightarrow> 0 < bytesRequired n"
  using bytesRequired_gt [of 0 n] by simp

definition good_head :: "nat \<Rightarrow> nat \<Rightarrow> bytes \<Rightarrow> bool" where
  "good_head base n p \<longleftrightarrow> base \<in> {128, 192} \<and> n < rlp_limit \<and> (base = 128 \<and> n = 1 \<longrightarrow> p \<noteq> [] \<and> 128 \<le> unat (p ! 0))"

lemma head_kind:
  assumes "good_head base n p"
  shows "isData (header base n @ p) \<longleftrightarrow> base = 128" "isList (header base n @ p) \<longleftrightarrow> base = 192" "\<not> isSingleByte (header base n @ p)"
    "payloadOffset (header base n @ p) = length (header base n)"
proof -
  have b: "base = 128 \<or> base = 192" "n < 2 ^ 64" using assms by (auto simp: good_head_def rlp_limit_def)
  define d m where "d = header base n @ p" and "m = (if n < 56 then n else 55 + bytesRequired n)"
  have d: "d \<noteq> []" "unat (d ! 0) = base + m" "m < 64"
    using header_first [of base n] b by (auto simp: d_def m_def nth_append header_length)
  have k: "isData d \<longleftrightarrow> base = 128" "isList d \<longleftrightarrow> base = 192" "\<not> isSingleByte d"
    using b(1) d by (auto simp: isData_def isList_def isSingleByte_def isNull_def rlp_consts)
  moreover have "lengthSize d = m - 55"
    using b(1) k d(2) by (auto simp: lengthSize_def rlp_consts)
  moreover have "length (header base n) = 1 + (m - 55)" by (simp add: header_length m_def)
  ultimately show "isData (header base n @ p) \<longleftrightarrow> base = 128" "isList (header base n @ p) \<longleftrightarrow> base = 192"
    "\<not> isSingleByte (header base n @ p)" "payloadOffset (header base n @ p) = length (header base n)"
    by (simp_all add: d_def payloadOffset_def)
qed

lemma long_length_header:
  assumes "56 \<le> n" "n < rlp_limit" "d = b0 # toBigEndian (bytesRequired n) n @ p"
  shows "long_length (bytesRequired n) 56 d = Inr n"
proof -
  obtain b bs where h: "toBigEndian (bytesRequired n) n = b # bs" "b \<noteq> 0" using toBigEndian_head [of n] assms(1) by auto
  have l: "bytesRequired n = Suc (length bs)" using h(1) by (metis length_toBigEndian length_Cons)
  have "fromBigEndian (b # bs) = n"
    using from_toBigEndian [of n "bytesRequired n"] bytesRequired_le [of n "bytesRequired n"] h(1) by simp
  moreover have "bytesRequired n \<le> 8" using assms(2) by (intro bytesRequired_8) (simp add: rlp_limit_def)
  ultimately show ?thesis using assms h l by (simp add: long_length_def Let_def rlp_limit_def)
qed

lemma rlp_length_header:
  assumes "good_head base n p"
  shows "rlp_length (header base n @ p) = Inr n"
proof -
  have b: "base = 128 \<or> base = 192" "n < 2 ^ 64" "n < rlp_limit" using assms by (auto simp: good_head_def rlp_limit_def)
  define d m where "d = header base n @ p" and "m = (if n < 56 then n else 55 + bytesRequired n)"
  have d: "d \<noteq> []" "unat (d ! 0) = base + m" "m < 64"
    using header_first [of base n] b by (auto simp: d_def m_def nth_append header_length)
  have "n = 1 \<and> d = header base n @ p \<and> length (header base n) = 1" if "m = 1"
    using that bytesRequired_pos [of n] by (auto simp: m_def d_def header_length split: if_splits)
  then have "requireGood d = Inr ()"
    using assms d b(1) by (auto simp: requireGood_def isNull_def rlp_consts good_head_def nth_append)
  moreover have "long_length (m - 55) 56 d = Inr n" if "\<not> n < 56"
    using that b(3) long_length_header [of n d _ p] by (simp add: d_def m_def header_def)
  moreover have "\<not> n < 56 \<Longrightarrow> 55 < m" using bytesRequired_pos [of n] by (simp add: m_def)
  moreover have "n < 56 \<Longrightarrow> m = n" by (simp add: m_def)
  ultimately have "rlp_length d = Inr n"
    using d b(1) by (cases "n < 56") (auto simp: rlp_length_def isNull_def bindR_def Let_def rlp_consts)
  then show ?thesis by (simp add: d_def)
qed

lemma long_length_Inr:
  assumes "long_length k 56 d = Inr n" "0 < k"
  shows "d = d ! 0 # toBigEndian (bytesRequired n) n @ drop (Suc k) d" "bytesRequired n = k" "56 \<le> n" "n < rlp_limit"
proof -
  have l: "k < length d" "d ! 1 \<noteq> 0" "n = fromBigEndian (take k (drop 1 d))" and n: "56 \<le> n" "n < rlp_limit"
    using assms by (auto simp: long_length_def Let_def rlp_limit_def split: if_splits)
  obtain a b t where d: "d = a # b # t" using l(1) assms(2) by (cases d; cases "tl d") auto
  obtain j where k: "k = Suc j" using assms(2) by (cases k) auto
  have bs: "take k (drop 1 d) = b # take j t" by (simp add: d k)
  have len: "length (take j t) = j" using l(1) by (simp add: d k)
  have b: "b \<noteq> 0" using l(2) by (simp add: d)
  show "bytesRequired n = k" using bytesRequired_from [OF b, of "take j t"] l(3) bs len k by simp
  moreover have "toBigEndian k n = take k (drop 1 d)"
    using to_fromBigEndian [of "take k (drop 1 d)"] l(1,3) by simp
  ultimately show "d = d ! 0 # toBigEndian (bytesRequired n) n @ drop (Suc k) d"
    using append_take_drop_id [of k "drop 1 d"] by (simp add: d)
  show "56 \<le> n" "n < rlp_limit" using n by simp_all
qed

lemma rlp_length_Inr:
  assumes "rlp_length d = Inr n" "d \<noteq> []" "\<not> isSingleByte d"
  obtains base p where "d = header base n @ p" "good_head base n p"
proof -
  note found = that
  define h where "h = unat (d ! 0)"
  have h: "128 \<le> h" "h < 256" using assms(2,3) unat_u8_less [of "d ! 0"] by (auto simp: h_def isSingleByte_def isNull_def rlp_consts)
  have d0: "d ! 0 = of_nat h" by (simp add: h_def)
  have g: "requireGood d = Inr ()" using assms by (auto simp: rlp_length_def bindR_def isNull_def split: sum.splits)
  have cons: "d = d ! 0 # tl d" using assms(2) by (cases d) simp_all
  have short: thesis if b: "base \<in> {128, 192}" and n: "n = h - base" "base \<le> h" "h \<le> base + 55" for base
  proof (rule found [of base "tl d"])
    have "n < 56" "base + n = h" using n by linarith+
    then show "d = header base n @ tl d" using cons d0 by (simp add: header_def del: of_nat_add)
    show "good_head base n (tl d)"
      using g b n assms(2) cons
      by (cases d) (auto simp: good_head_def rlp_limit_def requireGood_def isNull_def rlp_consts h_def nth_tl split: if_splits)
  qed
  have long: thesis if l: "long_length (h - (base + 55)) 56 d = Inr n" and b: "base \<in> {128, 192}" "base + 55 < h" for base
  proof (rule found [of base "drop (Suc (h - (base + 55))) d"])
    note ll = long_length_Inr [OF l]
    have "base + 55 + bytesRequired n = h" using ll(2) b(2) by simp
    then show "d = header base n @ drop (Suc (h - (base + 55))) d"
      using ll(1,3) b(2) d0 by (simp add: header_def del: of_nat_add)
    show "good_head base n (drop (Suc (h - (base + 55))) d)" using ll(3,4) b by (auto simp: good_head_def)
  qed
  have r: "(if h \<le> 183 then Inr (h - 128) else if h < 192 then long_length (h - 183) 56 d
      else if h \<le> 247 then Inr (h - 192) else long_length (h - 247) 56 d) = Inr n"
  proof -
    have "\<not> h < 128" using h(1) by simp
    with assms(1,2) g show ?thesis
      by (auto simp: rlp_length_def isNull_def bindR_def Let_def rlp_consts simp flip: h_def split: if_splits)
  qed
  consider "h \<le> 183" | "183 < h" "h < 192" | "192 \<le> h" "h \<le> 247" | "247 < h" by linarith
  then show thesis
    by cases (use r h short [of 128] short [of 192] long [of 128] long [of 192] in simp_all)
qed

lemma exact_iff:
  assumes "d \<noteq> []" "\<not> isSingleByte d"
  shows "actualSize d = Inr k \<longleftrightarrow> (\<exists>base n p. d = header base n @ p \<and> good_head base n p \<and> k = length (header base n) + n)"
proof
  assume a: "actualSize d = Inr k"
  then obtain n where n: "rlp_length d = Inr n" "k = payloadOffset d + n"
    using assms by (auto simp: actualSize_def isNull_def bindR_def isData_def isList_def split: sum.splits if_splits)
  obtain base p where h: "d = header base n @ p" "good_head base n p" by (rule rlp_length_Inr [OF n(1) assms])
  have "k = length (header base n) + n" using n(2) head_kind(4) [OF h(2)] unfolding h(1) by simp
  with h show "\<exists>base n p. d = header base n @ p \<and> good_head base n p \<and> k = length (header base n) + n"
    by (intro exI conjI)
next
  assume "\<exists>base n p. d = header base n @ p \<and> good_head base n p \<and> k = length (header base n) + n"
  then obtain base n p where d: "d = header base n @ p" "good_head base n p" "k = length (header base n) + n" by blast
  have "isData d \<or> isList d" using assms(1) by (auto simp: isData_def isList_def isNull_def)
  with d assms head_kind(4) [OF d(2)] rlp_length_header [OF d(2)] show "actualSize d = Inr k"
    by (simp add: actualSize_def isNull_def bindR_def header_length)
qed

text \<open>A byte string that is one item: a single byte, or a header and the payload it announces.\<close>

definition exact :: "bytes \<Rightarrow> bool" where
  "exact d \<longleftrightarrow> actualSize d = Inr (length d)"

lemma mkRLP_VeryStrict: "mkRLP VeryStrict d = Inr r \<longleftrightarrow> r = d \<and> exact d"
  by (auto simp: mkRLP_def VeryStrict_def bindR_def exact_def split: sum.splits if_splits)

lemma single_byte: "isSingleByte d \<Longrightarrow> rlp_length d = Inr 1 \<and> actualSize d = Inr 1 \<and> payloadOffset d = 0 \<and> isData d \<and> \<not> isList d"
  by (auto simp: isSingleByte_def isData_def isList_def rlp_length_def actualSize_def payloadOffset_def requireGood_def bindR_def rlp_consts Let_def)

lemma exact_cases:
  assumes "exact d" "d \<noteq> []"
  obtains (byte) b where "d = [b]" "unat b < 128"
  | (item) base n p where "d = header base n @ p" "good_head base n p" "length p = n" "\<not> isSingleByte d"
proof (cases "isSingleByte d")
  case True
  then have "length d = 1" using assms(1) single_byte [OF True] by (simp add: exact_def)
  then obtain b where "d = [b]" by (auto simp: length_Suc_conv)
  with True byte show thesis by (simp add: isSingleByte_def rlp_consts)
next
  case False
  then obtain base n p where "d = header base n @ p" "good_head base n p" "length d = length (header base n) + n"
    using exact_iff [OF assms(2) False] assms(1) unfolding exact_def by blast
  with False item show thesis by simp
qed

lemma exact_header: "good_head base n p \<Longrightarrow> length p = n \<Longrightarrow> exact (header base n @ p)"
  using exact_iff [of "header base n @ p" "length (header base n) + n"] head_kind(3) [of base n p]
  by (simp add: exact_def header_length) blast

lemma payload_header:
  "good_head base n p \<Longrightarrow> length p = n \<Longrightarrow> payload_ref (header base n @ p) = Inr (Some p)"
  by (simp add: payload_ref_def rlp_length_header head_kind(4) bindR_def cropped_def)

text \<open>The byte strings that are read as data are the encodings of byte strings.\<close>

lemma exact_Leaf: "length bs < rlp_limit \<Longrightarrow> exact (enc (Leaf bs)) \<and> isData (enc (Leaf bs)) \<and> toBytes f (enc (Leaf bs)) = Inr bs"
proof (cases "length bs = 1 \<and> unat (bs ! 0) < 128")
  case True
  then obtain b where b: "bs = [b]" by (auto simp: length_Suc_conv)
  with True have s: "isSingleByte [b]" by (simp add: isSingleByte_def isNull_def rlp_consts)
  with b True show ?thesis
    using single_byte [OF s] by (simp add: exact_def toBytes_def payload_ref_def bindR_def cropped_def)
next
  case False
  assume "length bs < rlp_limit"
  with False have g: "good_head 128 (length bs) bs" by (auto simp: good_head_def)
  have e: "enc (Leaf bs) = header 128 (length bs) @ bs" using False by auto
  show ?thesis unfolding e
    using exact_header [OF g] head_kind [OF g] by (simp add: toBytes_def payload_header [OF g] rlp_length_header [OF g] bindR_def)
qed

lemma Leaf_unique:
  assumes "exact d" "isData d" "toBytes f d = Inr bs"
  shows "d = enc (Leaf bs)"
proof -
  have "d \<noteq> []" using assms(2) by (simp add: isData_def isNull_def)
  with assms(1) show ?thesis
  proof (cases rule: exact_cases)
    case (byte b)
    then have "isSingleByte d" by (simp add: isSingleByte_def isNull_def rlp_consts)
    with assms(2,3) byte single_byte [of d] have "bs = [b]" by (simp add: toBytes_def payload_ref_def bindR_def cropped_def)
    with byte show ?thesis by simp
  next
    case (item base n p)
    have "base = 128" using assms(2) head_kind(1) [OF item(2)] item(1) by simp
    moreover have "bs = p"
      using assms(2,3) item payload_header [OF item(2)] rlp_length_header [OF item(2)] by (simp add: toBytes_def bindR_def)
    ultimately show ?thesis using item(1-3) by (auto simp: good_head_def)
  qed
qed


section \<open>Lists\<close>

lemma sizeAsEncoded_iff: "sizeAsEncoded d = Inr n \<longleftrightarrow> actualSize d = Inr n \<and> n \<le> length d"
  by (auto simp: sizeAsEncoded_def mkRLP_def bindR_def split: sum.splits if_splits)

text \<open>The items of a payload, one after the other.\<close>

function split_items :: "bytes \<Rightarrow> bytes list rlpR" where
  "split_items q =
     (if q = [] then Inr []
      else case sizeAsEncoded q of
        Inl e \<Rightarrow> Inl e
      | Inr n \<Rightarrow> bindR (mkRLP VeryStrict (take n q)) (\<lambda>r.
                 case split_items (drop n q) of Inl e \<Rightarrow> Inl e | Inr rs \<Rightarrow> Inr (r # rs)))"
  by auto
termination
  by (relation "measure length") (auto dest!: sizeAsEncoded_pos)

declare split_items.simps [simp del]

lemma split_items_Nil [simp]: "split_items [] = Inr []"
  by (simp add: split_items.simps)

lemma iter_run:
  assumes "pos \<le> length d" "drop pos d \<noteq> []" "sizeAsEncoded (drop pos d) = Inr n"
  shows "iter_list d \<lparr>m_currentItem = Some (pos, n), m_remaining = length (drop pos d) - n\<rparr> = Some (split_items (drop pos d))"
  using assms
proof (induction "length d - pos" arbitrary: pos n rule: less_induct)
  case less
  let ?q = "drop pos d" and ?rem = "length d - pos - n"
  have n: "0 < n" "n \<le> length ?q" using sizeAsEncoded_pos [OF less.prems(3,2)] by simp_all
  have u: "iter_list d \<lparr>m_currentItem = Some (pos, n), m_remaining = ?rem\<rparr> =
      (case mkRLP VeryStrict (take n ?q) of Inl e \<Rightarrow> Some (Inl e)
       | Inr r \<Rightarrow> (case iter_next d \<lparr>m_currentItem = Some (pos, n), m_remaining = ?rem\<rparr> of
           Inl e \<Rightarrow> Some (Inl e)
         | Inr it' \<Rightarrow> Option.bind (iter_list d it') (\<lambda>rs. Some (bindR rs (\<lambda>l. Inr (r # l))))))"
    using less.prems(2) n by (subst iter_list.simps) (simp add: iter_end_def view_of_def)
  have sp: "split_items ?q = bindR (mkRLP VeryStrict (take n ?q)) (\<lambda>r.
      case split_items (drop n ?q) of Inl e \<Rightarrow> Inl e | Inr rs \<Rightarrow> Inr (r # rs))"
    using less.prems(2,3) by (subst split_items.simps) simp
  show ?case
  proof (cases "?rem = 0")
    case True
    then have "pos + n = length d" using n by simp
    moreover have "iter_list d \<lparr>m_currentItem = Some (length d, 0), m_remaining = 0\<rparr> = Some (Inr [])"
      by (subst iter_list.simps) (simp add: iter_end_def)
    ultimately show ?thesis using True u sp by (simp add: iter_next_def bindR_def add.commute split: sum.split)
  next
    case False
    have v: "take ?rem (drop (pos + n) d) = drop (pos + n) d" by simp
    have dd: "drop n ?q = drop (pos + n) d" by (simp add: add.commute)
    show ?thesis
    proof (cases "sizeAsEncoded (drop (pos + n) d)")
      case (Inl e)
      then have "split_items (drop (pos + n) d) = Inl e" using False by (subst split_items.simps) simp
      with Inl u sp False dd v show ?thesis by (simp add: iter_next_def bindR_def view_of_def Let_def split: sum.split)
    next
      case (Inr m)
      have ne: "drop (pos + n) d \<noteq> []" using False by simp
      have m: "m \<le> length (drop (pos + n) d)" using sizeAsEncoded_pos [OF Inr ne] by simp
      have "iter_next d \<lparr>m_currentItem = Some (pos, n), m_remaining = ?rem\<rparr> =
          Inr \<lparr>m_currentItem = Some (pos + n, m), m_remaining = length (drop (pos + n) d) - m\<rparr>"
        using Inr False m v by (simp add: iter_next_def bindR_def view_of_def Let_def crop_view_def view_size_def min_def)
      moreover have "iter_list d \<lparr>m_currentItem = Some (pos + n, m), m_remaining = length (drop (pos + n) d) - m\<rparr> = Some (split_items (drop (pos + n) d))"
        using less.hyps [of "pos + n" m] n ne Inr less.prems(1) by simp
      ultimately show ?thesis using u sp dd by (auto simp: bindR_def split: sum.split)
    qed
  qed
qed

lemma toList_run:
  assumes "good_head 192 n p" "length p = n"
  shows "toList f (header 192 n @ p) = Some (split_items p)"
proof -
  let ?d = "header 192 n @ p" and ?o = "length (header 192 n)"
  have l: "isList ?d" "payloadOffset ?d = ?o" using head_kind [OF assms(1)] by simp_all
  have v: "view_of ?d (Some (?o, length p)) = p" by (simp add: view_of_def)
  show ?thesis
  proof (cases "p = []")
    case True
    have "sizeAsEncoded [] = Inr 0" by (simp add: sizeAsEncoded_iff actualSize_def isNull_def)
    moreover have "iter_list ?d \<lparr>m_currentItem = Some (?o, 0), m_remaining = 0\<rparr> = Some (Inr [])"
      using True by (subst iter_list.simps) (simp add: iter_end_def)
    ultimately show ?thesis
      using True l payload_header [OF assms]
      by (simp add: toList_def rlp_items_def iter_begin_def bindR_def view_of_def crop_view_def view_size_def)
  next
    case False
    show ?thesis
    proof (cases "sizeAsEncoded p")
      case (Inl e)
      then have "split_items p = Inl e" using False by (subst split_items.simps) simp
      with Inl l payload_header [OF assms] v show ?thesis
        by (simp add: toList_def rlp_items_def iter_begin_def bindR_def Let_def)
    next
      case (Inr m)
      have "m \<le> length p" using sizeAsEncoded_pos [OF Inr False] by simp
      then show ?thesis
        using l payload_header [OF assms] v Inr iter_run [of ?o ?d m] False
        by (simp add: toList_def rlp_items_def iter_begin_def bindR_def Let_def crop_view_def view_size_def)
    qed
  qed
qed

lemma actualSize_append:
  assumes "exact d" "d \<noteq> []"
  shows "actualSize (d @ q) = Inr (length d)"
  using assms
proof (cases rule: exact_cases)
  case (byte b)
  then have "isSingleByte (d @ q)" by (simp add: isSingleByte_def isNull_def rlp_consts)
  with byte single_byte show ?thesis by simp
next
  case (item base n p)
  then have g: "good_head base n (p @ q)" by (auto simp: good_head_def nth_append)
  have "\<not> isSingleByte (d @ q)" using head_kind(3) [OF g] item(1) by simp
  moreover have "d @ q = header base n @ (p @ q)" using item(1) by simp
  ultimately show ?thesis using exact_iff [of "d @ q" "length d"] g item(1,3) assms(2) by force
qed

lemma split_concat: "\<forall>d \<in> set ds. exact d \<and> d \<noteq> [] \<Longrightarrow> split_items (concat ds) = Inr ds"
proof (induction ds)
  case (Cons d ds)
  have "sizeAsEncoded (d @ concat ds) = Inr (length d)"
    using Cons.prems actualSize_append [of d "concat ds"] by (simp add: sizeAsEncoded_iff)
  moreover have "mkRLP VeryStrict d = Inr d" using Cons.prems by (simp add: mkRLP_VeryStrict)
  ultimately show ?case using Cons by (subst split_items.simps) (simp add: bindR_def)
qed simp

lemma split_Inr: "split_items q = Inr ds \<Longrightarrow> q = concat ds \<and> (\<forall>d \<in> set ds. exact d \<and> d \<noteq> [])"
proof (induction q arbitrary: ds rule: split_items.induct)
  case (1 q)
  show ?case
  proof (cases "q = []")
    case False
    obtain n where n: "sizeAsEncoded q = Inr n" using "1.prems" False by (subst (asm) split_items.simps) (auto split: sum.splits)
    have r: "bindR (mkRLP VeryStrict (take n q)) (\<lambda>r. case split_items (drop n q) of Inl e \<Rightarrow> Inl e | Inr rs \<Rightarrow> Inr (r # rs)) = Inr ds"
      using "1.prems" False n by (subst (asm) split_items.simps) simp
    then obtain r rs where rs: "mkRLP VeryStrict (take n q) = Inr r" "split_items (drop n q) = Inr rs" "ds = r # rs"
      by (auto simp: bindR_def split: sum.splits)
    have "0 < n" using sizeAsEncoded_pos [OF n False] by simp
    then have "exact r \<and> r \<noteq> [] \<and> r = take n q" using rs(1) False by (auto simp: mkRLP_VeryStrict)
    moreover have "drop n q = concat rs \<and> (\<forall>d \<in> set rs. exact d \<and> d \<noteq> [])" by (rule "1.IH" [OF False n rs(2)])
    moreover have "q = take n q @ drop n q" by simp
    ultimately show ?thesis unfolding rs(3) by (metis concat.simps(2) set_ConsD)
  qed (use "1.prems" in simp)
qed

lemma exact_enc: "length (enc t) < rlp_limit \<Longrightarrow> exact (enc t) \<and> enc t \<noteq> []"
proof (cases t)
  case (Leaf bs)
  assume "length (enc t) < rlp_limit"
  moreover have "length bs \<le> length (enc t)" by (simp add: Leaf)
  ultimately show ?thesis using exact_Leaf [of bs] by (auto simp: Leaf isData_def isNull_def)
next
  case (Node ts)
  assume "length (enc t) < rlp_limit"
  then have "good_head 192 (length (concat (map enc ts))) (concat (map enc ts))" by (simp add: Node good_head_def)
  then show ?thesis using exact_header by (simp add: Node header_length)
qed

text \<open>
  A byte string reads as a tree when the strict reader accepts it and its payload or its
  items, read by \<open>toBytes\<close> and \<open>toList\<close>, are those of the tree.
\<close>

inductive reads :: "bytes \<Rightarrow> rlp_tree \<Rightarrow> bool" where
  leaf: "mkRLP VeryStrict d = Inr d \<Longrightarrow> isData d \<Longrightarrow> toBytes Strict d = Inr bs \<Longrightarrow> reads d (Leaf bs)"
| node: "mkRLP VeryStrict d = Inr d \<Longrightarrow> isList d \<Longrightarrow> toList Strict d = Some (Inr ds) \<Longrightarrow> list_all2 reads ds ts \<Longrightarrow> reads d (Node ts)"

lemma reads_unique: "reads d t \<Longrightarrow> d = enc t"
proof (induction rule: reads.induct)
  case (leaf d bs)
  then show ?case by (intro Leaf_unique [of d Strict]) (simp_all add: mkRLP_VeryStrict)
next
  case (node d ds ts)
  have "d \<noteq> []" "exact d" using node by (auto simp: isList_def isNull_def mkRLP_VeryStrict)
  from this(2,1) show ?case
  proof (cases rule: exact_cases)
    case (byte b)
    with node(2) show ?thesis by (simp add: isList_def rlp_consts)
  next
    case (item base n p)
    have b: "base = 192" using node(2) head_kind(2) [OF item(2)] item(1) by simp
    with node(3) toList_run [of n p Strict] item have "split_items p = Inr ds" by simp
    then have "p = concat ds" using split_Inr by blast
    moreover have "ds = map enc ts"
      using node(4) by (induction rule: list_all2_induct) simp_all
    ultimately show ?thesis using item(1,3) b by simp
  qed
qed

lemma reads_enc: "length (enc t) < rlp_limit \<Longrightarrow> reads (enc t) t"
proof (induction t)
  case (Leaf bs)
  have "length bs \<le> length (enc (Leaf bs))" by simp
  with Leaf exact_Leaf [of bs Strict] show ?case by (intro reads.leaf) (simp_all add: mkRLP_VeryStrict del: enc.simps)
next
  case (Node ts)
  let ?p = "concat (map enc ts)"
  have g: "good_head 192 (length ?p) ?p" using Node.prems by (simp add: good_head_def)
  have small: "length (enc t) < rlp_limit" if "t \<in> set ts" for t
  proof -
    have "length (enc t) \<le> length ?p" using that by (induction ts) auto
    with Node.prems show ?thesis by simp
  qed
  have "split_items ?p = Inr (map enc ts)" using small exact_enc by (intro split_concat) auto
  then have "toList Strict (enc (Node ts)) = Some (Inr (map enc ts))" using toList_run [OF g] by simp
  moreover have "list_all2 reads (map enc ts) ts" using Node.IH small by (auto simp: list_all2_conv_all_nth)
  moreover have "mkRLP VeryStrict (enc (Node ts)) = Inr (enc (Node ts))" using exact_enc [OF Node.prems] by (simp add: mkRLP_VeryStrict)
  moreover have "isList (enc (Node ts))" using head_kind(2) [OF g] by simp
  ultimately show ?case by (intro reads.node)
qed


section \<open>The stream\<close>

definition stream :: "bytes \<Rightarrow> (nat \<times> nat) list \<Rightarrow> RLPStream" where
  "stream bs st = \<lparr>m_out = bs, m_listStack = st\<rparr>"

lemma push_run [simp]: "push_bytes bs (stream a st) = (Inr (), stream (a @ bs) st)"
  by (simp add: push_bytes_def stream_def updE_def)

lemma pushCount_run:
  assumes "base \<in> {128, 192}" "56 \<le> n" "n < 2 ^ 64"
  shows "pushCount n (base + 55) (stream a st) = (Inr (), stream (a @ header base n) st)"
proof -
  have "bytesRequired n \<le> 8" by (rule bytesRequired_8 [OF assms(3)])
  then have "\<not> bytesRequired n + (base + 55) > 255" using assms(1) by auto
  then show ?thesis
    using assms(2) by (simp add: pushCount_def thenE_def bindE_def throwIf_def pushInt_def header_def Let_def ret_def algebra_simps)
qed

lemma append_bytes_run:
  assumes "length bs < 2 ^ 64"
  shows "append_bytes bs False (stream a st) = noteAppended 1 (stream (a @ enc (Leaf bs)) st)"
proof -
  have "pushCount (length bs) 183 (stream a st) = (Inr (), stream (a @ header 128 (length bs)) st)" if "\<not> length bs < 56"
    using that pushCount_run [of 128 "length bs" a st] assms by simp
  moreover have "header 128 (length bs) = [of_nat (length bs + 128)]" if "length bs < 56" using that by (simp add: header_def add.commute)
  ultimately show ?thesis
    by (auto simp: append_bytes_def Let_def rlp_consts thenE_def bindE_def appendRaw_def noteAppended_def length_Suc_conv split: prod.split sum.split)
qed

lemma close_run:
  assumes "p = length a" "length bs < 2 ^ 64"
  shows "close_list p (stream (a @ bs) st) = (Inr (), stream (a @ header 192 (length bs) @ bs) st)"
proof -
  have "bytesRequired (length bs) \<le> 8" by (rule bytesRequired_8 [OF assms(2)])
  with assms(1) show ?thesis
    by (auto simp: close_list_def stream_def Let_def rlp_consts header_def)
qed

lemma note_open:
  "noteAppended 1 (stream bs ((Suc (Suc n), p) # st)) = (Inr (), stream bs ((Suc n, p) # st))"
  "noteAppended 1 (stream bs []) = (Inr (), stream bs [])"
  by (simp_all add: noteAppended_def stream_def)

lemma note_close:
  assumes "length bs < 2 ^ 64"
  shows "noteAppended 1 (stream (a @ bs) ((1, length a) # st)) = noteAppended 1 (stream (a @ header 192 (length bs) @ bs) st)"
  using close_run [OF refl assms, of a st] by (simp add: noteAppended_def stream_def)

lemma thenE_ret_unit: "thenE m (ret ()) = m"
  by (simp add: thenE_def bindE_def ret_def fun_eq_iff split: prod.split sum.split)

definition seqE :: "unit rlpW list \<Rightarrow> unit rlpW" where
  "seqE ms = foldr (\<lambda>m r. thenE m r) ms (ret ())"

lemma append_items_run:
  assumes "\<And>t b st. t \<in> set ts \<Longrightarrow> append_tree t (stream b st) = noteAppended 1 (stream (b @ enc t) st)"
    "length (bs @ concat (map enc ts)) < 2 ^ 64" "ts \<noteq> []"
  shows "seqE (map append_tree ts) (stream (a @ bs) ((length ts, length a) # st)) =
    noteAppended 1 (stream (a @ header 192 (length (bs @ concat (map enc ts))) @ bs @ concat (map enc ts)) st)"
  using assms
proof (induction ts arbitrary: bs)
  case (Cons t ts)
  have t: "append_tree t (stream (a @ bs) ((length (t # ts), length a) # st)) =
      noteAppended 1 (stream (a @ bs @ enc t) ((length (t # ts), length a) # st))"
    using Cons.prems(1) [of t "a @ bs" "(length (t # ts), length a) # st"] by simp
  show ?case
  proof (cases ts)
    case Nil
    have "noteAppended 1 (stream (a @ bs @ enc t) ((1, length a) # st)) =
        noteAppended 1 (stream (a @ header 192 (length (bs @ enc t)) @ bs @ enc t) st)"
      using note_close [of "bs @ enc t" a st] Cons.prems(2) Nil by simp
    with t Nil show ?thesis by (simp add: seqE_def thenE_ret_unit)
  next
    case (Cons u us)
    have "append_tree t (stream (a @ bs) ((length (t # ts), length a) # st)) =
        (Inr (), stream (a @ bs @ enc t) ((length ts, length a) # st))"
      unfolding t using note_open(1) [of "a @ bs @ enc t" "length us" "length a" st] Cons by simp
    moreover have "seqE (map append_tree ts) (stream (a @ bs @ enc t) ((length ts, length a) # st)) =
        noteAppended 1 (stream (a @ header 192 (length ((bs @ enc t) @ concat (map enc ts))) @ (bs @ enc t) @ concat (map enc ts)) st)"
      using Cons.IH [of "bs @ enc t"] Cons.prems Cons by simp
    ultimately show ?thesis by (simp add: seqE_def thenE_def bindE_def)
  qed
qed simp

lemma append_tree_run:
  "length (enc t) < 2 ^ 64 \<Longrightarrow> append_tree t (stream a st) = noteAppended 1 (stream (a @ enc t) st)"
proof (induction t arbitrary: a st)
  case (Leaf bs)
  have "length bs \<le> length (enc (Leaf bs))" by simp
  with Leaf show ?case using append_bytes_run [of bs a st] by (simp del: enc.simps)
next
  case (Node ts)
  let ?p = "concat (map enc ts)"
  show ?case
  proof (cases "ts = []")
    case True
    then show ?thesis
      by (simp add: appendList_def appendListRaw_def appendRaw_def thenE_ret_unit rlp_consts header_def)
        (simp add: thenE_def bindE_def)
  next
    case False
    have p: "length ?p < 2 ^ 64" using Node.prems by simp
    have i: "append_tree t (stream b st) = noteAppended 1 (stream (b @ enc t) st)" if "t \<in> set ts" for t b st
    proof -
      have "length (enc t) \<le> length ?p" using that by (induction ts) auto
      with p Node.IH [OF that] show ?thesis by simp
    qed
    have "seqE (map append_tree ts) (stream a ((length ts, length a) # st)) = noteAppended 1 (stream (a @ header 192 (length ?p) @ ?p) st)"
      using append_items_run [of ts "[]" a st, OF i] p False by simp
    moreover have "appendList (length ts) (stream a st) = (Inr (), stream a ((length ts, length a) # st))"
      using False by (simp add: appendList_def updE_def stream_def)
    ultimately show ?thesis by (simp add: seqE_def thenE_def bindE_def)
  qed
qed

text \<open>
  C11 (the encoding is canonical). For every tree whose encoding is shorter than
  \<open>2^64 - 257\<close> bytes the stream writes the encoding of the tree, and the strict reader reads
  the tree from the encoding and from no other byte string.
\<close>

theorem rlp_canonical:
  assumes "length (enc t) < rlp_limit"
  shows "rlp t = Inr (enc t) \<and> (\<forall>d. reads d t \<longleftrightarrow> d = enc t)"
proof -
  have "length (enc t) < 2 ^ 64" using assms by (simp add: rlp_limit_def)
  then have "append_tree t (stream [] []) = (Inr (), stream (enc t) [])"
    using append_tree_run [of t "[]" "[]"] note_open(2) [of "enc t"] by simp
  then have "rlp t = Inr (enc t)"
    by (simp add: rlp_def RLPStream_init_def rlp_out_def thenE_def bindE_def getE_def stream_def)
  then show ?thesis using reads_enc [OF assms] reads_unique by blast
qed

theorem rlp_canonical_witness:
  "rlp (Node [Leaf [1, 2], Node [], Leaf (replicate 60 7)]) =
     Inr ([248, 66, 130, 1, 2, 192, 184, 60] @ replicate 60 7) \<and>
   reads ([248, 66, 130, 1, 2, 192, 184, 60] @ replicate 60 7) (Node [Leaf [1, 2], Node [], Leaf (replicate 60 7)])"
proof -
  let ?t = "Node [Leaf [1, 2], Node [], Leaf (replicate 60 7)]"
  have e: "enc ?t = [248, 66, 130, 1, 2, 192, 184, 60] @ replicate 60 7" by code_simp
  have "length (enc ?t) < rlp_limit" unfolding e by (simp add: rlp_limit_def)
  from rlp_canonical [OF this] show ?thesis unfolding e by simp
qed


section \<open>The subscript operator\<close>

text \<open>The items at a list of positions, read one after the other through the cache.\<close>

primrec at_all :: "bytes \<Rightarrow> nat list \<Rightarrow> (rlp_exn, rlp_cache, bytes list) exc" where
  "at_all d [] = ret []"
| "at_all d (i # is) = bindE (rlp_at d i) (\<lambda>x. bindE (at_all d is) (\<lambda>xs. ret (x # xs)))"

definition item_of :: "bytes list \<Rightarrow> nat \<Rightarrow> bytes" where
  "item_of ds i = (if i < length ds then ds ! i else [])"

definition at_item :: "bytes list \<Rightarrow> nat \<Rightarrow> rlp_cache \<Rightarrow> bool" where
  "at_item ds i c \<longleftrightarrow> i \<le> length ds \<and> m_lastIndex c = i \<and> m_lastItem c = item_of ds i \<and> m_lastEnd c = length (concat (take (Suc i) ds))"

lemma sizeAsEncoded_item:
  assumes "\<forall>d \<in> set ds. exact d \<and> d \<noteq> []" "i \<le> length ds"
  shows "sizeAsEncoded (concat (drop i ds)) = Inr (length (item_of ds i))"
    "contents_of (cropped 0 (length (item_of ds i)) (concat (drop i ds))) = item_of ds i"
proof -
  have "sizeAsEncoded (concat (drop i ds)) = Inr (length (item_of ds i)) \<and>
      contents_of (cropped 0 (length (item_of ds i)) (concat (drop i ds))) = item_of ds i"
  proof (cases "i < length ds")
    case True
    then have d: "concat (drop i ds) = ds ! i @ concat (drop (Suc i) ds)" by (simp add: Cons_nth_drop_Suc [symmetric])
    show ?thesis
      using actualSize_append [of "ds ! i" "concat (drop (Suc i) ds)"] assms(1) True
      by (simp add: d sizeAsEncoded_iff item_of_def cropped_def contents_of_def)
  next
    case False
    then show ?thesis by (simp add: item_of_def sizeAsEncoded_iff actualSize_def isNull_def cropped_def contents_of_def)
  qed
  then show "sizeAsEncoded (concat (drop i ds)) = Inr (length (item_of ds i))"
    "contents_of (cropped 0 (length (item_of ds i)) (concat (drop i ds))) = item_of ds i" by simp_all
qed

lemma concat_drop: "drop (length (concat (take i ds))) (concat ds) = concat (drop i ds)"
  by (metis append_eq_conv_conj append_take_drop_id concat_append)

lemma index_loop_run:
  assumes ds: "\<forall>d \<in> set ds. exact d \<and> d \<noteq> []" and p: "payload d = Inr (concat ds)"
  shows "at_item ds i c \<Longrightarrow> \<exists>c'. index_loop n d c = (Inr (), c') \<and> at_item ds (min (i + n) (max i (length ds))) c'"
proof (induction n arbitrary: i c)
  case 0
  then show ?case by (auto simp: at_item_def)
next
  case (Suc n)
  show ?case
  proof (cases "i < length ds")
    case True
    have a: "m_lastItem c = ds ! i" "m_lastEnd c = length (concat (take (Suc i) ds))" "m_lastIndex c = i"
      using Suc.prems True by (simp_all add: at_item_def item_of_def)
    have ne: "ds ! i \<noteq> []" using ds True by simp
    have r: "drop (m_lastEnd c) (concat ds) = concat (drop (Suc i) ds)" unfolding a(2) by (rule concat_drop)
    note s = sizeAsEncoded_item [OF ds, of "Suc i"]
    let ?c = "c\<lparr>m_lastItem := item_of ds (Suc i), m_lastEnd := m_lastEnd c + length (item_of ds (Suc i)), m_lastIndex := Suc i\<rparr>"
    have "index_loop (Suc n) d c = index_loop n d ?c"
      using a(1,3) ne p r s True by (simp add: liftR_def bindE_def thenE_def updE_def getE_def)
    moreover have "length (concat (take (Suc (Suc i)) ds)) = m_lastEnd c + length (item_of ds (Suc i))"
      by (cases "Suc i < length ds") (simp_all add: a(2) item_of_def take_Suc_conv_app_nth [of "Suc i"])
    then have "at_item ds (Suc i) ?c" using True by (simp add: at_item_def)
    ultimately show ?thesis using Suc.IH [of "Suc i" ?c] True by (simp add: max_def)
  next
    case False
    then have "m_lastItem c = []" using Suc.prems by (simp add: at_item_def item_of_def)
    with False Suc.prems show ?thesis by (intro exI [of _ c]) (auto simp: at_item_def max_def min_def)
  qed
qed

lemma rlp_at_run:
  assumes ds: "\<forall>d \<in> set ds. exact d \<and> d \<noteq> []" and p: "payload d = Inr (concat ds)"
    and c: "c = rlp_cache_init \<or> (\<exists>j. at_item ds j c)" and i: "i < 2 ^ 64 - 1"
  shows "\<exists>c'. rlp_at d i c = (Inr (item_of ds i), c') \<and> (\<exists>j. at_item ds j c')"
proof -
  have s0: "sizeAsEncoded (concat ds) = Inr (length (item_of ds 0))" "contents_of (cropped 0 (length (item_of ds 0)) (concat ds)) = item_of ds 0"
    using sizeAsEncoded_item [OF ds, of 0] by simp_all
  have "\<exists>c1 j. (if i < m_lastIndex c then index_reset d else ret ()) c = (Inr (), c1) \<and> at_item ds j c1 \<and> j \<le> i"
  proof (cases "i < m_lastIndex c")
    case True
    have "length (concat (take (Suc 0) ds)) = length (item_of ds 0)" by (cases ds) (simp_all add: item_of_def)
    then show ?thesis
      using True p s0 by (simp add: index_reset_def liftR_def bindE_def bindR_def updE_def at_item_def)
  next
    case False
    then have "c \<noteq> rlp_cache_init" using i by (auto simp: rlp_cache_init_def)
    with c False show ?thesis by (auto simp: at_item_def)
  qed
  then obtain c1 j where 1: "(if i < m_lastIndex c then index_reset d else ret ()) c = (Inr (), c1)" "at_item ds j c1" "j \<le> i"
    by (elim exE conjE) (rule that; assumption)
  obtain c2 where 2: "index_loop (i - j) d c1 = (Inr (), c2)" "at_item ds (min i (max j (length ds))) c2"
    using index_loop_run [OF ds p 1(2), of "i - j"] 1(3) by auto
  have "m_lastItem c2 = item_of ds i" using 2(2) by (auto simp: at_item_def item_of_def min_def max_def split: if_splits)
  moreover have "mkRLP \<lparr>AllowNonCanon = False, ThrowOnFail = True, FailIfTooBig = False, FailIfTooSmall = True\<rparr> (item_of ds i) = Inr (item_of ds i)"
  proof -
    have "actualSize (item_of ds i) = Inr (length (item_of ds i))"
    proof (cases "i < length ds")
      case True
      then show ?thesis using ds by (simp add: item_of_def exact_def)
    qed (simp add: item_of_def actualSize_def isNull_def)
    then show ?thesis by (simp add: mkRLP_def bindR_def)
  qed
  moreover have "m_lastIndex c1 = j" using 1(2) by (simp add: at_item_def)
  ultimately have "rlp_at d i c = (Inr (item_of ds i), c2)"
    using 1(1) 2(1) by (simp add: rlp_at_def thenE_def bindE_def liftR_def getE_def)
  with 2(2) show ?thesis by blast
qed

text \<open>
  C19 (the index cache). On a list, any accesses through the cached subscript operator, in any
  order, return the items that \<open>toList\<close> returns, and a null item behind the last one.
\<close>

theorem index_cache_correct:
  assumes "mkRLP VeryStrict d = Inr d" "toList Strict d = Some (Inr ds)" "\<forall>i \<in> set is. i < 2 ^ 64 - 1"
  shows "fst (at_all d is rlp_cache_init) = Inr (map (\<lambda>i. if i < length ds then ds ! i else []) is)"
proof -
  have l: "isList d" using assms(2) by (auto simp: toList_def Strict_def split: if_splits)
  then have "exact d" "d \<noteq> []" using assms(1) by (auto simp: mkRLP_VeryStrict isList_def isNull_def)
  then obtain n p where d: "d = header 192 n @ p" "good_head 192 n p" "length p = n"
  proof (cases rule: exact_cases)
    case (byte b)
    with l show ?thesis by (simp add: isList_def rlp_consts)
  next
    case (item base n p)
    with l head_kind(2) [OF item(2)] that show ?thesis by simp
  qed
  have "split_items p = Inr ds" using assms(2) toList_run [OF d(2,3), of Strict] d(1) by simp
  then have ds: "p = concat ds" "\<forall>d \<in> set ds. exact d \<and> d \<noteq> []" using split_Inr by blast+
  have p: "payload d = Inr (concat ds)" using payload_header [OF d(2,3)] d(1) ds(1) by (simp add: payload_def bindR_def contents_of_def)
  have "fst (at_all d is c) = Inr (map (item_of ds) is)" if "c = rlp_cache_init \<or> (\<exists>j. at_item ds j c)" for c
    using that assms(3)
  proof (induction "is" arbitrary: c)
    case (Cons i "is")
    obtain c' where c': "rlp_at d i c = (Inr (item_of ds i), c')" "\<exists>j. at_item ds j c'"
      using rlp_at_run [OF ds(2) p Cons.prems(1), of i] Cons.prems(2) by auto
    have "fst (at_all d is c') = Inr (map (item_of ds) is)" using Cons.IH [of c'] c'(2) Cons.prems(2) by simp
    then show ?case using c'(1) by (simp add: bindE_def ret_def split: prod.split sum.split) auto
  qed simp
  then show ?thesis by (simp add: item_of_def [abs_def])
qed

theorem index_cache_correct_witness:
  "fst (at_all [197, 1, 130, 5, 6, 192] [2, 0, 1, 7, 1] rlp_cache_init) = Inr [[192], [1], [130, 5, 6], [], [130, 5, 6]]"
proof -
  have m: "mkRLP VeryStrict [197, 1, 130, 5, 6, 192] = Inr [197, 1, 130, 5, 6, 192]" by code_simp
  have "split_items [1, 130, 5, 6, 192] = Inr [[1], [130, 5, 6], [192]]" by code_simp
  moreover have "header 192 5 = [197]" by code_simp
  ultimately have "toList Strict [197, 1, 130, 5, 6, 192] = Some (Inr [[1], [130, 5, 6], [192]])"
    using toList_run [of 5 "[1, 130, 5, 6, 192]" Strict] by (simp add: good_head_def rlp_limit_def)
  from index_cache_correct [OF m this, of "[2, 0, 1, 7, 1]"] show ?thesis by simp
qed

end
