(* ===== verification/Instr.thy ===== *)
theory Instr
  imports Bytes
begin

text \<open>
  The instruction set of the virtual machine (\<open>libevm/Instruction.h\<close>,
  \<open>libevm/Instruction.cpp\<close>) and its gas schedules (\<open>libethcore/EVMSchedule.h\<close>). The
  enumeration runs over bytes and is given in groups; the runs \<open>PUSH1..PUSH32\<close>, \<open>DUP1..DUP16\<close>,
  \<open>SWAP1..SWAP16\<close> and \<open>LOG0..LOG4\<close> are one constructor each that carries the offset in
  the run, as the interpreter computes it, and a byte that no enumerator has is
  \<open>NoInstruction\<close>. The printed names of the instructions, which only traces use, are left
  out.
\<close>

section \<open>Instructions\<close>

text \<open>The instructions of EIP 615 and of EIP 616, which the build does not enable.\<close>

datatype eip615 =
  JUMPTO | JUMPIF | JUMPSUB | JUMPV | JUMPSUBV | BEGINSUB | BEGINDATA | RETURNSUB | PUTLOCAL | GETLOCAL

datatype eip616 =
  XADD | XMUL | XSUB | XDIV | XSDIV | XMOD | XSMOD
| XLT | XGT | XSLT | XSGT | XEQ | XISZERO | XAND | XOOR | XXOR | XNOT
| XSHL | XSHR | XSAR | XROL | XROR
| XPUSH | XMLOAD | XMSTORE | XSLOAD | XSSTORE | XVTOWIDE | XWIDETOV | XGET | XPUT | XSWIZZLE | XSHUFFLE

text \<open>
  The arithmetic instructions, but for \<open>EXP\<close>, whose price varies; comparisons, bits and
  modular arithmetic; the instructions that read the environment of the call, the block,
  and the machine and its storage.
\<close>

datatype arith =
  ADD | MUL | SUB | DIV | SDIV | MOD | SMOD | NOT_op

datatype logic =
  LT | GT | SLT | SGT | EQ | ISZERO | AND_op | OR_op | XOR_op | BYTE | ADDMOD | MULMOD | SIGNEXTEND

datatype env =
  ADDRESS | BALANCE | ORIGIN | CALLER | CALLVALUE | CALLDATALOAD | CALLDATASIZE | CODESIZE
| EXTCODESIZE | RETURNDATASIZE

datatype blk =
  GASPRICE | BLOCKHASH | COINBASE | TIMESTAMP | NUMBER | DIFFICULTY | GASLIMIT

datatype mach =
  SLOAD | SSTORE | PC | MSIZE | GAS

datatype Instruction =
  Arith arith | Logic logic | Env env | Blk blk | Mach mach
| STOP | EXP | SHA3 | CALLDATACOPY | CODECOPY | EXTCODECOPY | RETURNDATACOPY
| POP | MLOAD | MSTORE | MSTORE8 | JUMP | JUMPI | JUMPDEST
| PUSH nat \<comment> \<open>number of bytes pushed: \<open>op - PUSH1 + 1\<close>\<close>
| DUP nat \<comment> \<open>\<open>op - DUP1\<close>\<close>
| SWAP nat \<comment> \<open>\<open>op - SWAP1 + 1\<close>\<close>
| LOG nat \<comment> \<open>\<open>op - LOG0\<close>\<close>
| PUSHC | JUMPC | JUMPCI
| EIP615 eip615 | EIP616 eip616
| CREATE | CALL | CALLCODE | RETURN | DELEGATECALL | STATICCALL | CREATE2 | REVERT | INVALID | SUICIDE
| NoInstruction

text \<open>\<open>Instruction(b)\<close>: the enumerator with the value \<open>b\<close>, by blocks of sixteen.\<close>

definition block :: "Instruction list \<Rightarrow> nat \<Rightarrow> Instruction" where
  "block ops i = (if i < length ops then ops ! i else NoInstruction)"

definition instr_615 :: "eip615 list" where
  "instr_615 = [JUMPTO, JUMPIF, JUMPSUB, JUMPV, JUMPSUBV, BEGINSUB, BEGINDATA, RETURNSUB, PUTLOCAL,
     GETLOCAL]"

definition instruction :: "u8 \<Rightarrow> Instruction" where
  "instruction b = (let h = unat b div 16; i = unat b mod 16 in
     if h = 0 then
       block ([STOP] @ map Arith [ADD, MUL, SUB, DIV, SDIV, MOD, SMOD] @ map Logic [ADDMOD, MULMOD] @
         [EXP, Logic SIGNEXTEND]) i
     else if h = 1 then
       block (map Logic [LT, GT, SLT, SGT, EQ, ISZERO, AND_op, OR_op, XOR_op] @ [Arith NOT_op, Logic BYTE]) i
     else if h = 2 then block [SHA3] i
     else if h = 3 then
       block (map Env [ADDRESS, BALANCE, ORIGIN, CALLER, CALLVALUE, CALLDATALOAD, CALLDATASIZE] @
         [CALLDATACOPY, Env CODESIZE, CODECOPY, Blk GASPRICE, Env EXTCODESIZE, EXTCODECOPY,
          Env RETURNDATASIZE, RETURNDATACOPY]) i
     else if h = 4 then
       block (map Blk [BLOCKHASH, COINBASE, TIMESTAMP, NUMBER, DIFFICULTY, GASLIMIT]) i
     else if h = 5 then
       block [POP, MLOAD, MSTORE, MSTORE8, Mach SLOAD, Mach SSTORE, JUMP, JUMPI, Mach PC, Mach MSIZE,
         Mach GAS, JUMPDEST] i
     else if h = 6 then PUSH (i + 1)
     else if h = 7 then PUSH (i + 17)
     else if h = 8 then DUP i
     else if h = 9 then SWAP (i + 1)
     else if h = 10 then
       (if i \<le> 4 then LOG i else if i < 12 then NoInstruction else block [PUSHC, JUMPC, JUMPCI] (i - 12))
     else if h = 11 then block (map EIP615 instr_615) i
     else if h = 12 then
       (if i = 0 then NoInstruction
        else block (map EIP616 [XADD, XMUL, XSUB, XDIV, XSDIV, XMOD, XSMOD]) (i - 1))
     else if h = 13 then
       block (map EIP616 [XLT, XGT, XSLT, XSGT, XEQ, XISZERO, XAND, XOOR, XXOR, XNOT] @ [NoInstruction] @
         map EIP616 [XSHL, XSHR, XSAR, XROL, XROR]) i
     else if h = 14 then
       block (map EIP616 [XPUSH, XMLOAD, XMSTORE] @ [NoInstruction] @
         map EIP616 [XSLOAD, XSSTORE, XVTOWIDE, XWIDETOV, XGET, XPUT, XSWIZZLE, XSHUFFLE]) i
     else block [CREATE, CALL, CALLCODE, RETURN, DELEGATECALL, NoInstruction, NoInstruction, NoInstruction,
       NoInstruction, NoInstruction, STATICCALL, CREATE2, NoInstruction, REVERT, INVALID, SUICIDE] i)"

text \<open>The bytes the optimiser writes into the code, and those it compares with.\<close>

definition byte_INVALID :: u8 where "byte_INVALID = 0xfe"
definition byte_PUSHC :: u8 where "byte_PUSHC = 0xac"
definition byte_JUMPC :: u8 where "byte_JUMPC = 0xad"
definition byte_JUMPCI :: u8 where "byte_JUMPCI = 0xae"


section \<open>Instruction information\<close>

datatype Tier = Zero | Base | VeryLow | Low | Mid | High | Ext | Special | Invalid

record InstructionInfo =
  additional :: nat
  args :: nat
  iret :: nat
  gasPriceTier :: Tier

definition info :: "nat \<Rightarrow> nat \<Rightarrow> nat \<Rightarrow> Tier \<Rightarrow> InstructionInfo" where
  "info a n r t = \<lparr>additional = a, args = n, iret = r, gasPriceTier = t\<rparr>"

primrec info615 :: "eip615 \<Rightarrow> InstructionInfo" where
  "info615 JUMPTO = info 2 1 0 VeryLow"
| "info615 JUMPIF = info 2 2 0 Low"
| "info615 JUMPSUB = info 2 1 0 Low"
| "info615 JUMPV = info 2 1 0 Mid"
| "info615 JUMPSUBV = info 2 1 0 Mid"
| "info615 BEGINSUB = info 0 0 0 Special"
| "info615 BEGINDATA = info 0 0 0 Special"
| "info615 RETURNSUB = info 0 1 0 Mid"
| "info615 PUTLOCAL = info 2 1 0 VeryLow"
| "info615 GETLOCAL = info 2 0 1 VeryLow"

text \<open>
  The table has no entry for \<open>XOOR\<close>: the line that should be it has the key \<open>XOR\<close> once
  more, and a \<open>std::map\<close> keeps the first entry of a key.
\<close>

primrec info616 :: "eip616 \<Rightarrow> InstructionInfo" where
  "info616 XADD = info 1 0 0 Special"
| "info616 XMUL = info 1 2 1 Special"
| "info616 XSUB = info 1 2 1 Special"
| "info616 XDIV = info 1 2 1 Special"
| "info616 XSDIV = info 1 2 1 Special"
| "info616 XMOD = info 1 2 1 Special"
| "info616 XSMOD = info 1 2 1 Special"
| "info616 XLT = info 1 2 1 Special"
| "info616 XGT = info 1 2 1 Special"
| "info616 XSLT = info 1 2 1 Special"
| "info616 XSGT = info 1 2 1 Special"
| "info616 XEQ = info 1 2 1 Special"
| "info616 XISZERO = info 1 2 1 Special"
| "info616 XAND = info 1 1 1 Special"
| "info616 XOOR = info 0 0 0 Invalid"
| "info616 XXOR = info 1 2 1 Special"
| "info616 XNOT = info 1 2 1 Special"
| "info616 XSHL = info 1 2 1 Special"
| "info616 XSHR = info 1 2 1 Special"
| "info616 XSAR = info 1 2 1 Special"
| "info616 XROL = info 1 2 1 Special"
| "info616 XROR = info 1 2 1 Special"
| "info616 XPUSH = info 1 1 1 VeryLow"
| "info616 XMLOAD = info 1 1 1 VeryLow"
| "info616 XMSTORE = info 1 2 0 VeryLow"
| "info616 XSLOAD = info 1 1 1 Special"
| "info616 XSSTORE = info 1 2 0 Special"
| "info616 XVTOWIDE = info 1 1 1 VeryLow"
| "info616 XWIDETOV = info 1 1 1 VeryLow"
| "info616 XGET = info 1 2 1 Special"
| "info616 XPUT = info 1 3 1 Special"
| "info616 XSWIZZLE = info 1 2 1 Special"
| "info616 XSHUFFLE = info 1 3 1 Special"

primrec info_arith :: "arith \<Rightarrow> InstructionInfo" where
  "info_arith ADD = info 0 2 1 VeryLow"
| "info_arith MUL = info 0 2 1 Low"
| "info_arith SUB = info 0 2 1 VeryLow"
| "info_arith DIV = info 0 2 1 Low"
| "info_arith SDIV = info 0 2 1 Low"
| "info_arith MOD = info 0 2 1 Low"
| "info_arith SMOD = info 0 2 1 Low"
| "info_arith NOT_op = info 0 1 1 VeryLow"

primrec info_logic :: "logic \<Rightarrow> InstructionInfo" where
  "info_logic LT = info 0 2 1 VeryLow"
| "info_logic GT = info 0 2 1 VeryLow"
| "info_logic SLT = info 0 2 1 VeryLow"
| "info_logic SGT = info 0 2 1 VeryLow"
| "info_logic EQ = info 0 2 1 VeryLow"
| "info_logic ISZERO = info 0 1 1 VeryLow"
| "info_logic AND_op = info 0 2 1 VeryLow"
| "info_logic OR_op = info 0 2 1 VeryLow"
| "info_logic XOR_op = info 0 2 1 VeryLow"
| "info_logic BYTE = info 0 2 1 VeryLow"
| "info_logic ADDMOD = info 0 3 1 Mid"
| "info_logic MULMOD = info 0 3 1 Mid"
| "info_logic SIGNEXTEND = info 0 2 1 Low"

primrec info_env :: "env \<Rightarrow> InstructionInfo" where
  "info_env ADDRESS = info 0 0 1 Base"
| "info_env BALANCE = info 0 1 1 Special"
| "info_env ORIGIN = info 0 0 1 Base"
| "info_env CALLER = info 0 0 1 Base"
| "info_env CALLVALUE = info 0 0 1 Base"
| "info_env CALLDATALOAD = info 0 1 1 VeryLow"
| "info_env CALLDATASIZE = info 0 0 1 Base"
| "info_env CODESIZE = info 0 0 1 Base"
| "info_env EXTCODESIZE = info 0 1 1 Special"
| "info_env RETURNDATASIZE = info 0 0 1 Base"

primrec info_blk :: "blk \<Rightarrow> InstructionInfo" where
  "info_blk GASPRICE = info 0 0 1 Base"
| "info_blk BLOCKHASH = info 0 1 1 Special"
| "info_blk COINBASE = info 0 0 1 Base"
| "info_blk TIMESTAMP = info 0 0 1 Base"
| "info_blk NUMBER = info 0 0 1 Base"
| "info_blk DIFFICULTY = info 0 0 1 Base"
| "info_blk GASLIMIT = info 0 0 1 Base"

primrec info_mach :: "mach \<Rightarrow> InstructionInfo" where
  "info_mach SLOAD = info 0 1 1 Special"
| "info_mach SSTORE = info 0 2 0 Special"
| "info_mach PC = info 0 0 1 Base"
| "info_mach MSIZE = info 0 0 1 Base"
| "info_mach GAS = info 0 0 1 Base"

primrec instructionInfo :: "Instruction \<Rightarrow> InstructionInfo" where
  "instructionInfo (Arith x) = info_arith x"
| "instructionInfo (Logic x) = info_logic x"
| "instructionInfo (Env x) = info_env x"
| "instructionInfo (Blk x) = info_blk x"
| "instructionInfo (Mach x) = info_mach x"
| "instructionInfo STOP = info 0 0 0 Zero"
| "instructionInfo EXP = info 0 2 1 Special"
| "instructionInfo SHA3 = info 0 2 1 Special"
| "instructionInfo CALLDATACOPY = info 0 3 0 VeryLow"
| "instructionInfo CODECOPY = info 0 3 0 VeryLow"
| "instructionInfo EXTCODECOPY = info 0 4 0 Special"
| "instructionInfo RETURNDATACOPY = info 0 3 0 VeryLow"
| "instructionInfo POP = info 0 1 0 Base"
| "instructionInfo MLOAD = info 0 1 1 VeryLow"
| "instructionInfo MSTORE = info 0 2 0 VeryLow"
| "instructionInfo MSTORE8 = info 0 2 0 VeryLow"
| "instructionInfo JUMP = info 0 1 0 Mid"
| "instructionInfo JUMPI = info 0 2 0 High"
| "instructionInfo JUMPDEST = info 0 0 0 Special"
| "instructionInfo PUSHC = info 3 0 1 VeryLow"
| "instructionInfo JUMPC = info 0 1 0 Mid"
| "instructionInfo JUMPCI = info 0 2 0 High"
| "instructionInfo CREATE = info 0 3 1 Special"
| "instructionInfo CALL = info 0 7 1 Special"
| "instructionInfo CALLCODE = info 0 7 1 Special"
| "instructionInfo RETURN = info 0 2 0 Zero"
| "instructionInfo DELEGATECALL = info 0 6 1 Special"
| "instructionInfo STATICCALL = info 0 6 1 Special"
| "instructionInfo CREATE2 = info 0 4 1 Special"
| "instructionInfo REVERT = info 0 2 0 Special"
| "instructionInfo INVALID = info 0 0 0 Zero"
| "instructionInfo SUICIDE = info 0 1 0 Special"
| "instructionInfo (PUSH n) = info n 0 1 VeryLow"
| "instructionInfo (DUP n) = info 0 (n + 1) (n + 2) VeryLow"
| "instructionInfo (SWAP n) = info 0 (n + 1) (n + 1) VeryLow"
| "instructionInfo (LOG n) = info 0 (n + 2) 0 Special"
| "instructionInfo (EIP615 x) = info615 x"
| "instructionInfo (EIP616 x) = info616 x"
| "instructionInfo NoInstruction = info 0 0 0 Invalid"


section \<open>Gas schedules\<close>

record EVMSchedule =
  exceptionalFailedCodeDeposit :: bool
  haveDelegateCall :: bool
  eip150Mode :: bool
  eip158Mode :: bool
  haveRevert :: bool
  haveReturnData :: bool
  haveStaticCall :: bool
  haveCreate2 :: bool
  tierStepGas :: "u32 list" \<comment> \<open>\<open>std::array<unsigned, 8>\<close>\<close>
  expGas :: u32
  expByteGas :: u32
  sha3Gas :: u32
  sha3WordGas :: u32
  sloadGas :: u32
  sstoreSetGas :: u32
  sstoreResetGas :: u32
  sstoreRefundGas :: u32
  jumpdestGas :: u32
  logGas :: u32
  logDataGas :: u32
  logTopicGas :: u32
  createGas :: u32
  callGas :: u32
  callStipend :: u32
  callValueTransferGas :: u32
  callNewAccountGas :: u32
  suicideRefundGas :: u32
  memoryGas :: u32
  quadCoeffDiv :: u32
  createDataGas :: u32
  txGas :: u32
  txCreateGas :: u32
  txDataZeroGas :: u32
  txDataNonZeroGas :: u32
  copyGas :: u32
  extcodesizeGas :: u32
  extcodecopyGas :: u32
  balanceGas :: u32
  suicideGas :: u32
  blockhashGas :: u32
  maxCodeSize :: u32
  blockRewardOverwrite :: "u256 option"

definition staticCallDepthLimit :: "EVMSchedule \<Rightarrow> bool" where
  "staticCallDepthLimit s \<longleftrightarrow> \<not> eip150Mode s"

definition suicideChargesNewAccountGas :: "EVMSchedule \<Rightarrow> bool" where
  "suicideChargesNewAccountGas s \<longleftrightarrow> eip150Mode s"

definition emptinessIsNonexistence :: "EVMSchedule \<Rightarrow> bool" where
  "emptinessIsNonexistence s \<longleftrightarrow> eip158Mode s"

definition zeroValueTransferChargesNewAccountGas :: "EVMSchedule \<Rightarrow> bool" where
  "zeroValueTransferChargesNewAccountGas s \<longleftrightarrow> \<not> eip158Mode s"

definition DefaultSchedule :: EVMSchedule where
  "DefaultSchedule = \<lparr>
     exceptionalFailedCodeDeposit = True, haveDelegateCall = True, eip150Mode = False,
     eip158Mode = False, haveRevert = False, haveReturnData = False, haveStaticCall = False,
     haveCreate2 = False, tierStepGas = [0, 2, 3, 5, 8, 10, 20, 0], expGas = 10, expByteGas = 10,
     sha3Gas = 30, sha3WordGas = 6, sloadGas = 50, sstoreSetGas = 20000, sstoreResetGas = 5000,
     sstoreRefundGas = 15000, jumpdestGas = 1, logGas = 375, logDataGas = 8, logTopicGas = 375,
     createGas = 32000, callGas = 40, callStipend = 2300, callValueTransferGas = 9000,
     callNewAccountGas = 25000, suicideRefundGas = 24000, memoryGas = 3, quadCoeffDiv = 512,
     createDataGas = 200, txGas = 21000, txCreateGas = 53000, txDataZeroGas = 4,
     txDataNonZeroGas = 68, copyGas = 3, extcodesizeGas = 20, extcodecopyGas = 20, balanceGas = 20,
     suicideGas = 0, blockhashGas = 20, maxCodeSize = - 1, blockRewardOverwrite = None\<rparr>"

text \<open>\<open>EVMSchedule(bool, bool, unsigned const&)\<close>\<close>

definition mkSchedule :: "bool \<Rightarrow> bool \<Rightarrow> u32 \<Rightarrow> EVMSchedule" where
  "mkSchedule efcd hdc txCreate = DefaultSchedule \<lparr>exceptionalFailedCodeDeposit := efcd,
     haveDelegateCall := hdc, txCreateGas := txCreate\<rparr>"

definition FrontierSchedule :: EVMSchedule where
  "FrontierSchedule = mkSchedule False False 21000"

definition HomesteadSchedule :: EVMSchedule where
  "HomesteadSchedule = mkSchedule True True 53000"

definition EIP150Schedule :: EVMSchedule where
  "EIP150Schedule = HomesteadSchedule \<lparr>eip150Mode := True, extcodesizeGas := 700,
     extcodecopyGas := 700, balanceGas := 400, sloadGas := 200, callGas := 700, suicideGas := 5000\<rparr>"

definition EIP158Schedule :: EVMSchedule where
  "EIP158Schedule = EIP150Schedule \<lparr>expByteGas := 50, eip158Mode := True, maxCodeSize := 0x6000\<rparr>"

definition ByzantiumSchedule :: EVMSchedule where
  "ByzantiumSchedule = EIP158Schedule \<lparr>haveRevert := True, haveReturnData := True,
     haveStaticCall := True, blockRewardOverwrite := Some (5 * 10 ^ 18)\<rparr>"

definition ConstantinopleSchedule :: EVMSchedule where
  "ConstantinopleSchedule = ByzantiumSchedule \<lparr>blockhashGas := 800, haveCreate2 := True\<rparr>"

lemmas schedule_defs = DefaultSchedule_def mkSchedule_def FrontierSchedule_def HomesteadSchedule_def
  EIP150Schedule_def EIP158Schedule_def ByzantiumSchedule_def ConstantinopleSchedule_def

text \<open>
  \<open>tierStepGas[tier]\<close>. The array has eight elements and \<open>Tier::Invalid\<close> is eight: for \<open>XOOR\<close>
  and for a byte that is no instruction the read is one past the end.
\<close>

primrec tier_index :: "Tier \<Rightarrow> nat" where
  "tier_index Zero = 0"
| "tier_index Base = 1"
| "tier_index VeryLow = 2"
| "tier_index Low = 3"
| "tier_index Mid = 4"
| "tier_index High = 5"
| "tier_index Ext = 6"
| "tier_index Special = 7"
| "tier_index Invalid = 8"

definition tier_gas :: "EVMSchedule \<Rightarrow> Tier \<Rightarrow> u32" where
  "tier_gas s t = tierStepGas s ! tier_index t"

text \<open>The bytes whose price would be read outside of the array.\<close>

definition unpriced :: "u8 \<Rightarrow> bool" where
  "unpriced b \<longleftrightarrow> gasPriceTier (instructionInfo (instruction b)) = Invalid"

lemma group_priced:
  "gasPriceTier (info_arith a) \<noteq> Invalid" "gasPriceTier (info_logic b) \<noteq> Invalid" "gasPriceTier (info_env c) \<noteq> Invalid"
  "gasPriceTier (info_blk d) \<noteq> Invalid" "gasPriceTier (info_mach e) \<noteq> Invalid" "gasPriceTier (info615 f) \<noteq> Invalid"
  "gasPriceTier (info616 g) = Invalid \<longleftrightarrow> g = XOOR"
proof -
  show "gasPriceTier (info_arith a) \<noteq> Invalid" by (cases a) (simp_all add: info_def)
  show "gasPriceTier (info_logic b) \<noteq> Invalid" by (cases b) (simp_all add: info_def)
  show "gasPriceTier (info_env c) \<noteq> Invalid" by (cases c) (simp_all add: info_def)
  show "gasPriceTier (info_blk d) \<noteq> Invalid" by (cases d) (simp_all add: info_def)
  show "gasPriceTier (info_mach e) \<noteq> Invalid" by (cases e) (simp_all add: info_def)
  show "gasPriceTier (info615 f) \<noteq> Invalid" by (cases f) (simp_all add: info_def)
  show "gasPriceTier (info616 g) = Invalid \<longleftrightarrow> g = XOOR" by (cases g) (simp_all add: info_def)
qed

lemma unpriced_info:
  "gasPriceTier (instructionInfo op) = Invalid \<Longrightarrow> args (instructionInfo op) = 0 \<and> iret (instructionInfo op) = 0"
  by (cases op) (auto simp: group_priced, simp_all add: info_def)

lemma tier_in_array: "8 \<le> tier_index t \<longleftrightarrow> t = Invalid"
  by (cases t) simp_all

end
