(* ===== verification/Vm.thy ===== *)
theory Vm
  imports Instr
begin

text \<open>
  The interpreter of contract code: \<open>libevm/VM.cpp\<close>, \<open>libevm/VMCalls.cpp\<close>,
  \<open>libevm/VMOpt.cpp\<close> and \<open>libevm/VM.h\<close>, against the interface \<open>ExtVMFace\<close> of
  \<open>libevm/ExtVMFace.h\<close>. The virtual methods of that interface are computations on the
  object behind it, collected in the record \<open>ExtVMFace\<close>; its data members are the record
  \<open>ExtVM\<close>, whose field \<open>world\<close> is what a concrete class adds. Accesses through raw
  pointers are range checked in the model: outside the range the behaviour of the C++ code
  is undefined, and the model throws \<open>OutOfRange\<close>. The flags are those of the build:
  \<open>EIP_615\<close> and \<open>EIP_616\<close> are off; \<open>EVM_OPTIMIZE\<close>, which is on, is a parameter.
  The hash function is a parameter.
\<close>

section \<open>The interface to the chain state\<close>

record LogEntry =
  le_address :: address
  le_topics :: "h256 list"
  le_data :: bytes

record SubState =
  suicides :: "address set"
  logs :: "LogEntry list"
  refunds :: u256

definition SubState_add :: "SubState \<Rightarrow> SubState \<Rightarrow> SubState" where
  "SubState_add a s = \<lparr>suicides = suicides a \<union> suicides s, logs = logs a @ logs s,
     refunds = refunds a + refunds s\<rparr>"

definition SubState_clear :: "SubState \<Rightarrow> SubState" where
  "SubState_clear s = \<lparr>suicides = {}, logs = [], refunds = 0\<rparr>"

record EnvInfo =
  env_author :: address
  env_number :: u256
  env_timestamp :: u256
  env_difficulty :: u256
  env_gasLimit :: u256

record 'w ExtVM =
  myAddress :: address
  caller :: address
  origin :: address
  ext_value :: u256
  gasPrice :: u256
  ext_data :: bytes
  ext_code :: bytes
  ext_codeHash :: h256
  sub :: SubState
  depth :: u32
  staticCall :: bool
  envInfo :: EnvInfo
  world :: 'w

record CallParameters =
  senderAddress :: address
  codeAddress :: address
  receiveAddress :: address
  valueTransfer :: u256
  apparentValue :: u256
  cp_gas :: u256
  cp_data :: bytes
  cp_staticCall :: bool
  cp_onOp :: bool

definition newCallParameters :: CallParameters where
  "newCallParameters = \<lparr>senderAddress = 0, codeAddress = 0, receiveAddress = 0, valueTransfer = 0,
     apparentValue = 0, cp_gas = 0, cp_data = [], cp_staticCall = False, cp_onOp = False\<rparr>"

text \<open>
  The methods. \<open>create\<close> and \<open>call\<close> have the gas as a reference parameter; here they
  return what they leave in it.
\<close>

record ('e, 'w) ExtVMFace =
  x_store :: "u256 \<Rightarrow> ('e, 'w ExtVM, u256) exc"
  x_setStore :: "u256 \<Rightarrow> u256 \<Rightarrow> ('e, 'w ExtVM, unit) exc"
  x_balance :: "address \<Rightarrow> ('e, 'w ExtVM, u256) exc"
  x_codeAt :: "address \<Rightarrow> ('e, 'w ExtVM, bytes) exc"
  x_codeSizeAt :: "address \<Rightarrow> ('e, 'w ExtVM, u64) exc"
  x_exists :: "address \<Rightarrow> ('e, 'w ExtVM, bool) exc"
  x_suicide :: "address \<Rightarrow> ('e, 'w ExtVM, unit) exc"
  x_create :: "u256 \<Rightarrow> u256 \<Rightarrow> bytes \<Rightarrow> Instruction \<Rightarrow> u256 \<Rightarrow> bool \<Rightarrow>
    ('e, 'w ExtVM, address \<times> bytes \<times> u256) exc"
  x_call :: "CallParameters \<Rightarrow> ('e, 'w ExtVM, bool \<times> bytes \<times> u256) exc"
  x_log :: "h256 list \<Rightarrow> bytes \<Rightarrow> ('e, 'w ExtVM, unit) exc"
  x_blockHash :: "u256 \<Rightarrow> ('e, 'w ExtVM, h256) exc"
  x_evmSchedule :: "'w ExtVM \<Rightarrow> EVMSchedule"

text \<open>The implementations the interface itself has.\<close>

definition ExtVMFace_suicide :: "address \<Rightarrow> ('e, 'w ExtVM, unit) exc" where
  "ExtVMFace_suicide a =
     updE (\<lambda>x. sub_update (suicides_update (insert (myAddress x))) x)"

definition ExtVMFace_log :: "h256 list \<Rightarrow> bytes \<Rightarrow> ('e, 'w ExtVM, unit) exc" where
  "ExtVMFace_log topics d = updE (\<lambda>x. sub_update (logs_update (\<lambda>l. l @
     [\<lparr>le_address = myAddress x, le_topics = topics, le_data = d\<rparr>])) x)"


section \<open>The state of the machine\<close>

datatype 'e vm_exn =
    OutOfGas
  | BadInstruction
  | BadJumpDestination
  | DisallowedStateChange
  | StackUnderflow int int \<comment> \<open>required, available\<close>
  | OutOfStack int int
  | RevertInstruction bytes
  | BufferOverrun int int
  | ExtException 'e \<comment> \<open>thrown by a method of the interface\<close>
  | OutOfRange \<comment> \<open>undefined behaviour of the C++ code\<close>

datatype bounce = InitEntry | InterpretCases | CaseCreate | CaseCall

text \<open>What \<open>m_onOp\<close> is called with.\<close>

type_synonym op_event = "u64 \<times> u64 \<times> Instruction \<times> u64 \<times> u64 \<times> u64"

text \<open>
  \<open>m_stack\<close> grows towards smaller indices; \<open>m_SP\<close> and \<open>m_SPP\<close> are the distances of the
  two pointers from its start, so that \<open>m_stackEnd\<close> is 1024. \<open>m_onOp\<close> tells whether a
  tracer is set; what it was called with is \<open>m_trace\<close>.
\<close>

record 'w vm =
  m_io_gas_p :: u256
  m_io_gas :: u64
  m_ext :: "'w ExtVM"
  m_onOp :: bool
  m_trace :: "op_event list"
  m_bounce :: "bounce option"
  m_nSteps :: u64
  m_schedule :: EVMSchedule
  m_output :: bytes
  m_mem :: bytes
  m_code :: bytes
  m_returnData :: bytes
  m_stack :: "u256 list"
  m_pool :: "u256 list"
  m_OP :: Instruction
  m_PC :: u64
  m_SP :: int
  m_SPP :: int
  m_runGas :: u64
  m_newMemSize :: u64
  m_copyMemSize :: u64
  m_jumpDests :: "u64 list"

type_synonym ('e, 'w, 'a) vmE = "('e vm_exn, 'w vm, 'a) exc"

definition stackEnd :: int where "stackEnd = 1024"

text \<open>Accesses through pointers.\<close>

definition SP :: "nat \<Rightarrow> ('e, 'w, u256) vmE" where
  "SP i s = (let j = m_SP s + int i in
     if 0 \<le> j \<and> j < int (length (m_stack s)) then (Inr (m_stack s ! nat j), s) else (Inl OutOfRange, s))"

definition put_stack :: "int \<Rightarrow> u256 \<Rightarrow> ('e, 'w, unit) vmE" where
  "put_stack j v s =
     (if 0 \<le> j \<and> j < int (length (m_stack s)) then (Inr (), s\<lparr>m_stack := (m_stack s)[nat j := v]\<rparr>)
      else (Inl OutOfRange, s))"

definition setSP :: "nat \<Rightarrow> u256 \<Rightarrow> ('e, 'w, unit) vmE" where
  "setSP i v = bindE (getE m_SP) (\<lambda>p. put_stack (p + int i) v)"

definition setSPP :: "u256 \<Rightarrow> ('e, 'w, unit) vmE" where
  "setSPP v = bindE (getE m_SPP) (\<lambda>p. put_stack p v)"

definition rdMem :: "nat \<Rightarrow> nat \<Rightarrow> ('e, 'w, bytes) vmE" where
  "rdMem off n s =
     (if n = 0 then (Inr [], s)
      else if off + n \<le> length (m_mem s) then (Inr (take n (drop off (m_mem s))), s)
      else (Inl OutOfRange, s))"

definition patch :: "nat \<Rightarrow> bytes \<Rightarrow> bytes \<Rightarrow> bytes" where
  "patch off bs m = take off m @ bs @ drop (off + length bs) m"

definition wrMem :: "nat \<Rightarrow> bytes \<Rightarrow> ('e, 'w, unit) vmE" where
  "wrMem off bs s =
     (if bs = [] then (Inr (), s)
      else if off + length bs \<le> length (m_mem s) then (Inr (), s\<lparr>m_mem := patch off bs (m_mem s)\<rparr>)
      else (Inl OutOfRange, s))"

definition codeByte :: "u64 \<Rightarrow> ('e, 'w, u8) vmE" where
  "codeByte pc s =
     (if unat pc < length (m_code s) then (Inr (m_code s ! unat pc), s) else (Inl OutOfRange, s))"

text \<open>A call of a method of \<open>m_ext\<close>.\<close>

definition viaExt :: "('e, 'w ExtVM, 'a) exc \<Rightarrow> ('e, 'w, 'a) vmE" where
  "viaExt m s = (case m (m_ext s) of
       (Inl e, x) \<Rightarrow> (Inl (ExtException e), s\<lparr>m_ext := x\<rparr>)
     | (Inr v, x) \<Rightarrow> (Inr v, s\<lparr>m_ext := x\<rparr>))"


section \<open>Metering\<close>

text \<open>\<open>toInt63\<close>; the argument is one of several unsigned types.\<close>

definition toInt63 :: "nat \<Rightarrow> ('e, 'w, u64) vmE" where
  "toInt63 v = (if v > 0x7FFFFFFFFFFFFFFF then throw OutOfGas else ret (of_nat v))"

text \<open>The \<open>u512\<close> sums and products below stay under \<open>2 ^ 512\<close>.\<close>

definition memNeed :: "u256 \<Rightarrow> u256 \<Rightarrow> ('e, 'w, u64) vmE" where
  "memNeed off sz = toInt63 (if sz \<noteq> 0 then unat off + unat sz else 0)"

definition onOperation :: "('e, 'w, unit) vmE" where
  "onOperation = updE (\<lambda>s. if m_onOp s
     then s\<lparr>m_nSteps := m_nSteps s + 1, m_trace := m_trace s @
       [(m_nSteps s + 1, m_PC s, m_OP s,
         if unat (m_newMemSize s) > length (m_mem s)
         then (m_newMemSize s - of_nat (length (m_mem s))) div 32 else 0,
         m_runGas s, m_io_gas s)]\<rparr>
     else s)"

definition throwBadStack :: "nat \<Rightarrow> nat \<Rightarrow> ('e, 'w, unit) vmE" where
  "throwBadStack removed added = bindE (getE (\<lambda>s. stackEnd - m_SPP s)) (\<lambda>size.
     if size < int removed
     then thenE onOperation (throw (StackUnderflow (int removed) size))
     else thenE onOperation (throw (OutOfStack (uint (of_nat added - of_nat removed :: u32)) size)))"

definition adjustStack :: "nat \<Rightarrow> nat \<Rightarrow> ('e, 'w, unit) vmE" where
  "adjustStack removed added =
     thenE (updE (\<lambda>s. s\<lparr>m_SP := m_SPP s, m_SPP := m_SPP s + int removed\<rparr>))
    (thenE (bindE (getE m_SPP) (\<lambda>p. if stackEnd < p then throwBadStack removed added else ret ()))
    (thenE (updE (\<lambda>s. s\<lparr>m_SPP := m_SPP s - int added\<rparr>))
           (bindE (getE m_SPP) (\<lambda>p. if p < 0 then throwBadStack removed added else ret ()))))"

definition setRunGas :: "nat \<Rightarrow> ('e, 'w, unit) vmE" where
  "setRunGas v = bindE (toInt63 v) (\<lambda>g. updE (\<lambda>s. s\<lparr>m_runGas := g\<rparr>))"

definition addRunGas :: "nat \<Rightarrow> ('e, 'w, unit) vmE" where
  "addRunGas v = bindE (toInt63 v) (\<lambda>g. updE (\<lambda>s. s\<lparr>m_runGas := m_runGas s + g\<rparr>))"

text \<open>\<open>m_schedule->member\<close>\<close>

definition sched :: "(EVMSchedule \<Rightarrow> u32) \<Rightarrow> ('e, 'w, nat) vmE" where
  "sched f = getE (\<lambda>s. unat (f (m_schedule s)))"

definition updateSSGas :: "('e, 'w) ExtVMFace \<Rightarrow> ('e, 'w, unit) vmE" where
  "updateSSGas E =
     bindE (SP 0) (\<lambda>k. bindE (SP 1) (\<lambda>v. bindE (viaExt (x_store E k)) (\<lambda>old.
     if old = 0 \<and> v \<noteq> 0 then bindE (sched sstoreSetGas) setRunGas
     else bindE (viaExt (x_store E k)) (\<lambda>old.
       if old \<noteq> 0 \<and> v = 0
       then thenE (bindE (sched sstoreResetGas) setRunGas)
         (updE (\<lambda>s. s\<lparr>m_ext := sub_update (refunds_update (\<lambda>r.
            r + ucast (sstoreRefundGas (m_schedule s)))) (m_ext s)\<rparr>))
       else bindE (sched sstoreResetGas) setRunGas))))"

definition gasForMem :: "nat \<Rightarrow> ('e, 'w, u64) vmE" where
  "gasForMem sz = (let n = sz div 32 in
     bindE (sched memoryGas) (\<lambda>g. bindE (sched quadCoeffDiv) (\<lambda>q. toInt63 (g * n + n * n div q))))"

definition updateIOGas :: "('e, 'w, unit) vmE" where
  "updateIOGas s = (if m_io_gas s < m_runGas s then (Inl OutOfGas, s)
     else (Inr (), s\<lparr>m_io_gas := m_io_gas s - m_runGas s\<rparr>))"

definition updateGas :: "('e, 'w, unit) vmE" where
  "updateGas =
     thenE (bindE (getE (\<lambda>s. (m_newMemSize s, length (m_mem s)))) (\<lambda>(new, size).
       if unat new > size
       then bindE (gasForMem (unat new)) (\<lambda>a. bindE (gasForMem size) (\<lambda>b. addRunGas (unat (a - b))))
       else ret ()))
    (thenE (updE (\<lambda>s. s\<lparr>m_runGas := m_runGas s +
        ucast (copyGas (m_schedule s)) * ((m_copyMemSize s + 31) div 32)\<rparr>))
       (bindE (getE (\<lambda>s. m_io_gas s < m_runGas s)) (\<lambda>b. throwIf b OutOfGas)))"

definition updateMem :: "u64 \<Rightarrow> ('e, 'w, unit) vmE" where
  "updateMem new =
     thenE (updE (\<lambda>s. s\<lparr>m_newMemSize := (new + 31) div 32 * 32\<rparr>))
    (thenE updateGas
       (updE (\<lambda>s. if unat (m_newMemSize s) > length (m_mem s)
          then s\<lparr>m_mem := m_mem s @ replicate (unat (m_newMemSize s) - length (m_mem s)) 0\<rparr> else s)))"

definition logGasMem :: "nat \<Rightarrow> ('e, 'w, unit) vmE" where
  "logGasMem n =
     bindE (SP 0) (\<lambda>off. bindE (SP 1) (\<lambda>size.
     bindE (getE m_schedule) (\<lambda>c.
     thenE (setRunGas (unat (logGas c + logTopicGas c * of_nat n) + unat (logDataGas c) * unat size))
       (bindE (memNeed off size) updateMem))))"

definition fetchInstruction :: "('e, 'w, unit) vmE" where
  "fetchInstruction =
     bindE (getE m_PC) (\<lambda>pc. bindE (codeByte pc) (\<lambda>b.
     thenE (updE (\<lambda>s. s\<lparr>m_OP := instruction b\<rparr>))
    (thenE (adjustStack (args (instructionInfo (instruction b))) (iret (instructionInfo (instruction b))))
    (thenE (bindE (getE (\<lambda>s. length (tierStepGas (m_schedule s))))
              (\<lambda>k. throwIf (k \<le> tier_index (gasPriceTier (instructionInfo (instruction b)))) OutOfRange))
    (thenE (bindE (sched (\<lambda>c. tier_gas c (gasPriceTier (instructionInfo (instruction b))))) setRunGas)
       (updE (\<lambda>s. s\<lparr>m_newMemSize := of_nat (length (m_mem s)), m_copyMemSize := 0\<rparr>)))))))"


section \<open>Arithmetic\<close>

definition u2s :: "u256 \<Rightarrow> int" where
  "u2s u = (if bit u 255 then - (2 ^ 256 - uint u) else uint u)"

definition s2u :: "int \<Rightarrow> u256" where
  "s2u v = (if v \<ge> 0 then word_of_int v else word_of_int (2 ^ 256 + v))"

text \<open>The division of \<open>s512\<close> truncates towards zero.\<close>

definition divWorkaround :: "int \<Rightarrow> int \<Rightarrow> int" where
  "divWorkaround a b = sgn a * sgn b * (\<bar>a\<bar> div \<bar>b\<bar>)"

definition modWorkaround :: "int \<Rightarrow> int \<Rightarrow> int" where
  "modWorkaround a b = sgn a * (\<bar>a\<bar> mod \<bar>b\<bar>)"

text \<open>Exponentiation by squaring.\<close>

function exp256_loop :: "u256 \<Rightarrow> u256 \<Rightarrow> u256 \<Rightarrow> u256" where
  "exp256_loop result base' exponent =
     (if exponent = 0 then result
      else exp256_loop (if odd exponent then result * base' else result) (base' * base')
        (drop_bit 1 exponent))"
  by pat_completeness auto

termination
  by (relation "measure (\<lambda>(r, b, e). unat e)")
    (auto simp: drop_bit_eq_div word_less_nat_alt [symmetric] unat_div unat_gt_0)

declare exp256_loop.simps [simp del]

definition exp256 :: "u256 \<Rightarrow> u256 \<Rightarrow> u256" where
  "exp256 base' exponent = exp256_loop 1 base' exponent"

text \<open>\<open>FixedHash::firstBitSet\<close>: the inner loop ends within the eight bits of a byte.\<close>

primrec leading :: "nat \<Rightarrow> u8 \<Rightarrow> nat" where
  "leading 0 d = 0"
| "leading (Suc n) d = (if bit d 7 then 0 else Suc (leading n (push_bit 1 d)))"

primrec firstBitSet :: "bytes \<Rightarrow> nat" where
  "firstBitSet [] = 0"
| "firstBitSet (d # ds) = (if d \<noteq> 0 then leading 8 d else 8 + firstBitSet ds)"

definition signextend :: "u256 \<Rightarrow> u256 \<Rightarrow> u256" where
  "signextend b number =
     (if b < 31
      then let testBit = unat b * 8 + 7; mask = push_bit testBit 1 - 1 in
        if bit number testBit then number OR NOT mask else number AND mask
      else number)"

definition asAddress :: "u256 \<Rightarrow> address" where
  "asAddress item = ucast item"

definition fromAddress :: "address \<Rightarrow> u256" where
  "fromAddress a = ucast a"


section \<open>Helpers of the instruction cases\<close>

text \<open>How a case ends: \<open>NEXT\<close> steps over the instruction, \<open>CONTINUE\<close> does not, \<open>BREAK\<close>
  leaves the interpreter loop.\<close>

datatype flow = NEXT | CONTINUE | BREAK

text \<open>\<open>ON_OP(); updateIOGas();\<close>\<close>

definition charge :: "('e, 'w, unit) vmE" where
  "charge = thenE onOperation updateIOGas"

text \<open>The cases that only compute \<open>m_SPP[0]\<close> from \<open>m_SP[0]\<close>, \<open>m_SP[1]\<close>, \<open>m_SP[2]\<close>.\<close>

definition push0 :: "('w vm \<Rightarrow> u256) \<Rightarrow> ('e, 'w, flow) vmE" where
  "push0 f = thenE charge (bindE (getE f) (\<lambda>v. thenE (setSPP v) (ret NEXT)))"

definition unop :: "(u256 \<Rightarrow> u256) \<Rightarrow> ('e, 'w, flow) vmE" where
  "unop f = thenE charge (bindE (SP 0) (\<lambda>a. thenE (setSPP (f a)) (ret NEXT)))"

definition binop :: "(u256 \<Rightarrow> u256 \<Rightarrow> u256) \<Rightarrow> ('e, 'w, flow) vmE" where
  "binop f = thenE charge (bindE (SP 0) (\<lambda>a. bindE (SP 1) (\<lambda>b. thenE (setSPP (f a b)) (ret NEXT))))"

definition ternop :: "(u256 \<Rightarrow> u256 \<Rightarrow> u256 \<Rightarrow> u256) \<Rightarrow> ('e, 'w, flow) vmE" where
  "ternop f = thenE charge (bindE (SP 0) (\<lambda>a. bindE (SP 1) (\<lambda>b. bindE (SP 2) (\<lambda>c.
     thenE (setSPP (f a b c)) (ret NEXT)))))"

definition bool256 :: "bool \<Rightarrow> u256" where
  "bool256 b = (if b then 1 else 0)"

primrec arithCase :: "arith \<Rightarrow> ('e, 'w, flow) vmE" where
  "arithCase ADD = binop (\<lambda>a b. a + b)"
| "arithCase MUL = binop (\<lambda>a b. a * b)"
| "arithCase SUB = binop (\<lambda>a b. a - b)"
| "arithCase DIV = binop (\<lambda>a b.
     if b \<noteq> 0 then word_of_int (divWorkaround (uint a) (uint b)) else 0)"
| "arithCase SDIV = bindE (binop (\<lambda>a b. if b \<noteq> 0 then s2u (divWorkaround (u2s a) (u2s b)) else 0))
     (\<lambda>f. thenE (updE (\<lambda>s. s\<lparr>m_SP := m_SP s - 1\<rparr>)) (ret f))"
| "arithCase MOD = binop (\<lambda>a b.
     if b \<noteq> 0 then word_of_int (modWorkaround (uint a) (uint b)) else 0)"
| "arithCase SMOD = binop (\<lambda>a b. if b \<noteq> 0 then s2u (modWorkaround (u2s a) (u2s b)) else 0)"
| "arithCase NOT_op = unop (\<lambda>a. NOT a)"

primrec logicCase :: "logic \<Rightarrow> ('e, 'w, flow) vmE" where
  "logicCase LT = binop (\<lambda>a b. bool256 (a < b))"
| "logicCase GT = binop (\<lambda>a b. bool256 (a > b))"
| "logicCase SLT = binop (\<lambda>a b. bool256 (u2s a < u2s b))"
| "logicCase SGT = binop (\<lambda>a b. bool256 (u2s a > u2s b))"
| "logicCase EQ = binop (\<lambda>a b. bool256 (a = b))"
| "logicCase ISZERO = unop (\<lambda>a. if a \<noteq> 0 then 0 else 1)"
| "logicCase AND_op = binop (\<lambda>a b. a AND b)"
| "logicCase OR_op = binop (\<lambda>a b. a OR b)"
| "logicCase XOR_op = binop (\<lambda>a b. a XOR b)"
| "logicCase BYTE = binop (\<lambda>a b.
     if a < 32 then drop_bit (unat (8 * (31 - a))) b AND 0xff else 0)"
| "logicCase ADDMOD = ternop (\<lambda>a b c. if c \<noteq> 0 then of_nat ((unat a + unat b) mod unat c) else 0)"
| "logicCase MULMOD = ternop (\<lambda>a b c. if c \<noteq> 0 then of_nat ((unat a * unat b) mod unat c) else 0)"
| "logicCase SIGNEXTEND = thenE charge (bindE (SP 0) (\<lambda>a. bindE (SP 1) (\<lambda>b.
     thenE (setSP 1 (signextend a b)) (ret NEXT))))"

text \<open>\<open>CALLDATALOAD\<close>: the word at an offset of the input, zero beyond its end.\<close>

definition calldataload :: "bytes \<Rightarrow> u256 \<Rightarrow> u256" where
  "calldataload d off =
     (if unat off + 31 < length d then bytes_h256 (take 32 (drop (unat off) d))
      else if unat off \<ge> length d then 0
      else bytes_h256 (map (\<lambda>i. if i < length d then d ! i else 0) [unat off ..< unat off + 32]))"

definition priced :: "(EVMSchedule \<Rightarrow> u32) \<Rightarrow> ('e, 'w, unit) vmE" where
  "priced f = thenE (bindE (sched f) setRunGas) charge"

primrec envCase :: "('e, 'w) ExtVMFace \<Rightarrow> env \<Rightarrow> ('e, 'w, flow) vmE" where
  "envCase E ADDRESS = push0 (\<lambda>s. fromAddress (myAddress (m_ext s)))"
| "envCase E BALANCE = thenE (priced balanceGas) (bindE (SP 0) (\<lambda>a.
     bindE (viaExt (x_balance E (asAddress a))) (\<lambda>v. thenE (setSPP v) (ret NEXT))))"
| "envCase E ORIGIN = push0 (\<lambda>s. fromAddress (origin (m_ext s)))"
| "envCase E CALLER = push0 (\<lambda>s. fromAddress (caller (m_ext s)))"
| "envCase E CALLVALUE = push0 (\<lambda>s. ext_value (m_ext s))"
| "envCase E CALLDATALOAD = thenE charge (bindE (SP 0) (\<lambda>a.
     bindE (getE (\<lambda>s. ext_data (m_ext s))) (\<lambda>d. thenE (setSP 0 (calldataload d a)) (ret NEXT))))"
| "envCase E CALLDATASIZE = push0 (\<lambda>s. of_nat (length (ext_data (m_ext s))))"
| "envCase E CODESIZE = push0 (\<lambda>s. of_nat (length (ext_code (m_ext s))))"
| "envCase E EXTCODESIZE = thenE (priced extcodesizeGas) (bindE (SP 0) (\<lambda>a.
     bindE (viaExt (x_codeSizeAt E (asAddress a))) (\<lambda>n. thenE (setSPP (ucast n)) (ret NEXT))))"
| "envCase E RETURNDATASIZE = bindE (getE (\<lambda>s. haveReturnData (m_schedule s))) (\<lambda>h.
     thenE (throwIf (\<not> h) BadInstruction) (push0 (\<lambda>s. of_nat (length (m_returnData s)))))"

primrec blkCase :: "('e, 'w) ExtVMFace \<Rightarrow> blk \<Rightarrow> ('e, 'w, flow) vmE" where
  "blkCase E GASPRICE = push0 (\<lambda>s. gasPrice (m_ext s))"
| "blkCase E BLOCKHASH = thenE onOperation (thenE (bindE (sched blockhashGas) setRunGas)
     (thenE updateIOGas (bindE (SP 0) (\<lambda>n. bindE (viaExt (x_blockHash E n)) (\<lambda>v.
        thenE (setSPP v) (ret NEXT))))))"
| "blkCase E COINBASE = push0 (\<lambda>s. fromAddress (env_author (envInfo (m_ext s))))"
| "blkCase E TIMESTAMP = push0 (\<lambda>s. env_timestamp (envInfo (m_ext s)))"
| "blkCase E NUMBER = push0 (\<lambda>s. env_number (envInfo (m_ext s)))"
| "blkCase E DIFFICULTY = push0 (\<lambda>s. env_difficulty (envInfo (m_ext s)))"
| "blkCase E GASLIMIT = push0 (\<lambda>s. env_gasLimit (envInfo (m_ext s)))"

primrec machCase :: "('e, 'w) ExtVMFace \<Rightarrow> mach \<Rightarrow> ('e, 'w, flow) vmE" where
  "machCase E SLOAD = thenE (priced sloadGas) (bindE (SP 0) (\<lambda>k.
     bindE (viaExt (x_store E k)) (\<lambda>v. thenE (setSPP v) (ret NEXT))))"
| "machCase E SSTORE = thenE onOperation (bindE (getE (\<lambda>s. staticCall (m_ext s))) (\<lambda>st.
     thenE (throwIf st DisallowedStateChange) (thenE (updateSSGas E) (thenE updateIOGas
       (bindE (SP 0) (\<lambda>k. bindE (SP 1) (\<lambda>v. thenE (viaExt (x_setStore E k v)) (ret NEXT))))))))"
| "machCase E PC = push0 (\<lambda>s. ucast (m_PC s))"
| "machCase E MSIZE = push0 (\<lambda>s. of_nat (length (m_mem s)))"
| "machCase E GAS = push0 (\<lambda>s. ucast (m_io_gas s))"

text \<open>
  \<open>copyDataToMemory(_data, m_SP + i)\<close>. The offset and the size are converted to
  \<open>size_t\<close>; the index is compared at full width, and its conversion is only used when it
  is at most the size of the data, so that it is exact.
\<close>

definition copied :: "bytes \<Rightarrow> nat \<Rightarrow> nat \<Rightarrow> nat" where
  "copied d index sz =
     (if index + sz > length d then if length d < index then 0 else length d - index else sz)"

definition copyDataToMemory :: "bytes \<Rightarrow> nat \<Rightarrow> ('e, 'w, unit) vmE" where
  "copyDataToMemory d i =
     bindE (SP i) (\<lambda>a. bindE (SP (i + 1)) (\<lambda>bigIndex. bindE (SP (i + 2)) (\<lambda>c.
     let off = unat (ucast a :: u64); index = unat bigIndex;
         sz = unat (ucast c :: u64); n = copied d index sz in
     thenE (wrMem off (take n (drop index d))) (wrMem (off + n) (replicate (sz - n) 0)))))"

text \<open>The four copying instructions, from the check of the size on.\<close>

definition copyCase :: "nat \<Rightarrow> ('e, 'w, bytes) vmE \<Rightarrow> ('e, 'w, flow) vmE" where
  "copyCase i d =
     bindE (SP i) (\<lambda>off. bindE (SP (i + 2)) (\<lambda>sz.
     bindE (toInt63 (unat sz)) (\<lambda>n.
     thenE (updE (\<lambda>s. s\<lparr>m_copyMemSize := n\<rparr>))
    (thenE (bindE (memNeed off sz) updateMem)
    (thenE updateIOGas
       (bindE d (\<lambda>bs. thenE (copyDataToMemory bs i) (ret NEXT))))))))"

text \<open>The part of memory that \<open>RETURN\<close> and \<open>REVERT\<close> hand out.\<close>

definition returnRegion :: "('e, 'w, bytes) vmE" where
  "returnRegion =
     thenE (updE (\<lambda>s. s\<lparr>m_copyMemSize := 0\<rparr>))
       (bindE (SP 0) (\<lambda>b. bindE (SP 1) (\<lambda>n.
        thenE (bindE (memNeed b n) updateMem)
       (thenE updateIOGas (rdMem (unat (ucast b :: u64)) (unat (ucast n :: u64)))))))"

primrec SPs :: "nat list \<Rightarrow> ('e, 'w, u256 list) vmE" where
  "SPs [] = ret []"
| "SPs (i # is) = bindE (SP i) (\<lambda>v. bindE (SPs is) (\<lambda>vs. ret (v # vs)))"

definition logCase :: "('e, 'w) ExtVMFace \<Rightarrow> nat \<Rightarrow> ('e, 'w, flow) vmE" where
  "logCase E n =
     thenE onOperation (bindE (getE (\<lambda>s. staticCall (m_ext s))) (\<lambda>st.
     thenE (throwIf st DisallowedStateChange)
    (thenE (logGasMem n)
    (thenE updateIOGas
       (bindE (SP 0) (\<lambda>off. bindE (SP 1) (\<lambda>sz.
        bindE (rdMem (unat (ucast off :: u64)) (unat (ucast sz :: u64))) (\<lambda>d.
        bindE (SPs [2 ..< n + 2]) (\<lambda>topics.
        thenE (viaExt (x_log E topics d)) (ret NEXT))))))))))"

definition suicideCase :: "('e, 'w) ExtVMFace \<Rightarrow> ('e, 'w, flow) vmE" where
  "suicideCase E =
     thenE onOperation (bindE (getE (\<lambda>s. staticCall (m_ext s))) (\<lambda>st.
     thenE (throwIf st DisallowedStateChange)
    (thenE (bindE (sched suicideGas) setRunGas)
       (bindE (SP 0) (\<lambda>d. bindE (getE m_schedule) (\<lambda>c.
        bindE (getE (\<lambda>s. myAddress (m_ext s))) (\<lambda>me. bindE (viaExt (x_balance E me)) (\<lambda>v.
        thenE (if (v > 0 \<or> zeroValueTransferChargesNewAccountGas c) \<and> suicideChargesNewAccountGas c
          then bindE (viaExt (x_exists E (asAddress d))) (\<lambda>ex.
            updE (\<lambda>s. if \<not> ex then s\<lparr>m_runGas := m_runGas s + ucast (callNewAccountGas c)\<rparr> else s))
          else ret ())
       (thenE updateIOGas
       (thenE (viaExt (x_suicide E (asAddress d)))
       (thenE (updE (\<lambda>s. s\<lparr>m_bounce := None\<rparr>)) (ret BREAK))))))))))))"


section \<open>Jumps and pushes\<close>

text \<open>\<open>std::binary_search\<close>: the lower bound by halving, then a comparison.\<close>

function lower_bound :: "u64 list \<Rightarrow> u64 \<Rightarrow> nat \<Rightarrow> nat \<Rightarrow> nat" where
  "lower_bound v x first len =
     (if len = 0 then first
      else let half = len div 2 in
        if v ! (first + half) < x then lower_bound v x (first + half + 1) (len - half - 1)
        else lower_bound v x first half)"
  by pat_completeness auto

termination
  by (relation "measure (\<lambda>(v, x, f, l). l)") auto

declare lower_bound.simps [simp del]

definition binary_search :: "u64 list \<Rightarrow> u64 \<Rightarrow> bool" where
  "binary_search v x = (let i = lower_bound v x 0 (length v) in i < length v \<and> \<not> x < v ! i)"

text \<open>\<open>verifyJumpDest(dest, false)\<close>; the result \<open>-1\<close> is \<open>None\<close>.\<close>

definition verifyJumpDest :: "u64 list \<Rightarrow> u256 \<Rightarrow> u64 option" where
  "verifyJumpDest dests d =
     (if d \<le> 0x7FFFFFFFFFFFFFFF \<and> binary_search dests (ucast d) then Some (ucast d) else None)"

definition jumpTo :: "u256 \<Rightarrow> ('e, 'w, flow) vmE" where
  "jumpTo d = bindE (getE m_jumpDests) (\<lambda>js. bindE (theE BadJumpDestination (verifyJumpDest js d)) (\<lambda>pc.
     thenE (updE (\<lambda>s. s\<lparr>m_PC := pc\<rparr>)) (ret CONTINUE)))"

definition incPC :: "('e, 'w, unit) vmE" where
  "incPC = updE (\<lambda>s. s\<lparr>m_PC := m_PC s + 1\<rparr>)"

text \<open>\<open>m_code[m_PC++]\<close>\<close>

definition nextByte :: "('e, 'w, u8) vmE" where
  "nextByte = bindE (getE m_PC) (\<lambda>pc. bindE (codeByte pc) (\<lambda>b. thenE incPC (ret b)))"

definition getSPP :: "('e, 'w, u256) vmE" where
  "getSPP s = (if 0 \<le> m_SPP s \<and> m_SPP s < int (length (m_stack s))
     then (Inr (m_stack s ! nat (m_SPP s)), s) else (Inl OutOfRange, s))"

primrec pushLoop :: "nat \<Rightarrow> ('e, 'w, unit) vmE" where
  "pushLoop 0 = ret ()"
| "pushLoop (Suc n) = bindE getSPP (\<lambda>v. bindE nextByte (\<lambda>b.
     thenE (setSPP (push_bit 8 v OR ucast b)) (pushLoop n)))"

definition pushCase :: "nat \<Rightarrow> ('e, 'w, flow) vmE" where
  "pushCase n =
     thenE charge
    (if n = 1
     then thenE incPC (bindE nextByte (\<lambda>b. thenE (setSPP (ucast b)) (ret CONTINUE)))
     else thenE (setSPP 0) (thenE incPC (thenE (pushLoop n) (ret CONTINUE))))"

definition pushcCase :: "('e, 'w, flow) vmE" where
  "pushcCase =
     thenE charge (thenE incPC
       (bindE nextByte (\<lambda>hi. bindE nextByte (\<lambda>lo.
        bindE (bindE (getE m_PC) codeByte) (\<lambda>k.
        thenE (updE (\<lambda>s. s\<lparr>m_PC := m_PC s + ucast k\<rparr>))
       (bindE (getE m_pool) (\<lambda>pool. let off = unat hi * 256 + unat lo in
        if off < length pool then thenE (setSPP (pool ! off)) (ret CONTINUE)
        else throw OutOfRange)))))))"


section \<open>Calling out\<close>

text \<open>The endowment, the salt, and the region of the initialisation code.\<close>

definition createArgs :: "('e, 'w, u256 \<times> u256 \<times> u256 \<times> u256) vmE" where
  "createArgs = bindE (SP 0) (\<lambda>endowment. bindE (getE m_OP) (\<lambda>op.
     if op = CREATE
     then bindE (SP 1) (\<lambda>off. bindE (SP 2) (\<lambda>sz. ret (endowment, 0, off, sz)))
     else bindE (SP 1) (\<lambda>salt. bindE (SP 2) (\<lambda>off. bindE (SP 3) (\<lambda>sz.
       ret (endowment, salt, off, sz))))))"

text \<open>The creation itself, and the gas that is left.\<close>

definition createRun :: "('e, 'w) ExtVMFace \<Rightarrow> u256 \<times> u256 \<times> u256 \<times> u256 \<Rightarrow> ('e, 'w, unit) vmE" where
  "createRun E = (\<lambda>(endowment, salt, off, sz).
     thenE (updE (\<lambda>s. s\<lparr>m_io_gas_p := ucast (m_io_gas s)\<rparr>))
    (bindE (getE (\<lambda>s. if \<not> staticCallDepthLimit (m_schedule s)
        then m_io_gas_p s - m_io_gas_p s div 64 else m_io_gas_p s)) (\<lambda>cgas.
     bindE (rdMem (unat (ucast off :: u64)) (unat (ucast sz :: u64))) (\<lambda>init.
     bindE (getE (\<lambda>s. (m_OP s, m_onOp s))) (\<lambda>(op, onop).
     bindE (viaExt (x_create E endowment cgas init op salt onop)) (\<lambda>(addr, output, gas).
     thenE (setSPP (ucast addr))
       (updE (\<lambda>s. s\<lparr>m_returnData := output, m_io_gas_p := m_io_gas_p s - (cgas - gas),
          m_io_gas := ucast (m_io_gas_p s - (cgas - gas))\<rparr>))))))))"

definition caseCreate :: "('e, 'w) ExtVMFace \<Rightarrow> ('e, 'w, unit) vmE" where
  "caseCreate E =
     thenE (updE (\<lambda>s. s\<lparr>m_bounce := Some InterpretCases\<rparr>))
    (thenE (bindE (sched createGas) setRunGas)
    (bindE createArgs (\<lambda>(endowment, salt, off, sz).
     thenE (bindE (memNeed off sz) updateMem)
    (thenE updateIOGas
    (thenE (updE (\<lambda>s. s\<lparr>m_returnData := []\<rparr>))
    (bindE (bindE (getE (\<lambda>s. myAddress (m_ext s))) (\<lambda>me. viaExt (x_balance E me))) (\<lambda>bal.
     bindE (getE (\<lambda>s. depth (m_ext s))) (\<lambda>dep.
     thenE (if bal \<ge> endowment \<and> dep < 1024 then createRun E (endowment, salt, off, sz) else setSPP 0)
       incPC))))))))"

text \<open>
  \<open>caseCallSetup\<close>: the parameters of the call and, when it is to be made, the region of
  memory for its output.
\<close>

definition callCharge :: "('e, 'w) ExtVMFace \<Rightarrow> Instruction \<Rightarrow> ('e, 'w, unit) vmE" where
  "callCharge E op =
     thenE (bindE (sched callGas) setRunGas)
    (thenE (if op = CALL
       then bindE (SP 1) (\<lambda>to'. bindE (viaExt (x_exists E (asAddress to'))) (\<lambda>ex.
         bindE (SP 2) (\<lambda>v. bindE (getE m_schedule) (\<lambda>c.
         if \<not> ex \<and> (v > 0 \<or> zeroValueTransferChargesNewAccountGas c)
         then addRunGas (unat (callNewAccountGas c)) else ret ()))))
       else ret ())
    (if op = CALL \<or> op = CALLCODE
     then bindE (SP 2) (\<lambda>v. if v > 0 then bindE (sched callValueTransferGas) addRunGas else ret ())
     else ret ()))"

definition callAllowance :: "u256 \<Rightarrow> ('e, 'w, u256) vmE" where
  "callAllowance requested = getE (\<lambda>s.
     if staticCallDepthLimit (m_schedule s) then requested
     else min requested (ucast (m_io_gas s - m_io_gas s div 64)))"

text \<open>The regions of the input and of the output; memory is grown for both and paid.\<close>

definition callRegions :: "nat \<Rightarrow> ('e, 'w, u256 \<times> u256 \<times> u256 \<times> u256) vmE" where
  "callRegions sizesOffset =
     bindE (SP sizesOffset) (\<lambda>inOff. bindE (SP (sizesOffset + 1)) (\<lambda>inSize.
     bindE (SP (sizesOffset + 2)) (\<lambda>outOff. bindE (SP (sizesOffset + 3)) (\<lambda>outSize.
     bindE (memNeed inOff inSize) (\<lambda>inNeed. bindE (memNeed outOff outSize) (\<lambda>outNeed.
     thenE (updateMem (max inNeed outNeed))
    (thenE updateIOGas (ret (inOff, inSize, outOff, outSize)))))))))"

definition callGasGiven :: "('e, 'w, u256) vmE" where
  "callGasGiven = bindE (SP 0) (\<lambda>requested. bindE (callAllowance requested) (\<lambda>gas.
     thenE (setRunGas (unat gas)) (thenE updateIOGas (ret gas))))"

text \<open>The fields of the parameters, and the region for the output when the call is to be made.\<close>

definition callParams ::
    "('e, 'w) ExtVMFace \<Rightarrow> Instruction \<Rightarrow> u256 \<times> u256 \<times> u256 \<times> u256 \<Rightarrow> u256
      \<Rightarrow> ('e, 'w, CallParameters \<times> (nat \<times> nat) option) vmE" where
  "callParams E op = (\<lambda>(inOff, inSize, outOff, outSize) gas.
     let haveValueArg = (op = CALL \<or> op = CALLCODE) in
     bindE (if haveValueArg then SP 2 else ret 0) (\<lambda>v. bindE (SP 1) (\<lambda>dest.
     bindE (getE (\<lambda>s. (m_ext s, callStipend (m_schedule s), m_onOp s))) (\<lambda>(x, stipend, onop).
     bindE (viaExt (x_balance E (myAddress x))) (\<lambda>bal.
     let p = newCallParameters\<lparr>
           cp_staticCall := (op = STATICCALL \<or> staticCall x),
           cp_gas := (if haveValueArg \<and> v > 0 then gas + ucast stipend else gas),
           codeAddress := asAddress dest,
           valueTransfer := v,
           apparentValue := (if haveValueArg then v
             else if op = DELEGATECALL then ext_value x else 0)\<rparr> in
     if bal \<ge> v \<and> depth x < 1024
     then bindE (rdMem (unat (ucast inOff :: u64)) (unat (ucast inSize :: u64))) (\<lambda>d.
       ret (p\<lparr>cp_onOp := onop,
           senderAddress := (if op = DELEGATECALL then caller x else myAddress x),
           receiveAddress := (if op = CALL \<or> op = STATICCALL then asAddress dest else myAddress x),
           cp_data := d\<rparr>,
         Some (unat (ucast outOff :: u64), unat (ucast outSize :: u64))))
     else ret (p, None))))))"

definition caseCallSetup ::
    "('e, 'w) ExtVMFace \<Rightarrow> ('e, 'w, CallParameters \<times> (nat \<times> nat) option) vmE" where
  "caseCallSetup E =
     bindE (getE m_OP) (\<lambda>op.
     thenE (callCharge E op)
    (bindE (callRegions (if op = CALL \<or> op = CALLCODE then 3 else 2)) (\<lambda>regions.
     bindE callGasGiven (callParams E op regions))))"

text \<open>The call, with its output copied to memory; the result is the gas it leaves.\<close>

definition callRun ::
    "('e, 'w) ExtVMFace \<Rightarrow> CallParameters \<Rightarrow> (nat \<times> nat) option \<Rightarrow> ('e, 'w, u256) vmE" where
  "callRun E p out = (case out of
       Some (outOff, outSize) \<Rightarrow>
         bindE (viaExt (x_call E p)) (\<lambda>(success, output, gas).
         thenE (wrMem outOff (take outSize output))
        (thenE (updE (\<lambda>s. s\<lparr>m_returnData := output\<rparr>))
        (thenE (setSPP (if success then 1 else 0)) (ret gas))))
     | None \<Rightarrow> thenE (setSPP 0) (ret (cp_gas p)))"

definition caseCall :: "('e, 'w) ExtVMFace \<Rightarrow> ('e, 'w, unit) vmE" where
  "caseCall E =
     thenE (updE (\<lambda>s. s\<lparr>m_bounce := Some InterpretCases, m_returnData := []\<rparr>))
    (bindE (caseCallSetup E) (\<lambda>(p, out). bindE (callRun E p out) (\<lambda>gas.
     thenE (updE (\<lambda>s. s\<lparr>m_io_gas := m_io_gas s + ucast gas\<rparr>)) incPC)))"


section \<open>The cases of the interpreter loop\<close>

definition bounceTo :: "bounce option \<Rightarrow> ('e, 'w, flow) vmE" where
  "bounceTo b = thenE (updE (\<lambda>s. s\<lparr>m_bounce := b\<rparr>)) (ret BREAK)"

definition isStatic :: "('e, 'w, bool) vmE" where
  "isStatic = getE (\<lambda>s. staticCall (m_ext s))"

definition callCase :: "Instruction \<Rightarrow> ('e, 'w, flow) vmE" where
  "callCase op =
     thenE onOperation (bindE (getE m_schedule) (\<lambda>c.
     thenE (throwIf (op = DELEGATECALL \<and> \<not> haveDelegateCall c) BadInstruction)
    (thenE (throwIf (op = STATICCALL \<and> \<not> haveStaticCall c) BadInstruction)
    (thenE (if op = CALL
       then bindE isStatic (\<lambda>st. if st
         then bindE (SP 2) (\<lambda>v. throwIf (v \<noteq> 0) DisallowedStateChange) else ret ())
       else ret ())
       (bounceTo (Some CaseCall))))))"

definition expCase :: "('e, 'w, flow) vmE" where
  "expCase =
     bindE (SP 1) (\<lambda>expon. bindE (getE m_schedule) (\<lambda>c.
     thenE (setRunGas (unat (expGas c + expByteGas c * (32 - of_nat (firstBitSet (h256_bytes expon) div 8)))))
    (thenE charge
    (bindE (SP 0) (\<lambda>b. thenE (setSPP (exp256 b expon)) (ret NEXT))))))"

definition sha3Case :: "(bytes \<Rightarrow> h256) \<Rightarrow> ('e, 'w, flow) vmE" where
  "sha3Case K =
     thenE onOperation (bindE (SP 0) (\<lambda>off. bindE (SP 1) (\<lambda>sz. bindE (getE m_schedule) (\<lambda>c.
     thenE (setRunGas (unat (sha3Gas c) + (unat sz + 31) div 32 * unat (sha3WordGas c)))
    (thenE (bindE (memNeed off sz) updateMem)
    (thenE updateIOGas
    (bindE (rdMem (unat (ucast off :: u64)) (unat (ucast sz :: u64))) (\<lambda>bs.
     thenE (setSPP (K bs)) (ret NEXT)))))))))"

text \<open>
  \<open>MLOAD\<close>, \<open>MSTORE\<close>, \<open>MSTORE8\<close>: memory is grown for the full offset, and accessed at the
  offset converted to \<open>unsigned\<close>.
\<close>

definition growFor :: "u64 \<Rightarrow> ('e, 'w, nat) vmE" where
  "growFor n =
     thenE onOperation (bindE (SP 0) (\<lambda>a. bindE (toInt63 (unat a)) (\<lambda>off.
     thenE (updateMem (off + n)) (thenE updateIOGas (ret (unat (ucast a :: u32)))))))"

definition mloadCase :: "('e, 'w, flow) vmE" where
  "mloadCase = bindE (growFor 32) (\<lambda>off. bindE (rdMem off 32) (\<lambda>bs.
     thenE (setSPP (bytes_h256 bs)) (ret NEXT)))"

definition mstoreCase :: "('e, 'w, flow) vmE" where
  "mstoreCase = bindE (growFor 32) (\<lambda>off. bindE (SP 1) (\<lambda>v.
     thenE (wrMem off (h256_bytes v)) (ret NEXT)))"

definition mstore8Case :: "('e, 'w, flow) vmE" where
  "mstore8Case = bindE (growFor 1) (\<lambda>off. bindE (SP 1) (\<lambda>v.
     thenE (wrMem off [ucast (v AND 0xff)]) (ret NEXT)))"

definition returndatacopyCase :: "('e, 'w, flow) vmE" where
  "returndatacopyCase =
     thenE onOperation (bindE (getE (\<lambda>s. haveReturnData (m_schedule s))) (\<lambda>h.
     thenE (throwIf (\<not> h) BadInstruction)
    (bindE (SP 1) (\<lambda>a. bindE (SP 2) (\<lambda>b. bindE (getE (\<lambda>s. length (m_returnData s))) (\<lambda>n.
     thenE (if n < unat a + unat b
       then thenE onOperation (throw (BufferOverrun (uint a + uint b) (int n))) else ret ())
       (copyCase 0 (getE m_returnData))))))))"

definition swapCase :: "nat \<Rightarrow> ('e, 'w, flow) vmE" where
  "swapCase n = thenE charge (bindE (SP 0) (\<lambda>a. bindE (SP n) (\<lambda>b.
     thenE (setSP 0 b) (thenE (setSP n a) (ret NEXT)))))"

primrec interpretCase :: "(bytes \<Rightarrow> h256) \<Rightarrow> ('e, 'w) ExtVMFace \<Rightarrow> Instruction \<Rightarrow> ('e, 'w, flow) vmE"
where
  "interpretCase K E (Arith x) = arithCase x"
| "interpretCase K E (Logic x) = logicCase x"
| "interpretCase K E (Env x) = envCase E x"
| "interpretCase K E (Blk x) = blkCase E x"
| "interpretCase K E (Mach x) = machCase E x"
| "interpretCase K E STOP = thenE charge (bounceTo None)"
| "interpretCase K E EXP = expCase"
| "interpretCase K E SHA3 = sha3Case K"
| "interpretCase K E CALLDATACOPY = thenE onOperation (copyCase 0 (getE (\<lambda>s. ext_data (m_ext s))))"
| "interpretCase K E CODECOPY = thenE onOperation (copyCase 0 (getE (\<lambda>s. ext_code (m_ext s))))"
| "interpretCase K E EXTCODECOPY = thenE onOperation (thenE (bindE (sched extcodecopyGas) setRunGas)
     (copyCase 1 (bindE (SP 0) (\<lambda>a. viaExt (x_codeAt E (asAddress a))))))"
| "interpretCase K E RETURNDATACOPY = returndatacopyCase"
| "interpretCase K E POP = thenE charge (thenE (updE (\<lambda>s. s\<lparr>m_SP := m_SP s - 1\<rparr>)) (ret NEXT))"
| "interpretCase K E MLOAD = mloadCase"
| "interpretCase K E MSTORE = mstoreCase"
| "interpretCase K E MSTORE8 = mstore8Case"
| "interpretCase K E JUMP = thenE charge (bindE (SP 0) jumpTo)"
| "interpretCase K E JUMPI = thenE charge (bindE (SP 1) (\<lambda>c.
     if c \<noteq> 0 then bindE (SP 0) jumpTo else thenE incPC (ret CONTINUE)))"
| "interpretCase K E JUMPDEST = thenE (updE (\<lambda>s. s\<lparr>m_runGas := 1\<rparr>)) (thenE charge (ret NEXT))"
| "interpretCase K E (PUSH n) = pushCase n"
| "interpretCase K E (DUP n) = thenE charge (bindE (SP n) (\<lambda>v. thenE (setSPP v) (ret NEXT)))"
| "interpretCase K E (SWAP n) = swapCase n"
| "interpretCase K E (LOG n) = logCase E n"
| "interpretCase K E PUSHC = pushcCase"
| "interpretCase K E JUMPC = thenE charge (bindE (SP 0) (\<lambda>d.
     thenE (updE (\<lambda>s. s\<lparr>m_PC := ucast d\<rparr>)) (ret CONTINUE)))"
| "interpretCase K E JUMPCI = thenE charge (bindE (SP 1) (\<lambda>c.
     if c \<noteq> 0 then bindE (SP 0) (\<lambda>d. thenE (updE (\<lambda>s. s\<lparr>m_PC := ucast d\<rparr>)) (ret CONTINUE))
     else thenE incPC (ret CONTINUE)))"
| "interpretCase K E (EIP615 x) = throw BadInstruction"
| "interpretCase K E (EIP616 x) = throw BadInstruction"
| "interpretCase K E CREATE = thenE onOperation (bindE isStatic (\<lambda>st.
     thenE (throwIf st DisallowedStateChange) (bounceTo (Some CaseCreate))))"
| "interpretCase K E CALL = callCase CALL"
| "interpretCase K E CALLCODE = callCase CALLCODE"
| "interpretCase K E RETURN = thenE onOperation (bindE returnRegion (\<lambda>bs.
     thenE (updE (\<lambda>s. s\<lparr>m_output := bs, m_mem := []\<rparr>)) (bounceTo None)))"
| "interpretCase K E DELEGATECALL = callCase DELEGATECALL"
| "interpretCase K E STATICCALL = callCase STATICCALL"
| "interpretCase K E CREATE2 = thenE onOperation (bindE (getE (\<lambda>s. haveCreate2 (m_schedule s))) (\<lambda>h.
     thenE (throwIf (\<not> h) BadInstruction) (bounceTo (Some CaseCreate))))"
| "interpretCase K E REVERT = bindE (getE (\<lambda>s. haveRevert (m_schedule s))) (\<lambda>h.
     thenE (throwIf (\<not> h) BadInstruction)
    (thenE onOperation (bindE returnRegion (\<lambda>bs.
       thenE (updE (\<lambda>s. s\<lparr>m_mem := []\<rparr>)) (throw (RevertInstruction bs))))))"
| "interpretCase K E INVALID = throw BadInstruction"
| "interpretCase K E SUICIDE = suicideCase E"
| "interpretCase K E NoInstruction = throw BadInstruction"

text \<open>One turn of the loop: fetch, run the case, step over the instruction.\<close>

definition interpretOne :: "(bytes \<Rightarrow> h256) \<Rightarrow> ('e, 'w) ExtVMFace \<Rightarrow> ('e, 'w, flow) vmE" where
  "interpretOne K E =
     thenE fetchInstruction (bindE (getE m_OP) (\<lambda>op. bindE (interpretCase K E op) (\<lambda>f.
     if f = NEXT then thenE incPC (ret f) else ret f)))"

partial_function (option) interpretCases ::
    "(bytes \<Rightarrow> h256) \<Rightarrow> ('e, 'w) ExtVMFace \<Rightarrow> 'w vm \<Rightarrow> (('e vm_exn + unit) \<times> 'w vm) option" where
  "interpretCases K E s = (case interpretOne K E s of
       (Inl e, t) \<Rightarrow> Some (Inl e, t)
     | (Inr f, t) \<Rightarrow> if f = BREAK then Some (Inr (), t) else interpretCases K E t)"


section \<open>Preparing the code\<close>

fun push_len :: "Instruction \<Rightarrow> nat" where
  "push_len (PUSH n) = n"
| "push_len _ = 0"

definition copyCode :: "nat \<Rightarrow> bytes \<Rightarrow> bytes" where
  "copyCode extraBytes code = code @ replicate extraBytes 0"

text \<open>The first pass: the table of jump destinations; synthetic instructions are disabled.\<close>

function jumpdest_pass :: "nat \<Rightarrow> nat \<Rightarrow> bytes \<Rightarrow> u64 list \<Rightarrow> bytes \<times> u64 list" where
  "jumpdest_pass nBytes pc code dests =
     (if pc < nBytes
      then let op = instruction (code ! pc);
          code = (if op \<in> {PUSHC, JUMPC, JUMPCI} then code[pc := byte_INVALID] else code);
          dests = (if op = JUMPDEST then dests @ [of_nat pc] else dests) in
        jumpdest_pass nBytes (pc + push_len op + 1) code dests
      else (code, dests))"
  by pat_completeness auto

termination
  by (relation "measure (\<lambda>(n, pc, c, d). n - pc)") (auto simp: Let_def)

declare jumpdest_pass.simps [simp del]

text \<open>The value of the bytes after a \<open>PUSH\<close>.\<close>

definition decode_push :: "nat \<Rightarrow> nat \<Rightarrow> bytes \<Rightarrow> u256" where
  "decode_push nPush pc code =
     foldl (\<lambda>v i. push_bit 8 v OR ucast (code ! i)) (ucast (code ! (pc + 1))) [pc + 2 ..< pc + nPush + 1]"

definition pool_constant :: "nat \<Rightarrow> nat \<Rightarrow> u256 \<Rightarrow> bytes \<times> u256 list \<Rightarrow> bytes \<times> u256 list" where
  "pool_constant nPush pc val = (\<lambda>(code, pool).
     if 5 < nPush
     then let pool_off = of_nat (length pool) :: 16 word in
       (code[pc := byte_PUSHC, pc + 3 := of_nat (nPush - 2), pc + 2 := ucast (pool_off AND 0xff),
          pc + 1 := ucast (drop_bit 8 pool_off)],
        pool @ [val])
     else (code, pool))"

definition const_jump :: "u64 list \<Rightarrow> nat \<Rightarrow> u256 \<Rightarrow> bytes \<Rightarrow> bytes" where
  "const_jump dests i val code =
     (let op = instruction (code ! i) in
      if op = JUMP \<and> verifyJumpDest dests val \<noteq> None then code[i := byte_JUMPC]
      else if op = JUMPI \<and> verifyJumpDest dests val \<noteq> None then code[i := byte_JUMPCI]
      else code)"

text \<open>The second pass: constants into the pool, jumps to constant destinations.\<close>

function optimize_pass ::
    "nat \<Rightarrow> u64 list \<Rightarrow> nat \<Rightarrow> bytes \<times> u256 list \<Rightarrow> bytes \<times> u256 list" where
  "optimize_pass nBytes dests pc (code, pool) =
     (if pc < nBytes
      then let nPush = push_len (instruction (code ! pc)) in
        if nPush \<noteq> 0
        then let val = decode_push nPush pc code;
            (code, pool) = pool_constant nPush pc val (code, pool) in
          optimize_pass nBytes dests (pc + nPush + 1) (const_jump dests (pc + nPush + 1) val code, pool)
        else optimize_pass nBytes dests (pc + 1) (code, pool)
      else (code, pool))"
  by pat_completeness auto

termination
  by (relation "measure (\<lambda>(n, d, pc, c). n - pc)") (auto simp: Let_def)

declare optimize_pass.simps [simp del]

definition optimize :: "bool \<Rightarrow> ('e, 'w, unit) vmE" where
  "optimize EVM_OPTIMIZE = updE (\<lambda>s.
     let code = ext_code (m_ext s); nBytes = length code;
         (code, dests) = jumpdest_pass nBytes 0 (copyCode 33 code) (m_jumpDests s);
         (code, pool) = (if EVM_OPTIMIZE then optimize_pass nBytes dests 0 (code, m_pool s)
            else (code, m_pool s)) in
     s\<lparr>m_code := code, m_pool := pool, m_jumpDests := dests\<rparr>)"

definition initEntry :: "bool \<Rightarrow> ('e, 'w, unit) vmE" where
  "initEntry EVM_OPTIMIZE =
     thenE (updE (\<lambda>s. s\<lparr>m_bounce := Some InterpretCases\<rparr>)) (optimize EVM_OPTIMIZE)"


section \<open>The entry point\<close>

text \<open>A machine as its constructor leaves it.\<close>

definition newVM :: "'w ExtVM \<Rightarrow> 'w vm" where
  "newVM x = \<lparr>m_io_gas_p = 0, m_io_gas = 0, m_ext = x, m_onOp = False, m_trace = [], m_bounce = None,
     m_nSteps = 0, m_schedule = DefaultSchedule, m_output = [], m_mem = [], m_code = [],
     m_returnData = [], m_stack = replicate 1024 0, m_pool = [], m_OP = STOP, m_PC = 0,
     m_SP = stackEnd, m_SPP = stackEnd, m_runGas = 0, m_newMemSize = 0, m_copyMemSize = 0,
     m_jumpDests = []\<rparr>"

text \<open>\<open>(this->*m_bounce)()\<close>\<close>

definition run_bounce ::
    "bool \<Rightarrow> (bytes \<Rightarrow> h256) \<Rightarrow> ('e, 'w) ExtVMFace \<Rightarrow> bounce \<Rightarrow> 'w vm \<Rightarrow> (('e vm_exn + unit) \<times> 'w vm) option"
where
  "run_bounce opt K E b s = (case b of
       InitEntry \<Rightarrow> Some (initEntry opt s)
     | InterpretCases \<Rightarrow> interpretCases K E s
     | CaseCreate \<Rightarrow> Some (caseCreate E s)
     | CaseCall \<Rightarrow> Some (caseCall E s))"

partial_function (option) trampoline ::
    "bool \<Rightarrow> (bytes \<Rightarrow> h256) \<Rightarrow> ('e, 'w) ExtVMFace \<Rightarrow> bounce \<Rightarrow> 'w vm \<Rightarrow> (('e vm_exn + unit) \<times> 'w vm) option"
where
  "trampoline opt K E b s = (case run_bounce opt K E b s of
       None \<Rightarrow> None
     | Some (Inl e, t) \<Rightarrow> Some (Inl e, t)
     | Some (Inr _, t) \<Rightarrow> (case m_bounce t of
           None \<Rightarrow> Some (Inr (), t)
         | Some b' \<Rightarrow> trampoline opt K E b' t))"

text \<open>\<open>VM::exec\<close>: the output or the exception, the gas left and the object behind the interface.\<close>

definition start :: "('e, 'w) ExtVMFace \<Rightarrow> u256 \<Rightarrow> 'w ExtVM \<Rightarrow> bool \<Rightarrow> 'w vm" where
  "start E gas x onOp = (newVM x)\<lparr>m_io_gas_p := gas, m_io_gas := ucast gas,
     m_schedule := x_evmSchedule E x, m_onOp := onOp, m_PC := 0, m_bounce := Some InitEntry\<rparr>"

definition exec ::
    "bool \<Rightarrow> (bytes \<Rightarrow> h256) \<Rightarrow> ('e, 'w) ExtVMFace \<Rightarrow> u256 \<Rightarrow> 'w ExtVM \<Rightarrow> bool \<Rightarrow>
     (('e vm_exn + bytes) \<times> u256 \<times> 'w ExtVM) option" where
  "exec opt K E gas x onOp = (case trampoline opt K E InitEntry (start E gas x onOp) of
       None \<Rightarrow> None
     | Some (Inl e, t) \<Rightarrow> Some (Inl e, ucast (m_io_gas t), m_ext t)
     | Some (Inr _, t) \<Rightarrow> Some (Inr (m_output t), ucast (m_io_gas t), m_ext t))"

end
