(* ===== verification/VmSafe.thy ===== *)
theory VmSafe
  imports Vm
begin

text \<open>
  What one instruction of the interpreter does to the machine: no access outside the
  stack, the memory or the code, only the items it takes from the stack change, and a
  case that stays in the loop has paid for itself. The rules below execute a computation
  symbolically against a postcondition for its result and one for its exception.
\<close>

section \<open>Symbolic execution\<close>

definition wp :: "('e, 's, 'a) exc \<Rightarrow> ('a \<Rightarrow> 's \<Rightarrow> bool) \<Rightarrow> ('e \<Rightarrow> 's \<Rightarrow> bool) \<Rightarrow> 's \<Rightarrow> bool" where
  "wp m Q R s = (case m s of (Inl e, t) \<Rightarrow> R e t | (Inr x, t) \<Rightarrow> Q x t)"

named_theorems wp_rule

lemma wp_bind [wp_rule]: "wp m (\<lambda>x. wp (f x) Q R) R s \<Longrightarrow> wp (bindE m f) Q R s"
  by (auto simp: wp_def bindE_def split: prod.splits sum.splits)

lemma wp_then [wp_rule]: "wp m (\<lambda>x. wp n Q R) R s \<Longrightarrow> wp (thenE m n) Q R s"
  by (auto simp: thenE_def intro: wp_bind)

lemma wp_ret [wp_rule]: "Q x s \<Longrightarrow> wp (ret x) Q R s"
  by (simp add: wp_def)

lemma wp_throw [wp_rule]: "R e s \<Longrightarrow> wp (throw e) Q R s"
  by (simp add: wp_def)

lemma wp_get [wp_rule]: "Q (f s) s \<Longrightarrow> wp (getE f) Q R s"
  by (simp add: wp_def)

lemma wp_upd [wp_rule]: "Q () (f s) \<Longrightarrow> wp (updE f) Q R s"
  by (simp add: wp_def)

lemma wp_throwIf [wp_rule]: "(c \<Longrightarrow> R e s) \<Longrightarrow> (\<not> c \<Longrightarrow> Q () s) \<Longrightarrow> wp (throwIf c e) Q R s"
  by (simp add: wp_def throwIf_def)

lemma wp_if [wp_rule]: "(c \<Longrightarrow> wp m Q R s) \<Longrightarrow> (\<not> c \<Longrightarrow> wp n Q R s) \<Longrightarrow> wp (if c then m else n) Q R s"
  by simp

lemma wp_case_prod [wp_rule]:
  "(\<And>a b. p = (a, b) \<Longrightarrow> wp (f a b) Q R s) \<Longrightarrow> wp (case_prod f p) Q R s"
  by (cases p) simp

lemma wp_weaken:
  assumes "wp m Q R s" "\<And>x t. Q x t \<Longrightarrow> Q' x t" "\<And>e t. R e t \<Longrightarrow> R' e t"
  shows "wp m Q' R' s"
  using assms by (auto simp: wp_def split: prod.splits sum.splits)

lemma wpD_Inr: "wp m Q R s \<Longrightarrow> m s = (Inr x, t) \<Longrightarrow> Q x t"
  by (simp add: wp_def)

lemma wpD_Inl: "wp m Q R s \<Longrightarrow> m s = (Inl e, t) \<Longrightarrow> R e t"
  by (simp add: wp_def)


section \<open>Rules for the primitives of the machine\<close>

lemma wp_SP [wp_rule]:
  "0 \<le> m_SP s + int i \<Longrightarrow> m_SP s + int i < int (length (m_stack s)) \<Longrightarrow>
   Q (m_stack s ! nat (m_SP s + int i)) s \<Longrightarrow> wp (SP i) Q R s"
  by (simp add: wp_def SP_def)

lemma wp_setSP [wp_rule]:
  "0 \<le> m_SP s + int i \<Longrightarrow> m_SP s + int i < int (length (m_stack s)) \<Longrightarrow>
   Q () (s\<lparr>m_stack := (m_stack s)[nat (m_SP s + int i) := v]\<rparr>) \<Longrightarrow> wp (setSP i v) Q R s"
  by (simp add: wp_def setSP_def put_stack_def)

lemma wp_setSPP [wp_rule]:
  "0 \<le> m_SPP s \<Longrightarrow> m_SPP s < int (length (m_stack s)) \<Longrightarrow>
   Q () (s\<lparr>m_stack := (m_stack s)[nat (m_SPP s) := v]\<rparr>) \<Longrightarrow> wp (setSPP v) Q R s"
  by (simp add: wp_def setSPP_def put_stack_def)

lemma wp_onOperation [wp_rule]:
  assumes "\<And>n tr. Q () (s\<lparr>m_nSteps := n, m_trace := tr\<rparr>)"
  shows "wp onOperation Q R s"
proof (cases "m_onOp s")
  case False
  have "s\<lparr>m_nSteps := m_nSteps s, m_trace := m_trace s\<rparr> = s" by simp
  with assms [of "m_trace s" "m_nSteps s"] False show ?thesis
    by (simp add: wp_def onOperation_def)
qed (simp add: wp_def onOperation_def assms)

lemma wp_updateIOGas [wp_rule]:
  "(m_io_gas s < m_runGas s \<Longrightarrow> R OutOfGas s) \<Longrightarrow>
   (m_runGas s \<le> m_io_gas s \<Longrightarrow> Q () (s\<lparr>m_io_gas := m_io_gas s - m_runGas s\<rparr>)) \<Longrightarrow>
   wp updateIOGas Q R s"
  by (simp add: wp_def updateIOGas_def)

lemma wp_viaExt [wp_rule]:
  assumes "\<And>v x. m (m_ext s) = (Inr v, x) \<Longrightarrow> Q v (s\<lparr>m_ext := x\<rparr>)"
    "\<And>e x. m (m_ext s) = (Inl e, x) \<Longrightarrow> R (ExtException e) (s\<lparr>m_ext := x\<rparr>)"
  shows "wp (viaExt m) Q R s"
  using assms by (auto simp: wp_def viaExt_def split: prod.splits sum.splits)

lemma unat_of_nat63: "n < 2 ^ 63 \<Longrightarrow> unat (of_nat n :: u64) = n"
  by (simp add: unat_of_nat)

lemma wp_toInt63 [wp_rule]:
  assumes "v \<ge> 2 ^ 63 \<Longrightarrow> R OutOfGas s" "\<And>g. v < 2 ^ 63 \<Longrightarrow> unat g = v \<Longrightarrow> Q g s"
  shows "wp (toInt63 v) Q R s"
  using assms(1) assms(2) [of "of_nat v"] unat_of_nat63 [of v] by (simp add: wp_def toInt63_def)

lemma wp_setRunGas [wp_rule]:
  "(v \<ge> 2 ^ 63 \<Longrightarrow> R OutOfGas s) \<Longrightarrow>
   (\<And>g. v < 2 ^ 63 \<Longrightarrow> unat g = v \<Longrightarrow> Q () (s\<lparr>m_runGas := g\<rparr>)) \<Longrightarrow> wp (setRunGas v) Q R s"
  unfolding setRunGas_def by (intro wp_rule) simp_all

lemma wp_addRunGas [wp_rule]:
  "(v \<ge> 2 ^ 63 \<Longrightarrow> R OutOfGas s) \<Longrightarrow>
   (\<And>g. v < 2 ^ 63 \<Longrightarrow> unat g = v \<Longrightarrow> Q () (s\<lparr>m_runGas := m_runGas s + g\<rparr>)) \<Longrightarrow>
   wp (addRunGas v) Q R s"
  unfolding addRunGas_def by (intro wp_rule) simp_all

lemma wp_sched [wp_rule]: "Q (unat (f (m_schedule s))) s \<Longrightarrow> wp (sched f) Q R s"
  by (simp add: wp_def sched_def)

lemma wp_memNeed [wp_rule]:
  "R OutOfGas s \<Longrightarrow>
   (\<And>g. unat g < 2 ^ 63 \<Longrightarrow> (sz \<noteq> 0 \<Longrightarrow> unat off + unat sz = unat g) \<Longrightarrow> Q g s) \<Longrightarrow>
   wp (memNeed off sz) Q R s"
  unfolding memNeed_def by (intro wp_toInt63) auto

lemma wp_rdMem [wp_rule]:
  "(n \<noteq> 0 \<Longrightarrow> off + n \<le> length (m_mem s)) \<Longrightarrow>
   Q (if n = 0 then [] else take n (drop off (m_mem s))) s \<Longrightarrow> wp (rdMem off n) Q R s"
  by (cases "n = 0") (simp_all add: wp_def rdMem_def)

lemma length_patch [simp]: "off + length bs \<le> length m \<Longrightarrow> length (patch off bs m) = length m"
  by (simp add: patch_def)

lemma wp_wrMem [wp_rule]:
  assumes "bs \<noteq> [] \<Longrightarrow> off + length bs \<le> length (m_mem s)"
    "\<And>m. length m = length (m_mem s) \<Longrightarrow> Q () (s\<lparr>m_mem := m\<rparr>)"
  shows "wp (wrMem off bs) Q R s"
proof (cases "bs = []")
  case True
  with assms(2) [of "m_mem s"] show ?thesis by (simp add: wp_def wrMem_def)
qed (use assms in \<open>simp add: wp_def wrMem_def\<close>)

lemma wp_codeByte [wp_rule]:
  "unat pc < length (m_code s) \<Longrightarrow> Q (m_code s ! unat pc) s \<Longrightarrow> wp (codeByte pc) Q R s"
  by (simp add: wp_def codeByte_def)


section \<open>Metering\<close>

text \<open>
  What the prices must satisfy: an instruction that stays in the loop costs something, the
  sums of the prices stay within their width, and the divisor of the price of memory is not
  zero (the C++ division would throw, the one of the model does not).
\<close>

definition sched_ok :: "EVMSchedule \<Rightarrow> bool" where
  "sched_ok c \<longleftrightarrow>
     length (tierStepGas c) = 8 \<and> (\<forall>i \<in> {1, 2, 3, 4, 5}. tierStepGas c ! i \<noteq> 0) \<and>
     balanceGas c \<noteq> 0 \<and> sloadGas c \<noteq> 0 \<and> extcodesizeGas c \<noteq> 0 \<and> extcodecopyGas c \<noteq> 0 \<and>
     blockhashGas c \<noteq> 0 \<and> sha3Gas c \<noteq> 0 \<and> sstoreSetGas c \<noteq> 0 \<and> sstoreResetGas c \<noteq> 0 \<and>
     createGas c \<noteq> 0 \<and> callGas c \<noteq> 0 \<and> expGas c \<noteq> 0 \<and> logGas c \<noteq> 0 \<and>
     unat (expGas c) + 32 * unat (expByteGas c) < 2 ^ 32 \<and>
     unat (logGas c) + 4 * unat (logTopicGas c) < 2 ^ 32 \<and>
     unat (copyGas c) \<le> 8 \<and> quadCoeffDiv c \<noteq> 0 \<and> callStipend c \<le> callValueTransferGas c"

lemma schedules_ok:
  "sched_ok DefaultSchedule" "sched_ok FrontierSchedule" "sched_ok HomesteadSchedule"
  "sched_ok EIP150Schedule" "sched_ok EIP158Schedule" "sched_ok ByzantiumSchedule"
  "sched_ok ConstantinopleSchedule"
  by (simp_all add: sched_ok_def schedule_defs)

text \<open>The price of the copied words, and the bound that keeps the sum in \<open>m_runGas\<close> exact.\<close>

definition copy_price :: "'w vm \<Rightarrow> nat" where
  "copy_price s = unat (copyGas (m_schedule s)) * ((unat (m_copyMemSize s) + 31) div 32)"

definition metered :: "'w vm \<Rightarrow> bool" where
  "metered s \<longleftrightarrow> unat (m_copyMemSize s) < 2 ^ 63 \<and> unat (copyGas (m_schedule s)) \<le> 8 \<and>
     unat (m_runGas s) + copy_price s < 2 ^ 63 + 1"

lemma unat_ucast_le: "LENGTH('a::len) \<le> LENGTH('b::len) \<Longrightarrow> unat (ucast (w :: 'a word) :: 'b word) = unat w"
  by (simp add: unsigned_ucast_eq take_bit_nat_eq_self_iff)
    (meson less_le_trans one_le_numeral power_increasing unsigned_less)

lemma copy_price_word:
  assumes "unat (m_copyMemSize s) < 2 ^ 63" "unat (copyGas (m_schedule s)) \<le> 8"
  shows "unat (ucast (copyGas (m_schedule s)) * ((m_copyMemSize s + 31) div 32) :: u64) = copy_price s"
proof -
  have a: "unat (m_copyMemSize s + 31 :: u64) = unat (m_copyMemSize s) + 31"
    using assms(1) by (subst unat_add_lem [THEN iffD1]) auto
  then have d: "unat ((m_copyMemSize s + 31) div 32 :: u64) = (unat (m_copyMemSize s) + 31) div 32"
    by (simp add: unat_div)
  have "unat (copyGas (m_schedule s)) * ((unat (m_copyMemSize s) + 31) div 32) \<le> 8 * 2 ^ 59"
    using assms by (intro mult_mono) auto
  then have "unat (ucast (copyGas (m_schedule s)) :: u64) * unat ((m_copyMemSize s + 31) div 32) < 2 ^ 64"
    by (simp add: d unat_ucast_le)
  then show ?thesis
    by (subst unat_mult_lem [THEN iffD1]) (simp_all add: d copy_price_def unat_ucast_le)
qed

lemma round_up:
  assumes "unat (n :: u64) < 2 ^ 63 + 32"
  shows "unat n \<le> unat ((n + 31) div 32 * 32)"
proof -
  have a: "unat (n + 31) = unat n + 31"
    using assms by (subst unat_add_lem [THEN iffD1]) auto
  have "unat ((n + 31) div 32) * unat (32 :: u64) < 2 ^ 64"
    using assms by (simp add: unat_div a)
  then have "unat ((n + 31) div 32 * 32) = (unat n + 31) div 32 * 32"
    by (subst unat_mult_lem [THEN iffD1]) (simp_all add: unat_div a)
  then show ?thesis by simp
qed

lemma wp_gasForMem:
  "(\<And>g. unat g < 2 ^ 63 \<Longrightarrow> Q g s) \<Longrightarrow> R OutOfGas s \<Longrightarrow> wp (gasForMem n) Q R s"
  unfolding gasForMem_def Let_def by (intro wp_rule) simp_all

lemma runGas_sum:
  assumes "metered s" "unat (d :: u64) < 2 ^ 63"
  shows "m_runGas s \<le> m_runGas s + d + ucast (copyGas (m_schedule s)) * ((m_copyMemSize s + 31) div 32)"
proof -
  let ?c = "ucast (copyGas (m_schedule s)) * ((m_copyMemSize s + 31) div 32) :: u64"
  have c: "unat ?c = copy_price s"
    using assms(1) by (intro copy_price_word) (simp_all add: metered_def)
  have b: "unat (m_runGas s) + copy_price s < 2 ^ 63 + 1" using assms(1) by (simp add: metered_def)
  have "unat (m_runGas s + d) = unat (m_runGas s) + unat d"
    using b assms(2) by (subst unat_add_lem [THEN iffD1]) auto
  moreover from this have "unat (m_runGas s + d + ?c) = unat (m_runGas s) + unat d + copy_price s"
    using b assms(2) c by (subst unat_add_lem [THEN iffD1]) auto
  ultimately show ?thesis by (simp add: word_le_nat_alt)
qed

lemma wp_updateGas:
  assumes "metered s" "R OutOfGas s" "\<And>g. R OutOfGas (s\<lparr>m_runGas := g\<rparr>)"
    and "\<And>g. (0 < m_runGas s \<Longrightarrow> 0 < g) \<Longrightarrow> m_runGas s \<le> g \<Longrightarrow> Q () (s\<lparr>m_runGas := g\<rparr>)"
  shows "wp updateGas Q R s"
proof -
  have fin: "wp (thenE (updE (\<lambda>s. s\<lparr>m_runGas := m_runGas s +
        ucast (copyGas (m_schedule s)) * ((m_copyMemSize s + 31) div 32)\<rparr>))
       (bindE (getE (\<lambda>s. m_io_gas s < m_runGas s)) (\<lambda>b. throwIf b OutOfGas))) Q R
     (s\<lparr>m_runGas := m_runGas s + d\<rparr>)" if "unat d < 2 ^ 63" for d
    using assms(3,4) runGas_sum [OF assms(1) that]
    by (intro wp_rule) (simp_all add: less_le_trans)
  have "s\<lparr>m_runGas := m_runGas s\<rparr> = s" by simp
  with fin [of 0] have none: "wp (thenE (updE (\<lambda>s. s\<lparr>m_runGas := m_runGas s +
        ucast (copyGas (m_schedule s)) * ((m_copyMemSize s + 31) div 32)\<rparr>))
       (bindE (getE (\<lambda>s. m_io_gas s < m_runGas s)) (\<lambda>b. throwIf b OutOfGas))) Q R s" by simp
  show ?thesis
    unfolding updateGas_def
    by ((rule fin none assms(2) wp_then wp_bind wp_get wp_case_prod wp_if wp_gasForMem wp_addRunGas
          wp_ret) | (simp; fail))+
qed

lemma wp_updateMem:
  assumes "metered s" "unat n < 2 ^ 63 + 32"
    "\<And>k g. R OutOfGas (s\<lparr>m_newMemSize := k, m_runGas := g\<rparr>)"
    "\<And>k g m. (0 < m_runGas s \<Longrightarrow> 0 < g) \<Longrightarrow> m_runGas s \<le> g \<Longrightarrow> unat n \<le> length m \<Longrightarrow>
       Q () (s\<lparr>m_newMemSize := k, m_runGas := g, m_mem := m\<rparr>)"
  shows "wp (updateMem n) Q R s"
proof -
  let ?k = "(n + 31) div 32 * 32"
  have n: "unat n \<le> unat ?k" by (rule round_up [OF assms(2)])
  have m: "metered (s\<lparr>m_newMemSize := ?k\<rparr>)" using assms(1) by (simp add: metered_def copy_price_def)
  have stay: "m_mem_update (\<lambda>_. m_mem s) (s\<lparr>m_newMemSize := ?k, m_runGas := g\<rparr>) =
      s\<lparr>m_newMemSize := ?k, m_runGas := g\<rparr>" for g by simp
  have r: "R OutOfGas (s\<lparr>m_newMemSize := ?k\<rparr>)" using assms(3) [of "m_runGas s" ?k] by simp
  have "Q () (s\<lparr>m_newMemSize := ?k, m_runGas := g\<rparr>)"
    if "0 < m_runGas s \<Longrightarrow> 0 < g" "m_runGas s \<le> g" "unat ?k \<le> length (m_mem s)" for g
    using assms(4) [of g "m_mem s" ?k] that n stay [of g] by simp
  then show ?thesis
    unfolding updateMem_def
    by (intro wp_then wp_upd wp_updateGas m) (use n in \<open>auto simp: assms(3) r not_less intro: assms(4)\<close>)
qed



section \<open>Jump destinations\<close>

lemma lower_bound_split:
  assumes "sorted v" "first + len \<le> length v" "\<forall>j < first. v ! j < x"
    "\<forall>j. first + len \<le> j \<and> j < length v \<longrightarrow> x \<le> v ! j"
  shows "lower_bound v x first len \<le> length v \<and> (\<forall>j < lower_bound v x first len. v ! j < x) \<and>
    (\<forall>j. lower_bound v x first len \<le> j \<and> j < length v \<longrightarrow> x \<le> v ! j)"
  using assms
proof (induction v x first len rule: lower_bound.induct)
  case (1 v x first len)
  let ?h = "len div 2"
  show ?case
  proof (cases "len = 0")
    case True
    with "1.prems" show ?thesis by (simp add: lower_bound.simps [of v x first 0])
  next
    case False
    then have h: "first + ?h < length v" using "1.prems"(2) by linarith
    show ?thesis
    proof (cases "v ! (first + ?h) < x")
      case True
      have "v ! j < x" if "j < first + ?h + 1" for j
        using True h sorted_nth_mono [OF "1.prems"(1), of j "first + ?h"] that by simp
      then have "\<forall>j < first + ?h + 1. v ! j < x" by simp
      with "1.IH"(1) [OF False refl True "1.prems"(1)] "1.prems"(2,4) False True show ?thesis
        by (subst (1 2 3) lower_bound.simps) (auto simp: Let_def)
    next
      case less: False
      have "x \<le> v ! j" if "first + ?h \<le> j" "j < length v" for j
        using less h sorted_nth_mono [OF "1.prems"(1) that] by simp
      then have "\<forall>j. first + ?h \<le> j \<and> j < length v \<longrightarrow> x \<le> v ! j" by simp
      with "1.IH"(2) [OF False refl less "1.prems"(1)] "1.prems"(3) h False less show ?thesis
        by (subst (1 2 3) lower_bound.simps) (auto simp: Let_def)
    qed
  qed
qed

lemma binary_search_mem:
  assumes "sorted v"
  shows "binary_search v x \<longleftrightarrow> x \<in> set v"
proof -
  obtain i where i: "i = lower_bound v x 0 (length v)" by simp
  have l: "i \<le> length v \<and> (\<forall>j < i. v ! j < x) \<and> (\<forall>j. i \<le> j \<and> j < length v \<longrightarrow> x \<le> v ! j)"
    unfolding i using assms by (intro lower_bound_split) auto
  have "i < length v \<and> \<not> x < v ! i" if j: "j < length v" "v ! j = x" for j
  proof -
    have "i \<le> j" using l j by (meson less_irrefl not_less)
    then show ?thesis using j sorted_nth_mono [OF assms, of i j] by auto
  qed
  moreover have "v ! i = x" if "i < length v" "\<not> x < v ! i"
    using l that by (auto intro: order.antisym)
  ultimately show ?thesis
    unfolding binary_search_def Let_def in_set_conv_nth i [symmetric] by blast
qed

lemma verifyJumpDest_SomeD: "sorted v \<Longrightarrow> verifyJumpDest v d = Some pc \<Longrightarrow> pc \<in> set v"
  by (auto simp: verifyJumpDest_def binary_search_mem split: if_splits)



section \<open>One instruction\<close>

abbreviation nargs :: "Instruction \<Rightarrow> nat" where
  "nargs op \<equiv> args (instructionInfo op)"

abbreviation nret :: "Instruction \<Rightarrow> nat" where
  "nret op \<equiv> iret (instructionInfo op)"

text \<open>What no instruction changes.\<close>

definition frame :: "'w vm \<Rightarrow> 'w vm \<Rightarrow> bool" where
  "frame s t \<longleftrightarrow> m_code t = m_code s \<and> m_pool t = m_pool s \<and> m_jumpDests t = m_jumpDests s \<and>
     m_schedule t = m_schedule s \<and> m_SPP t = m_SPP s \<and> length (m_stack t) = length (m_stack s)"

text \<open>The machine after \<open>fetchInstruction\<close>.\<close>

definition ready :: "Instruction \<Rightarrow> 'w vm \<Rightarrow> bool" where
  "ready op s \<longleftrightarrow> length (m_stack s) = 1024 \<and> 0 \<le> m_SP s \<and> 0 \<le> m_SPP s \<and>
     m_SP s + int (nargs op) \<le> 1024 \<and> m_SPP s = m_SP s + int (nargs op) - int (nret op) \<and>
     m_OP s = op \<and> m_copyMemSize s = 0 \<and>
     m_runGas s = ucast (tier_gas (m_schedule s) (gasPriceTier (instructionInfo op))) \<and>
     sched_ok (m_schedule s) \<and> sorted (m_jumpDests s)"

text \<open>Where a case that does not end with \<open>NEXT\<close> may continue.\<close>

fun goes :: "Instruction \<Rightarrow> 'w vm \<Rightarrow> u64 set" where
  "goes (PUSH n) s = {m_PC s + of_nat n + 1}"
| "goes JUMP s = set (m_jumpDests s)"
| "goes JUMPI s = insert (m_PC s + 1) (set (m_jumpDests s))"
| "goes _ s = {}"

text \<open>Leaving the loop for a call: nothing has changed but the trace.\<close>

definition leaves :: "Instruction \<Rightarrow> 'w vm \<Rightarrow> 'w vm \<Rightarrow> bool" where
  "leaves op s t \<longleftrightarrow> m_bounce t = None \<or>
     (\<exists>n tr b. t = s\<lparr>m_nSteps := n, m_trace := tr, m_bounce := Some b\<rparr> \<and>
        (b = CaseCreate \<and> op \<in> {CREATE, CREATE2} \<or>
         b = CaseCall \<and> op \<in> {CALL, CALLCODE, DELEGATECALL, STATICCALL}))"

definition did :: "Instruction \<Rightarrow> 'w vm \<Rightarrow> flow \<Rightarrow> 'w vm \<Rightarrow> bool" where
  "did op s f t \<longleftrightarrow> frame s t \<and>
     (\<forall>j. m_SP s + int (nargs op) \<le> int j \<longrightarrow> m_stack t ! j = m_stack s ! j) \<and>
     (case f of
        BREAK \<Rightarrow> m_io_gas t \<le> m_io_gas s \<and> leaves op s t
      | NEXT \<Rightarrow> m_io_gas t < m_io_gas s \<and> m_PC t = m_PC s
      | CONTINUE \<Rightarrow> m_io_gas t < m_io_gas s \<and> m_PC t \<in> goes op s)"

definition failed :: "'w vm \<Rightarrow> 'e vm_exn \<Rightarrow> 'w vm \<Rightarrow> bool" where
  "failed s e t \<longleftrightarrow> e \<noteq> OutOfRange \<and> m_io_gas t \<le> m_io_gas s"

lemma paid: "0 < g \<Longrightarrow> (g :: u64) \<le> x \<Longrightarrow> x - g < x"
  by (simp add: word_less_nat_alt word_le_nat_alt unat_sub)

lemma paid_le: "(g :: u64) \<le> x \<Longrightarrow> x - g \<le> x"
  by (simp add: word_le_nat_alt unat_sub)

lemmas step_defs = ready_def did_def failed_def frame_def leaves_def

lemma tier_paid:
  assumes "ready op s" "gasPriceTier (instructionInfo op) \<in> {Base, VeryLow, Low, Mid, High}"
  shows "0 < m_runGas s"
proof -
  have "tier_gas (m_schedule s) (gasPriceTier (instructionInfo op)) \<noteq> 0"
    using assms by (auto simp: ready_def tier_gas_def sched_ok_def)
  then have "unat (m_runGas s) \<noteq> 0" using assms(1) by (simp add: ready_def unat_ucast_le unat_gt_0)
  then show ?thesis by (simp add: word_less_nat_alt)
qed

lemma wp_charge [wp_rule]:
  "(\<And>n tr. R OutOfGas (s\<lparr>m_nSteps := n, m_trace := tr\<rparr>)) \<Longrightarrow>
   (\<And>n tr. m_runGas s \<le> m_io_gas s \<Longrightarrow>
      Q () (s\<lparr>m_nSteps := n, m_trace := tr, m_io_gas := m_io_gas s - m_runGas s\<rparr>)) \<Longrightarrow>
   wp charge Q R s"
  unfolding charge_def by (intro wp_rule) auto

lemma push0_ok:
  assumes "ready op s" "nargs op = 0" "nret op = 1" "0 < m_runGas s"
  shows "wp (push0 f) (did op s) (failed s) s"
  unfolding push0_def using assms by (intro wp_rule) (auto simp: step_defs paid paid_le)

lemma unop_ok:
  assumes "ready op s" "nargs op = 1" "nret op = 1" "0 < m_runGas s"
  shows "wp (unop f) (did op s) (failed s) s"
  unfolding unop_def using assms by (intro wp_rule) (auto simp: step_defs paid paid_le)

lemma binop_ok:
  assumes "ready op s" "nargs op = 2" "nret op = 1" "0 < m_runGas s"
  shows "wp (binop f) (did op s) (failed s) s"
  unfolding binop_def using assms by (intro wp_rule) (auto simp: step_defs paid paid_le)

lemma ternop_ok:
  assumes "ready op s" "nargs op = 3" "nret op = 1" "0 < m_runGas s"
  shows "wp (ternop f) (did op s) (failed s) s"
  unfolding ternop_def using assms by (intro wp_rule) (auto simp: step_defs paid paid_le)

lemma arith_ok:
  assumes "ready (Arith x) s"
  shows "wp (arithCase x) (did (Arith x) s) (failed s) s"
proof -
  have t: "gasPriceTier (instructionInfo (Arith x)) \<in> {Base, VeryLow, Low, Mid, High}"
    by (cases x) (simp_all add: info_def)
  note p = tier_paid [OF assms t]
  have sdiv: "wp (arithCase SDIV) (did (Arith x) s) (failed s) s" if "x = SDIV"
    unfolding arithCase.simps
    by (rule wp_bind, rule wp_weaken [OF binop_ok [OF assms]])
      (use p that in \<open>auto intro!: wp_rule simp: info_def step_defs split: flow.splits\<close>)
  show ?thesis
    using sdiv p assms by (cases x) (simp_all add: binop_ok unop_ok info_def)
qed

lemma logic_ok:
  assumes "ready (Logic x) s"
  shows "wp (logicCase x) (did (Logic x) s) (failed s) s"
proof -
  have t: "gasPriceTier (instructionInfo (Logic x)) \<in> {Base, VeryLow, Low, Mid, High}"
    by (cases x) (simp_all add: info_def)
  note p = tier_paid [OF assms t]
  have sign: "wp (logicCase SIGNEXTEND) (did (Logic x) s) (failed s) s" if "x = SIGNEXTEND"
    using assms p that unfolding logicCase.simps
    by (intro wp_rule) (auto simp: step_defs info_def paid paid_le)
  show ?thesis
    using sign p assms by (cases x) (simp_all add: binop_ok unop_ok ternop_ok info_def)
qed

lemma wp_priced [wp_rule]:
  "(\<And>g n tr. R OutOfGas (s\<lparr>m_runGas := g, m_nSteps := n, m_trace := tr\<rparr>)) \<Longrightarrow>
   (\<And>g n tr. unat g = unat (f (m_schedule s)) \<Longrightarrow> g \<le> m_io_gas s \<Longrightarrow>
      Q () (s\<lparr>m_runGas := g, m_nSteps := n, m_trace := tr, m_io_gas := m_io_gas s - g\<rparr>)) \<Longrightarrow>
   wp (priced f) Q R s"
  unfolding priced_def
  by (intro wp_rule) (use unsigned_less [of "f (m_schedule s)", where ?'a = nat] in auto)

lemma price_paid: "unat (g :: u64) = unat (p :: u32) \<Longrightarrow> p \<noteq> 0 \<Longrightarrow> 0 < g"
  by (metis unat_eq_zero word_gt_0)

lemma query_ok:
  assumes "ready op s" "nargs op = 1" "nret op = 1" "f (m_schedule s) \<noteq> 0"
  shows "wp (thenE (priced f) (bindE (SP 0) (\<lambda>a. bindE (viaExt (m a)) (\<lambda>v. thenE (setSPP (h v)) (ret NEXT)))))
     (did op s) (failed s) s"
  using assms by (intro wp_rule) (auto simp: step_defs paid paid_le price_paid)

lemma ready_metered: "ready op s \<Longrightarrow> metered s"
  using unsigned_less [of "tier_gas (m_schedule s) (gasPriceTier (instructionInfo op))", where ?'a = nat]
  by (auto simp: ready_def metered_def copy_price_def unat_ucast_le sched_ok_def)

lemma env_ok:
  assumes "ready (Env x) s"
  shows "wp (envCase E x) (did (Env x) s) (failed s) s"
proof -
  have free: "0 < m_runGas s" if "x \<notin> {BALANCE, EXTCODESIZE}"
  proof (rule tier_paid [OF assms])
    show "gasPriceTier (instructionInfo (Env x)) \<in> {Base, VeryLow, Low, Mid, High}"
      using that by (cases x) (simp_all add: info_def)
  qed
  have ok: "sched_ok (m_schedule s)" using assms by (simp add: ready_def)
  have load: "wp (envCase E CALLDATALOAD) (did (Env x) s) (failed s) s" if "x = CALLDATALOAD"
    using assms free that unfolding envCase.simps
    by (intro wp_rule) (auto simp: step_defs info_def paid paid_le)
  have size: "wp (envCase E RETURNDATASIZE) (did (Env x) s) (failed s) s" if "x = RETURNDATASIZE"
    unfolding envCase.simps
    by (rule wp_bind wp_get wp_then wp_throwIf)+
      (use push0_ok [OF assms] free that in \<open>simp_all add: info_def failed_def\<close>)
  show ?thesis
    using load size free ok assms
    by (cases x) (simp_all add: push0_ok query_ok [where h = "\<lambda>v. v"] query_ok sched_ok_def info_def)
qed

lemma blk_ok:
  assumes "ready (Blk x) s"
  shows "wp (blkCase E x) (did (Blk x) s) (failed s) s"
proof -
  have free: "0 < m_runGas s" if "x \<noteq> BLOCKHASH"
  proof (rule tier_paid [OF assms])
    show "gasPriceTier (instructionInfo (Blk x)) \<in> {Base, VeryLow, Low, Mid, High}"
      using that by (cases x) (simp_all add: info_def)
  qed
  have hash: "wp (blkCase E BLOCKHASH) (did (Blk x) s) (failed s) s" if "x = BLOCKHASH"
    using assms that unfolding blkCase.simps
    by (intro wp_rule) (auto simp: step_defs info_def paid paid_le sched_ok_def price_paid)
  show ?thesis
    using hash free assms by (cases x) (simp_all add: push0_ok info_def)
qed

lemma mach_ok:
  assumes "ready (Mach x) s"
  shows "wp (machCase E x) (did (Mach x) s) (failed s) s"
proof -
  have free: "0 < m_runGas s" if "x \<notin> {SLOAD, SSTORE}"
  proof (rule tier_paid [OF assms])
    show "gasPriceTier (instructionInfo (Mach x)) \<in> {Base, VeryLow, Low, Mid, High}"
      using that by (cases x) (simp_all add: info_def)
  qed
  have ok: "sched_ok (m_schedule s)" using assms by (simp add: ready_def)
  have store: "wp (machCase E SSTORE) (did (Mach x) s) (failed s) s" if "x = SSTORE"
    using assms ok that unfolding machCase.simps updateSSGas_def
    by (intro wp_rule) (auto simp: step_defs info_def paid paid_le sched_ok_def price_paid)
  show ?thesis
    using store free ok assms
    by (cases x) (simp_all add: push0_ok query_ok [where h = "\<lambda>v. v"] sched_ok_def info_def)
qed


section \<open>Instructions on memory\<close>

text \<open>The region of memory from an offset is covered, if it is not empty.\<close>

definition covers :: "u256 \<Rightarrow> u256 \<Rightarrow> nat \<Rightarrow> bool" where
  "covers off sz n \<longleftrightarrow> (sz \<noteq> 0 \<longrightarrow> unat off + unat sz \<le> n \<and> unat off + unat sz < 2 ^ 63)"

lemma unat_down: "unat (w :: u256) < 2 ^ 64 \<Longrightarrow> unat (ucast w :: u64) = unat w"
  by (simp add: unsigned_ucast_eq take_bit_nat_eq_self_iff)

lemma covers_region:
  "covers off sz n \<Longrightarrow> unat (ucast sz :: u64) \<noteq> 0 \<Longrightarrow>
   unat (ucast off :: u64) + unat (ucast sz :: u64) \<le> n"
  by (cases "sz = 0") (auto simp: covers_def unat_down)

lemma wp_need [wp_rule]:
  assumes "metered s" "R OutOfGas s" "\<And>k g. R OutOfGas (s\<lparr>m_newMemSize := k, m_runGas := g\<rparr>)"
    and "\<And>k g m. (0 < m_runGas s \<Longrightarrow> 0 < g) \<Longrightarrow> m_runGas s \<le> g \<Longrightarrow> covers off sz (length m) \<Longrightarrow>
      Q () (s\<lparr>m_newMemSize := k, m_runGas := g, m_mem := m\<rparr>)"
  shows "wp (bindE (memNeed off sz) updateMem) Q R s"
  by (rule wp_bind, rule wp_memNeed, rule assms(2), rule wp_updateMem)
    (auto simp: assms(1,3) covers_def intro!: assms(4))

lemma copied_le: "copied d i sz \<le> sz"
  by (auto simp: copied_def)

lemma length_copied: "length (take (copied d i sz) (drop i d)) = copied d i sz"
  by (auto simp: copied_def)

lemma wp_copyDataToMemory:
  assumes "0 \<le> m_SP s" "m_SP s + int i + 2 < int (length (m_stack s))"
    and "covers (m_stack s ! nat (m_SP s + int i)) (m_stack s ! nat (m_SP s + int (i + 2))) (length (m_mem s))"
    and "\<And>m. Q () (s\<lparr>m_mem := m\<rparr>)"
  shows "wp (copyDataToMemory d i) Q R s"
proof -
  let ?a = "m_stack s ! nat (m_SP s + int i)" and ?c = "m_stack s ! nat (m_SP s + int (i + 2))"
  let ?x = "unat (m_stack s ! nat (m_SP s + int (i + 1)))"
  let ?n = "copied d ?x (unat (ucast ?c :: u64))"
  have n: "?n \<le> unat (ucast ?c :: u64)" by (rule copied_le)
  have l: "unat (ucast ?c :: u64) \<noteq> 0 \<Longrightarrow> unat (ucast ?a :: u64) + unat (ucast ?c :: u64) \<le> length (m_mem s)"
    by (rule covers_region [OF assms(3)])
  show ?thesis
    unfolding copyDataToMemory_def Let_def
  proof (intro wp_rule)
    show "unat (ucast ?a :: u64) + length (take ?n (drop ?x d)) \<le> length (m_mem s)"
      if "take ?n (drop ?x d) \<noteq> []"
    proof -
      have "?n \<noteq> 0" using that by auto
      then show ?thesis using n l unfolding length_copied by linarith
    qed
  qed (use assms(1,2,4) n l in \<open>auto\<close>)
qed

text \<open>The sum of prices stays exact when a copied size is added to a tier price.\<close>

lemma metered_copy:
  assumes "unat (m_runGas s) < 2 ^ 32" "sched_ok (m_schedule s)" "unat (n :: u64) < 2 ^ 63"
  shows "metered (s\<lparr>m_copyMemSize := n\<rparr>)"
proof -
  have "unat (copyGas (m_schedule s)) * ((unat n + 31) div 32) \<le> 8 * 2 ^ 59"
    using assms(2,3) by (intro mult_mono) (auto simp: sched_ok_def)
  with assms show ?thesis by (simp add: metered_def copy_price_def sched_ok_def)
qed

lemma wp_copyCase:
  assumes "unat (m_runGas s) < 2 ^ 32" "0 < m_runGas s" "sched_ok (m_schedule s)"
    and "0 \<le> m_SP s" "m_SP s + int i + 2 < int (length (m_stack s))"
    and "\<And>c k g m. R OutOfGas (s\<lparr>m_copyMemSize := c, m_newMemSize := k, m_runGas := g, m_mem := m\<rparr>)"
    and "\<And>c k g m io. io < m_io_gas s \<Longrightarrow>
      wp d (\<lambda>bs t. m_stack t = m_stack s \<and> m_SP t = m_SP s \<and> m_mem t = m \<and> (\<forall>m. Q NEXT (t\<lparr>m_mem := m\<rparr>))) R
        (s\<lparr>m_copyMemSize := c, m_newMemSize := k, m_runGas := g, m_mem := m, m_io_gas := io\<rparr>)"
  shows "wp (copyCase i d) Q R s"
proof -
  have r: "R OutOfGas (s\<lparr>m_copyMemSize := c, m_newMemSize := k, m_runGas := g\<rparr>)" for c k g
    using assms(6) [of "m_mem s" g k c] by simp
  have r2: "R OutOfGas (s\<lparr>m_copyMemSize := c\<rparr>)" for c
    using assms(6) [of "m_mem s" "m_runGas s" "m_newMemSize s" c] by simp
  have r3: "R OutOfGas s" using r2 [of "m_copyMemSize s"] by simp
  have fin: "wp (bindE d (\<lambda>bs. thenE (copyDataToMemory bs i) (ret NEXT))) Q R
      (s\<lparr>m_copyMemSize := c, m_newMemSize := k, m_runGas := g, m_mem := m, m_io_gas := io\<rparr>)"
    if "io < m_io_gas s"
      "covers (m_stack s ! nat (m_SP s + int i)) (m_stack s ! nat (m_SP s + int (i + 2))) (length m)"
    for c k g m io
    by (rule wp_bind, rule wp_weaken [OF assms(7) [OF that(1)]])
      (use that assms(4,5) in \<open>auto intro!: wp_rule wp_copyDataToMemory\<close>)
  show ?thesis
    unfolding copyCase_def
    by (intro wp_bind [of "SP _"] wp_bind [of "toInt63 _"] wp_then wp_upd wp_SP wp_toInt63 wp_need
        wp_updateIOGas)
      (use assms(1-6) r r2 r3 fin in \<open>auto simp: metered_copy paid\<close>)
qed

lemma ready_price: "ready op s \<Longrightarrow> unat (m_runGas s) < 2 ^ 32"
  using unsigned_less [of "tier_gas (m_schedule s) (gasPriceTier (instructionInfo op))", where ?'a = nat]
  by (simp add: ready_def unat_ucast_le)

lemma calldatacopy_ok:
  assumes "ready CALLDATACOPY s"
  shows "wp (interpretCase K E CALLDATACOPY) (did CALLDATACOPY s) (failed s) s"
  using assms tier_paid [OF assms] ready_price [OF assms] unfolding interpretCase.simps
  by (intro wp_then wp_onOperation wp_copyCase wp_get)
    (auto simp: step_defs info_def)

end
