(* ===== verification/VmCode.thy ===== *)
theory VmCode
  imports Vm
begin

text \<open>
  The code as the machine prepares it: the positions where an instruction starts and the
  table of jump destinations.
\<close>

section \<open>Decoding\<close>

definition synthetic :: "Instruction \<Rightarrow> bool" where
  "synthetic op \<longleftrightarrow> op \<in> {PUSHC, JUMPC, JUMPCI}"

lemma block_cases: "block ops i = x \<Longrightarrow> x \<in> set ops \<or> x = NoInstruction"
  by (auto simp: block_def split: if_splits)

lemma instruction_PUSH: "instruction b = PUSH n \<Longrightarrow> 0 < n \<and> n \<le> 32"
  unfolding instruction_def Let_def by (auto split: if_splits dest!: block_cases)

lemma instruction_LOG: "instruction b = LOG n \<Longrightarrow> n \<le> 4"
  unfolding instruction_def Let_def by (auto split: if_splits dest!: block_cases)

lemma push_len_le: "push_len (instruction b) \<le> 32"
  using instruction_PUSH [of b] by (cases "instruction b") auto

lemma push_len_pos: "push_len op \<noteq> 0 \<Longrightarrow> op = PUSH (push_len op)"
  by (cases op) auto

lemma instruction_bytes:
  "instruction 0 = STOP" "instruction byte_INVALID = INVALID" "instruction byte_PUSHC = PUSHC"
  "instruction byte_JUMPC = JUMPC" "instruction byte_JUMPCI = JUMPCI"
  by (simp_all add: instruction_def block_def byte_INVALID_def byte_PUSHC_def byte_JUMPC_def byte_JUMPCI_def)


section \<open>Instruction boundaries\<close>

text \<open>
  From one start of an instruction to a later one, stepping over the bytes that follow a
  \<open>PUSH\<close>, as long as the start is inside the original code.
\<close>

inductive walk :: "nat \<Rightarrow> bytes \<Rightarrow> nat \<Rightarrow> nat \<Rightarrow> bool" for n code where
  walk_here: "walk n code p p"
| walk_step: "p < n \<Longrightarrow> walk n code (p + push_len (instruction (code ! p)) + 1) q \<Longrightarrow> walk n code p q"

inductive_cases walkE: "walk n code p q"

lemma walk_le: "walk n code p q \<Longrightarrow> p \<le> q"
  by (induction rule: walk.induct) auto

lemma walk_end: "walk n code p q \<Longrightarrow> p \<le> n + 32 \<Longrightarrow> q \<le> n + 32"
proof (induction rule: walk.induct)
  case (walk_step p q)
  then show ?case using push_len_le [of "code ! p"] by simp
qed simp

lemma walk_trans: "walk n code p q \<Longrightarrow> walk n code q r \<Longrightarrow> walk n code p r"
  by (induction rule: walk.induct) (auto intro: walk.walk_step)

lemma walk_snoc:
  "walk n code p q \<Longrightarrow> q < n \<Longrightarrow> walk n code p (q + push_len (instruction (code ! q)) + 1)"
  by (erule walk_trans) (rule walk_step [OF _ walk_here])

lemma walk_cases:
  "walk n code p q \<longleftrightarrow> q = p \<or> p < n \<and> walk n code (p + push_len (instruction (code ! p)) + 1) q"
  by (auto intro: walk.intros elim: walkE)

text \<open>The first pass.\<close>

lemma jumpdest_pass_spec:
  assumes "jumpdest_pass n pc code D = (code', D')" "n \<le> length code"
  shows "length code' = length code \<and> (\<forall>i < pc. code' ! i = code ! i) \<and>
    (\<forall>i \<ge> n. code' ! i = code ! i) \<and>
    (\<forall>q. walk n code' pc q \<and> q < n \<longrightarrow> \<not> synthetic (instruction (code' ! q))) \<and>
    (\<exists>E. D' = D @ map of_nat E \<and> sorted_wrt (<) E \<and>
      set E = {q. walk n code' pc q \<and> q < n \<and> instruction (code' ! q) = JUMPDEST})"
  using assms
proof (induction n pc code D rule: jumpdest_pass.induct)
  case (1 n pc code D)
  show ?case
  proof (cases "pc < n")
    case False
    then have "{q. walk n code pc q \<and> q < n \<and> instruction (code ! q) = JUMPDEST} = {}"
      using walk_le by fastforce
    with "1.prems" False show ?thesis
      by (subst (asm) jumpdest_pass.simps) (auto dest: walk_le)
  next
    case True
    define op where "op = instruction (code ! pc)"
    define c1 where "c1 = (if op \<in> {PUSHC, JUMPC, JUMPCI} then code[pc := byte_INVALID] else code)"
    define D1 where "D1 = (if op = JUMPDEST then D @ [of_nat pc] else D)"
    have run: "jumpdest_pass n (pc + push_len op + 1) c1 D1 = (code', D')"
      using "1.prems"(1) True by (subst (asm) jumpdest_pass.simps) (simp add: op_def c1_def D1_def Let_def)
    have ih: "length code' = length c1 \<and> (\<forall>i < pc + push_len op + 1. code' ! i = c1 ! i) \<and>
        (\<forall>i \<ge> n. code' ! i = c1 ! i) \<and>
        (\<forall>q. walk n code' (pc + push_len op + 1) q \<and> q < n \<longrightarrow> \<not> synthetic (instruction (code' ! q))) \<and>
        (\<exists>E. D' = D1 @ map of_nat E \<and> sorted_wrt (<) E \<and>
          set E = {q. walk n code' (pc + push_len op + 1) q \<and> q < n \<and> instruction (code' ! q) = JUMPDEST})"
      using "1.IH" [OF True op_def c1_def [unfolded op_def, folded op_def] D1_def] run "1.prems"(2)
      by (simp add: c1_def op_def)
    then obtain E where E: "D' = D1 @ map of_nat E" "sorted_wrt (<) E"
        "set E = {q. walk n code' (pc + push_len op + 1) q \<and> q < n \<and> instruction (code' ! q) = JUMPDEST}"
      by auto
    have pc: "pc < length code" using True "1.prems"(2) by simp
    have op': "instruction (code' ! pc) = (if synthetic op then INVALID else op)"
      using ih pc by (simp add: c1_def synthetic_def op_def instruction_bytes)
    then have len: "push_len (instruction (code' ! pc)) = push_len op"
      by (auto simp: synthetic_def)
    have w: "walk n code' pc q \<longleftrightarrow> q = pc \<or> walk n code' (pc + push_len op + 1) q" for q
      using True by (subst walk_cases) (simp add: len)
    have after: "pc < q" if "q \<in> set E" for q using that E(3) walk_le by fastforce
    have jd: "instruction (code' ! pc) = JUMPDEST \<longleftrightarrow> op = JUMPDEST"
      using op' by (auto simp: synthetic_def)
    have "D' = D @ map of_nat (if op = JUMPDEST then pc # E else E) \<and>
        sorted_wrt (<) (if op = JUMPDEST then pc # E else E) \<and>
        set (if op = JUMPDEST then pc # E else E) =
          {q. walk n code' pc q \<and> q < n \<and> instruction (code' ! q) = JUMPDEST}"
      using E after True jd by (auto simp: D1_def w)
    then have jd': "\<exists>E. D' = D @ map of_nat E \<and> sorted_wrt (<) E \<and>
        set E = {q. walk n code' pc q \<and> q < n \<and> instruction (code' ! q) = JUMPDEST}" by blast
    have "\<not> synthetic (instruction (code' ! pc))" using op' by (simp add: synthetic_def)
    then have syn: "\<not> synthetic (instruction (code' ! q))" if "walk n code' pc q" "q < n" for q
      using ih that by (auto simp: w)
    have same: "code' ! i = code ! i" if "i < pc \<or> n \<le> i" for i
    proof -
      have "code' ! i = c1 ! i" using ih that by auto
      with that True show ?thesis by (auto simp: c1_def)
    qed
    have "length code' = length code" using ih by (simp add: c1_def)
    with syn same jd' show ?thesis by blast
  qed
qed

end
