(* ===== verification/VmStep.thy ===== *)
theory VmStep
  imports VmSafe VmCode
begin

text \<open>
  Every instruction of the interpreter, and with it one turn of the loop, stays within the
  machine's bounds and pays for itself.
\<close>

section \<open>The remaining cases\<close>

lemma codecopy_ok:
  assumes "ready CODECOPY s"
  shows "wp (interpretCase K E CODECOPY) (did CODECOPY s) (failed s) s"
  using assms tier_paid [OF assms] ready_price [OF assms] unfolding interpretCase.simps
  by (intro wp_then wp_onOperation wp_copyCase wp_get)
    (auto simp: step_defs info_def)

lemma extcodecopy_ok:
  assumes "ready EXTCODECOPY s"
  shows "wp (interpretCase K E EXTCODECOPY) (did EXTCODECOPY s) (failed s) s"
proof -
  have "unat (extcodecopyGas (m_schedule s)) < 2 ^ 32"
    using unsigned_less [of "extcodecopyGas (m_schedule s)", where ?'a = nat] by simp
  with assms show ?thesis
    unfolding interpretCase.simps
    by (intro wp_then wp_onOperation wp_copyCase wp_bind wp_sched wp_setRunGas wp_SP wp_viaExt)
      (auto simp: step_defs info_def sched_ok_def price_paid)
qed

lemma returndatacopy_ok:
  assumes "ready RETURNDATACOPY s"
  shows "wp (interpretCase K E RETURNDATACOPY) (did RETURNDATACOPY s) (failed s) s"
  using assms tier_paid [OF assms] ready_price [OF assms]
  unfolding interpretCase.simps returndatacopyCase_def
  by (intro wp_then wp_onOperation wp_copyCase wp_bind wp_get wp_throwIf wp_if wp_throw wp_ret wp_SP)
    (auto simp: step_defs info_def)

lemma wp_returnRegion:
  assumes "ready op s" "nargs op = 2"
    and "\<And>c k g m. R OutOfGas (s\<lparr>m_copyMemSize := c, m_newMemSize := k, m_runGas := g, m_mem := m\<rparr>)"
    and "\<And>bs c k g m io. io \<le> m_io_gas s \<Longrightarrow>
      Q bs (s\<lparr>m_copyMemSize := c, m_newMemSize := k, m_runGas := g, m_mem := m, m_io_gas := io\<rparr>)"
  shows "wp returnRegion Q R s"
proof -
  have r: "R OutOfGas (s\<lparr>m_copyMemSize := c, m_newMemSize := k, m_runGas := g\<rparr>)" for c k g
    using assms(3) [of "m_mem s" g k c] by simp
  have r2: "R OutOfGas (s\<lparr>m_copyMemSize := c\<rparr>)" for c
    using assms(3) [of "m_mem s" "m_runGas s" "m_newMemSize s" c] by simp
  have "metered (s\<lparr>m_copyMemSize := 0\<rparr>)"
    using ready_metered [OF assms(1)] assms(1) by (simp add: metered_def copy_price_def ready_def)
  with assms r r2 show ?thesis
    unfolding returnRegion_def
    by (intro wp_then wp_upd wp_bind [of "SP _"] wp_SP wp_need wp_updateIOGas wp_rdMem)
      (auto simp: ready_def paid_le covers_region)
qed

lemma return_ok:
  assumes "ready RETURN s"
  shows "wp (interpretCase K E RETURN) (did RETURN s) (failed s) s"
  unfolding interpretCase.simps bounceTo_def
  by (intro wp_then wp_onOperation wp_bind wp_returnRegion wp_upd wp_ret)
    (use assms in \<open>auto simp: step_defs info_def\<close>)

lemma revert_ok:
  assumes "ready REVERT s"
  shows "wp (interpretCase K E REVERT) (did REVERT s) (failed s) s"
  unfolding interpretCase.simps
  by (intro wp_then wp_onOperation wp_bind wp_returnRegion wp_upd wp_throw wp_get wp_throwIf)
    (use assms in \<open>auto simp: step_defs info_def\<close>)

lemma wp_SPs:
  assumes "\<And>i. i \<in> set is \<Longrightarrow> 0 \<le> m_SP s + int i \<and> m_SP s + int i < int (length (m_stack s))"
    "\<And>vs. Q vs s"
  shows "wp (SPs is) Q R s"
  using assms
proof (induction "is" arbitrary: Q)
  case (Cons i "is")
  have "wp (SPs is) (\<lambda>vs. wp (ret (v # vs)) Q R) R s" for v
    by (rule Cons.IH) (use Cons.prems in \<open>auto intro: wp_ret\<close>)
  with Cons.prems(1) [of i] show ?case by (auto intro!: wp_bind wp_SP)
qed (auto intro: wp_rule)

lemma log_price:
  assumes "sched_ok c" "n \<le> 4"
  shows "0 < unat (logGas c + logTopicGas c * of_nat n)"
proof -
  have b: "unat (logGas c) + 4 * unat (logTopicGas c) < 2 ^ 32" "logGas c \<noteq> 0"
    using assms(1) by (simp_all add: sched_ok_def)
  have n: "unat (of_nat n :: u32) = n" using assms(2) by (simp add: unat_of_nat)
  have "unat (logTopicGas c) * n \<le> unat (logTopicGas c) * 4" using assms(2) by (rule mult_le_mono2)
  then have l: "unat (logGas c) + unat (logTopicGas c) * n < 2 ^ 32" using b(1) by linarith
  then have m: "unat (logTopicGas c * of_nat n) = unat (logTopicGas c) * n"
    by (subst unat_mult_lem [THEN iffD1]) (simp_all add: n)
  have "unat (logGas c + logTopicGas c * of_nat n) = unat (logGas c) + unat (logTopicGas c) * n"
    using l by (subst unat_add_lem [THEN iffD1]) (simp_all add: m)
  then show ?thesis using b(2) by (simp add: unat_gt_0)
qed

lemma set_price: "unat (g :: u64) = v \<Longrightarrow> 0 < v \<Longrightarrow> 0 < g"
  by (simp add: word_less_nat_alt)

lemma metered_set:
  "m_copyMemSize s = 0 \<Longrightarrow> sched_ok (m_schedule s) \<Longrightarrow> unat g < 2 ^ 63 \<Longrightarrow> metered (s\<lparr>m_runGas := g\<rparr>)"
  by (simp add: metered_def copy_price_def sched_ok_def)

lemma log_ok:
  assumes "ready (LOG n) s" "n \<le> 4"
  shows "wp (interpretCase K E (LOG n)) (did (LOG n) s) (failed s) s"
proof -
  have p: "0 < unat (logGas (m_schedule s) + logTopicGas (m_schedule s) * of_nat n)"
    using assms by (intro log_price) (auto simp: ready_def)
  show ?thesis
    unfolding interpretCase.simps logCase_def logGasMem_def
    by (intro wp_then wp_onOperation wp_get wp_throwIf wp_bind [of "SP _"] wp_bind [of "getE _"]
        wp_bind [of "rdMem _ _"] wp_bind [of "SPs _"] wp_SP wp_setRunGas wp_need wp_updateIOGas
        wp_rdMem wp_SPs wp_viaExt wp_ret)
      (use assms p in
        \<open>auto simp: step_defs info_def paid paid_le set_price covers_region metered_set\<close>)
qed

lemma sha3_price: "sched_ok c \<Longrightarrow> 0 < unat (sha3Gas c)"
  by (simp add: sched_ok_def unat_gt_0)

lemma sha3_ok:
  assumes "ready SHA3 s"
  shows "wp (interpretCase K E SHA3) (did SHA3 s) (failed s) s"
  unfolding interpretCase.simps sha3Case_def
  by (intro wp_then wp_onOperation wp_get wp_bind [of "SP _"] wp_bind [of "getE _"]
      wp_bind [of "rdMem _ _"] wp_SP wp_setRunGas wp_need wp_updateIOGas wp_rdMem wp_setSPP wp_ret)
    (use assms in
      \<open>auto simp: step_defs info_def paid paid_le set_price covers_region metered_set sha3_price\<close>)

lemma exp_price:
  assumes "sched_ok c" "k \<le> 32"
  shows "0 < unat (expGas c + expByteGas c * (32 - of_nat k))"
proof -
  have b: "unat (expGas c) + 32 * unat (expByteGas c) < 2 ^ 32" "expGas c \<noteq> 0"
    using assms(1) by (simp_all add: sched_ok_def)
  have d: "(32 - of_nat k :: u32) = of_nat (32 - k)" using assms(2) by (simp add: of_nat_diff)
  have n: "unat (32 - of_nat k :: u32) = 32 - k" by (subst d, subst unat_of_nat) simp
  have "unat (expByteGas c) * (32 - k) \<le> unat (expByteGas c) * 32" by (rule mult_le_mono2) simp
  then have l: "unat (expGas c) + unat (expByteGas c) * (32 - k) < 2 ^ 32" using b(1) by linarith
  then have m: "unat (expByteGas c * (32 - of_nat k)) = unat (expByteGas c) * (32 - k)"
    by (subst unat_mult_lem [THEN iffD1]) (simp_all add: n)
  have "unat (expGas c + expByteGas c * (32 - of_nat k)) = unat (expGas c) + unat (expByteGas c) * (32 - k)"
    using l by (subst unat_add_lem [THEN iffD1]) (simp_all add: m)
  then show ?thesis using b(2) by (simp add: unat_gt_0)
qed

lemma leading_le: "leading n d \<le> n"
  by (induction n arbitrary: d) auto

lemma firstBitSet_le: "firstBitSet bs \<le> 8 * length bs"
proof (induction bs)
  case (Cons d ds)
  then show ?case using leading_le [of 8 d] by auto
qed simp

lemma exp_ok:
  assumes "ready EXP s"
  shows "wp (interpretCase K E EXP) (did EXP s) (failed s) s"
proof -
  have "firstBitSet (h256_bytes x) div 8 \<le> 32" for x
    using firstBitSet_le [of "h256_bytes x"] by simp
  then have p: "0 < unat (expGas (m_schedule s) +
      expByteGas (m_schedule s) * (32 - of_nat (firstBitSet (h256_bytes x) div 8)))" for x
    using assms by (intro exp_price) (auto simp: ready_def)
  show ?thesis
    unfolding interpretCase.simps expCase_def
    by (intro wp_rule)
      (use assms p in \<open>auto simp: step_defs info_def paid paid_le set_price\<close>)
qed

text \<open>Memory is grown for the offset, and its conversion to \<open>unsigned\<close> is no larger.\<close>

lemma wp_growFor:
  assumes "ready op s" "nargs op \<noteq> 0" "0 < m_runGas s" "0 < unat n" "unat n \<le> 32"
    and "\<And>l tr k g m. R OutOfGas (s\<lparr>m_nSteps := l, m_trace := tr, m_newMemSize := k, m_runGas := g, m_mem := m\<rparr>)"
    and "\<And>off l tr k g m io. io < m_io_gas s \<Longrightarrow> off + unat n \<le> length m \<Longrightarrow>
      Q off (s\<lparr>m_nSteps := l, m_trace := tr, m_newMemSize := k, m_runGas := g, m_mem := m, m_io_gas := io\<rparr>)"
  shows "wp (growFor n) Q R s"
proof -
  have r: "R OutOfGas (s\<lparr>m_nSteps := l, m_trace := tr, m_newMemSize := k, m_runGas := g\<rparr>)" for l tr k g
    using assms(6) [of "m_mem s" g k tr l] by simp
  have r2: "R OutOfGas (s\<lparr>m_nSteps := l, m_trace := tr\<rparr>)" for l tr
    using r [of "m_runGas s" "m_newMemSize s" tr l] by simp
  have off: "unat (ucast a :: u32) + j \<le> l" if "unat a + j \<le> l" for a :: u256 and j l
  proof -
    have "unat (ucast a :: u32) \<le> unat a" by (simp add: unsigned_ucast_eq take_bit_nat_less_eq_self)
    then show ?thesis using that by linarith
  qed
  have add: "unat (off + n) = unat off + unat n" if "unat off < 2 ^ 63" for off :: u64
    using that assms(5) by (subst unat_add_lem [THEN iffD1]) auto
  have "metered s" by (rule ready_metered [OF assms(1)])
  then have "metered (s\<lparr>m_nSteps := l, m_trace := tr\<rparr>)" for l tr by (simp add: metered_def copy_price_def)
  then show ?thesis
    unfolding growFor_def
    by (intro wp_then wp_onOperation wp_bind wp_SP wp_toInt63 wp_updateMem wp_updateIOGas wp_ret)
      (use assms r r2 off add in \<open>auto simp: ready_def paid intro!: assms(7) off\<close>)
qed

lemma mload_ok:
  assumes "ready MLOAD s"
  shows "wp (interpretCase K E MLOAD) (did MLOAD s) (failed s) s"
  unfolding interpretCase.simps mloadCase_def
  by (intro wp_bind wp_growFor [OF assms] wp_rdMem wp_then wp_setSPP wp_ret)
    (use assms tier_paid [OF assms] in \<open>auto simp: step_defs info_def\<close>)

lemma mstore_ok:
  assumes "ready MSTORE s"
  shows "wp (interpretCase K E MSTORE) (did MSTORE s) (failed s) s"
  unfolding interpretCase.simps mstoreCase_def
  by (intro wp_bind wp_growFor [OF assms] wp_SP wp_then wp_wrMem wp_ret)
    (use assms tier_paid [OF assms] in \<open>auto simp: step_defs info_def\<close>)

lemma mstore8_ok:
  assumes "ready MSTORE8 s"
  shows "wp (interpretCase K E MSTORE8) (did MSTORE8 s) (failed s) s"
  unfolding interpretCase.simps mstore8Case_def
  by (intro wp_bind wp_growFor [OF assms] wp_SP wp_then wp_wrMem wp_ret)
    (use assms tier_paid [OF assms] in \<open>auto simp: step_defs info_def\<close>)

lemma pop_ok:
  assumes "ready POP s"
  shows "wp (interpretCase K E POP) (did POP s) (failed s) s"
  unfolding interpretCase.simps
  by (intro wp_rule) (use assms tier_paid [OF assms] in \<open>auto simp: step_defs info_def paid paid_le\<close>)

lemma dup_ok:
  assumes "ready (DUP n) s"
  shows "wp (interpretCase K E (DUP n)) (did (DUP n) s) (failed s) s"
  unfolding interpretCase.simps
  by (intro wp_rule) (use assms tier_paid [OF assms] in \<open>auto simp: step_defs info_def paid paid_le\<close>)

lemma swap_ok:
  assumes "ready (SWAP n) s"
  shows "wp (interpretCase K E (SWAP n)) (did (SWAP n) s) (failed s) s"
  unfolding interpretCase.simps swapCase_def
  by (intro wp_rule) (use assms tier_paid [OF assms] in \<open>auto simp: step_defs info_def paid paid_le\<close>)

lemma stop_ok:
  assumes "ready STOP s"
  shows "wp (interpretCase K E STOP) (did STOP s) (failed s) s"
  unfolding interpretCase.simps bounceTo_def
  by (intro wp_rule) (use assms in \<open>auto simp: step_defs info_def paid_le\<close>)

lemma jumpdest_ok:
  assumes "ready JUMPDEST s"
  shows "wp (interpretCase K E JUMPDEST) (did JUMPDEST s) (failed s) s"
  unfolding interpretCase.simps
  by (intro wp_rule) (use assms in \<open>auto simp: step_defs info_def paid paid_le\<close>)

lemma wp_jumpTo:
  assumes "sorted (m_jumpDests s)" "R BadJumpDestination s"
    "\<And>pc. pc \<in> set (m_jumpDests s) \<Longrightarrow> verifyJumpDest (m_jumpDests s) d = Some pc \<Longrightarrow>
       Q CONTINUE (s\<lparr>m_PC := pc\<rparr>)"
  shows "wp (jumpTo d) Q R s"
proof (cases "verifyJumpDest (m_jumpDests s) d")
  case (Some pc)
  with assms(3) [OF verifyJumpDest_SomeD [OF assms(1) Some]] show ?thesis
    unfolding jumpTo_def by (intro wp_rule) (simp add: theE_def wp_rule)
qed (use assms(2) in \<open>simp add: jumpTo_def wp_def theE_def bindE_def\<close>)

lemma jump_ok:
  assumes "ready JUMP s"
  shows "wp (interpretCase K E JUMP) (did JUMP s) (failed s) s"
  unfolding interpretCase.simps
  by (intro wp_rule wp_jumpTo)
    (use assms tier_paid [OF assms] in \<open>auto simp: step_defs info_def paid paid_le\<close>)

lemma jumpi_ok:
  assumes "ready JUMPI s"
  shows "wp (interpretCase K E JUMPI) (did JUMPI s) (failed s) s"
  unfolding interpretCase.simps incPC_def
  by (intro wp_rule wp_jumpTo)
    (use assms tier_paid [OF assms] in \<open>auto simp: step_defs info_def paid paid_le\<close>)



section \<open>Pushing constants\<close>

text \<open>The bytes of the code from \<open>i\<close> on, shifted into a value.\<close>

definition shift_in :: "bytes \<Rightarrow> u256 \<Rightarrow> nat \<Rightarrow> nat \<Rightarrow> u256" where
  "shift_in code v i n = foldl (\<lambda>v i. push_bit 8 v OR ucast (code ! i)) v [i ..< i + n]"

lemma shift_in_0 [simp]: "shift_in code v i 0 = v"
  by (simp add: shift_in_def)

lemma shift_in_Suc: "shift_in code v i (Suc n) = shift_in code (push_bit 8 v OR ucast (code ! i)) (Suc i) n"
  by (simp add: shift_in_def upt_conv_Cons del: upt_Suc)

lemma decode_push_shift: "0 < n \<Longrightarrow> decode_push n pc code = shift_in code 0 (pc + 1) n"
  by (cases n) (simp_all add: shift_in_Suc, simp add: shift_in_def decode_push_def)

lemma unat_PC_Suc:
  "unat (pc :: u64) < n \<Longrightarrow> n < 2 ^ 64 \<Longrightarrow> unat (pc + 1) = Suc (unat pc)"
  by (subst unat_add_lem [THEN iffD1]) auto

lemma nextByte_run:
  "unat (m_PC s) < length (m_code s) \<Longrightarrow>
   nextByte s = (Inr (m_code s ! unat (m_PC s)), s\<lparr>m_PC := m_PC s + 1\<rparr>)"
  by (simp add: nextByte_def codeByte_def incPC_def bindE_def thenE_def)

lemma pushLoop_run:
  assumes "0 \<le> m_SPP s" "m_SPP s < int (length (m_stack s))"
    "unat (m_PC s) + n \<le> length (m_code s)" "length (m_code s) < 2 ^ 64"
  shows "(pushLoop n :: ('e, 'w, unit) vmE) s = (Inr (), s\<lparr>
      m_stack := (m_stack s)[nat (m_SPP s) := shift_in (m_code s) (m_stack s ! nat (m_SPP s)) (unat (m_PC s)) n],
      m_PC := m_PC s + of_nat n\<rparr>)"
  using assms
proof (induction n arbitrary: s)
  case (Suc n)
  let ?v = "push_bit 8 (m_stack s ! nat (m_SPP s)) OR ucast (m_code s ! unat (m_PC s))"
  let ?t = "s\<lparr>m_PC := m_PC s + 1, m_stack := (m_stack s)[nat (m_SPP s) := ?v]\<rparr>"
  have u: "unat (m_PC s + 1) = Suc (unat (m_PC s))"
    using Suc.prems by (intro unat_PC_Suc [of _ "length (m_code s)"]) auto
  have "(pushLoop (Suc n) :: ('e, 'w, unit) vmE) s = pushLoop n ?t"
    using Suc.prems by (simp add: bindE_def thenE_def getSPP_def nextByte_run setSPP_def put_stack_def)
  also have "\<dots> = (Inr (), ?t\<lparr>
      m_stack := (m_stack ?t)[nat (m_SPP ?t) := shift_in (m_code ?t) (m_stack ?t ! nat (m_SPP ?t)) (unat (m_PC ?t)) n],
      m_PC := m_PC ?t + of_nat n\<rparr>)"
    by (rule Suc.IH [of ?t]) (use Suc.prems u in auto)
  also have "\<dots> = (Inr (), s\<lparr>
      m_stack := (m_stack s)[nat (m_SPP s) := shift_in (m_code s) (m_stack s ! nat (m_SPP s)) (unat (m_PC s)) (Suc n)],
      m_PC := m_PC s + of_nat (Suc n)\<rparr>)"
    using Suc.prems(1,2) by (simp add: shift_in_Suc u nat_less_iff)
  finally show ?case .
qed simp

text \<open>\<open>PUSH1\<close> has a case of its own; it computes the same.\<close>

definition pushed :: "nat \<Rightarrow> 'w vm \<Rightarrow> 'w vm" where
  "pushed n s = s\<lparr>
     m_stack := (m_stack s)[nat (m_SPP s) := shift_in (m_code s) 0 (unat (m_PC s) + 1) n],
     m_PC := m_PC s + 1 + of_nat n\<rparr>"

lemma thenE_cong: "(\<And>x t. m s = (Inr x, t) \<Longrightarrow> n t = n' t) \<Longrightarrow> thenE m n s = thenE m n' s"
  by (auto simp: thenE_def bindE_def split: prod.split sum.split)

lemma pushCase_run:
  assumes "0 \<le> m_SPP s" "m_SPP s < int (length (m_stack s))" "0 < n"
    "unat (m_PC s) + n < length (m_code s)" "length (m_code s) < 2 ^ 64"
  shows "(pushCase n :: ('e, 'w, flow) vmE) s = thenE charge (\<lambda>t. (Inr CONTINUE, pushed n t)) s"
proof -
  have u: "unat (m_PC s + 1) = Suc (unat (m_PC s))"
    using assms(4,5) by (intro unat_PC_Suc [of _ "length (m_code s)"]) auto
  have "(if n = 1 then thenE (incPC :: ('e, 'w, unit) vmE) (bindE nextByte (\<lambda>b. thenE (setSPP (ucast b)) (ret CONTINUE)))
      else thenE (setSPP 0) (thenE incPC (thenE (pushLoop n) (ret CONTINUE)))) t = (Inr CONTINUE, pushed n t)"
    if "m_SPP t = m_SPP s" "m_stack t = m_stack s" "m_PC t = m_PC s" "m_code t = m_code s" for t
  proof (cases "n = 1")
    case True
    with that assms u show ?thesis
      by (simp add: incPC_def bindE_def thenE_def nextByte_run setSPP_def put_stack_def pushed_def
          shift_in_Suc add.commute)
  next
    case False
    let ?u = "t\<lparr>m_stack := (m_stack t)[nat (m_SPP t) := 0], m_PC := m_PC t + 1\<rparr>"
    have "(pushLoop n :: ('e, 'w, unit) vmE) ?u = (Inr (), ?u\<lparr>
      m_stack := (m_stack ?u)[nat (m_SPP ?u) := shift_in (m_code ?u) (m_stack ?u ! nat (m_SPP ?u)) (unat (m_PC ?u)) n],
      m_PC := m_PC ?u + of_nat n\<rparr>)"
      by (rule pushLoop_run) (use that assms u in auto)
    with False that assms u show ?thesis
      by (simp add: incPC_def bindE_def thenE_def setSPP_def put_stack_def pushed_def nat_less_iff)
  qed
  moreover have chg: "m_SPP t = m_SPP s \<and> m_stack t = m_stack s \<and> m_PC t = m_PC s \<and> m_code t = m_code s"
    if "(charge :: ('e, 'w, unit) vmE) s = (Inr (), t)" for t
  proof -
    have "wp (charge :: ('e, 'w, unit) vmE)
        (\<lambda>_ t. m_SPP t = m_SPP s \<and> m_stack t = m_stack s \<and> m_PC t = m_PC s \<and> m_code t = m_code s)
        (\<lambda>_ _. True) s"
      by (auto intro: wp_charge)
    with that show ?thesis by (simp add: wp_def)
  qed
  ultimately show ?thesis
    unfolding pushCase_def by (intro thenE_cong) simp
qed

lemma pushN_ok:
  assumes "ready (PUSH n) s" "0 < n" "unat (m_PC s) + n < length (m_code s)" "length (m_code s) < 2 ^ 64"
  shows "wp (interpretCase K (E :: ('e, 'w) ExtVMFace) (PUSH n)) (did (PUSH n) s) (failed s) s"
proof -
  have "(pushCase n :: ('e, 'w, flow) vmE) s = thenE charge (\<lambda>t. (Inr CONTINUE, pushed n t)) s"
    by (rule pushCase_run) (use assms in \<open>auto simp: ready_def info_def\<close>)
  moreover have "wp (thenE (charge :: ('e, 'w, unit) vmE) (\<lambda>t. (Inr CONTINUE, pushed n t))) (did (PUSH n) s) (failed s) s"
    by (intro wp_then wp_charge)
      (use assms tier_paid [OF assms(1)] in
        \<open>auto simp: step_defs info_def paid paid_le pushed_def wp_def ac_simps\<close>)
  ultimately show ?thesis by (simp add: wp_def)
qed



section \<open>Every case\<close>

lemma suicide_ok:
  assumes "ready SUICIDE s"
  shows "wp (interpretCase K E SUICIDE) (did SUICIDE s) (failed s) s"
  unfolding interpretCase.simps suicideCase_def
  by (intro wp_rule) (use assms in \<open>auto simp: step_defs info_def paid_le\<close>)

lemma create_ok:
  assumes "ready CREATE s"
  shows "wp (interpretCase K E CREATE) (did CREATE s) (failed s) s"
  unfolding interpretCase.simps bounceTo_def isStatic_def
  by (intro wp_rule) (use assms in \<open>auto simp: step_defs info_def\<close>)

lemma create2_ok:
  assumes "ready CREATE2 s"
  shows "wp (interpretCase K E CREATE2) (did CREATE2 s) (failed s) s"
  unfolding interpretCase.simps bounceTo_def
  by (intro wp_rule) (use assms in \<open>auto simp: step_defs info_def\<close>)

lemma callCase_ok:
  assumes "ready op s" "op \<in> {CALL, CALLCODE, DELEGATECALL, STATICCALL}"
  shows "wp (callCase op) (did op s) (failed s) s"
  unfolding callCase_def bounceTo_def isStatic_def
  by (intro wp_rule) (use assms in \<open>auto simp: step_defs info_def\<close>)

text \<open>The immediate bytes of an instruction are inside the code.\<close>

definition in_code :: "Instruction \<Rightarrow> 'w vm \<Rightarrow> bool" where
  "in_code op s \<longleftrightarrow> unat (m_PC s) + push_len op < length (m_code s) \<and> length (m_code s) < 2 ^ 64"

lemma call_ok:
  "ready CALL s \<Longrightarrow> wp (interpretCase K E CALL) (did CALL s) (failed s) s"
  "ready CALLCODE s \<Longrightarrow> wp (interpretCase K E CALLCODE) (did CALLCODE s) (failed s) s"
  "ready DELEGATECALL s \<Longrightarrow> wp (interpretCase K E DELEGATECALL) (did DELEGATECALL s) (failed s) s"
  "ready STATICCALL s \<Longrightarrow> wp (interpretCase K E STATICCALL) (did STATICCALL s) (failed s) s"
  by (simp_all add: callCase_ok)

lemma invalid_ok:
  "wp (interpretCase K E (EIP615 x)) Q (failed s) s" "wp (interpretCase K E (EIP616 y)) Q (failed s) s"
  "wp (interpretCase K E INVALID) Q (failed s) s" "wp (interpretCase K E NoInstruction) Q (failed s) s"
  by (simp_all add: wp_def failed_def)

lemma group_ok:
  "ready (Arith a) s \<Longrightarrow> wp (interpretCase K E (Arith a)) (did (Arith a) s) (failed s) s"
  "ready (Logic l) s \<Longrightarrow> wp (interpretCase K E (Logic l)) (did (Logic l) s) (failed s) s"
  "ready (Env v) s \<Longrightarrow> wp (interpretCase K E (Env v)) (did (Env v) s) (failed s) s"
  "ready (Blk k) s \<Longrightarrow> wp (interpretCase K E (Blk k)) (did (Blk k) s) (failed s) s"
  "ready (Mach m) s \<Longrightarrow> wp (interpretCase K E (Mach m)) (did (Mach m) s) (failed s) s"
  by (simp_all add: arith_ok logic_ok env_ok blk_ok mach_ok)

lemmas case_ok = group_ok calldatacopy_ok codecopy_ok extcodecopy_ok returndatacopy_ok return_ok
  revert_ok sha3_ok exp_ok mload_ok mstore_ok mstore8_ok pop_ok dup_ok swap_ok stop_ok jumpdest_ok
  jump_ok jumpi_ok suicide_ok create_ok create2_ok call_ok invalid_ok

lemma interpretCase_ok:
  assumes "ready op s" "in_code op s" "op = instruction b" "\<not> synthetic op"
  shows "wp (interpretCase K E op) (did op s) (failed s) s"
proof (cases op)
  case (PUSH n)
  have "0 < n" using instruction_PUSH [of b n] assms(3) PUSH by simp
  with assms(1,2) show ?thesis unfolding PUSH by (intro pushN_ok) (simp_all add: in_code_def)
next
  case (LOG n)
  have "n \<le> 4" using instruction_LOG [of b n] assms(3) LOG by simp
  with assms(1) show ?thesis unfolding LOG by (intro log_ok)
qed (use assms(1,4) in \<open>simp_all only: case_ok synthetic_def insert_iff simp_thms\<close>)

end
