(* ===== verification/VmRun.thy ===== *)
theory VmRun
  imports VmStep
begin

text \<open>
  The interpreter loop: from prepared code the machine never leaves its bounds, except for the
  price of a byte that has none, and the loop ends because every turn costs gas.
\<close>

section \<open>Prepared code\<close>

definition prepared :: "nat \<Rightarrow> bytes \<Rightarrow> u64 list \<Rightarrow> bool" where
  "prepared n code D \<longleftrightarrow> length code = n + 33 \<and> n + 33 < 2 ^ 64 \<and>
     (\<forall>i. n \<le> i \<and> i < length code \<longrightarrow> code ! i = 0) \<and>
     (\<forall>q. walk n code 0 q \<and> q < n \<longrightarrow> \<not> synthetic (instruction (code ! q))) \<and>
     sorted D \<and> (\<forall>d \<in> set D. walk n code 0 (unat d) \<and> unat d < n \<and> instruction (code ! unat d) = JUMPDEST)"

lemma sorted_of_nat:
  "sorted_wrt (<) E \<Longrightarrow> (\<forall>q \<in> set E. q < 2 ^ 64) \<Longrightarrow> sorted (map (of_nat :: nat \<Rightarrow> u64) E)"
proof (induction E)
  case (Cons a E)
  then show ?case by (auto simp: word_le_nat_alt unat_of_nat)
qed simp

lemma jumpdest_pass_prepared:
  assumes "length code < 2 ^ 63"
    "jumpdest_pass (length code) 0 (copyCode 33 code) [] = (code', D)"
  shows "prepared (length code) code' D"
proof -
  let ?n = "length code"
  note sp = jumpdest_pass_spec [OF assms(2)]
  have s: "length code' = length (copyCode 33 code) \<and>
      (\<forall>i \<ge> ?n. code' ! i = copyCode 33 code ! i) \<and>
      (\<forall>q. walk ?n code' 0 q \<and> q < ?n \<longrightarrow> \<not> synthetic (instruction (code' ! q)))"
    using sp by (simp add: copyCode_def)
  obtain E where E: "D = map of_nat E" "sorted_wrt (<) E"
      "set E = {q. walk ?n code' 0 q \<and> q < ?n \<and> instruction (code' ! q) = JUMPDEST}"
    using sp by (auto simp: copyCode_def)
  have "\<forall>q \<in> set E. q < 2 ^ 64" using E(3) assms(1) by auto
  then have so: "sorted D" using E(1,2) sorted_of_nat by simp
  have de: "walk ?n code' 0 (unat d) \<and> unat d < ?n \<and> instruction (code' ! unat d) = JUMPDEST" if d: "d \<in> set D" for d
  proof -
    obtain q where q: "d = of_nat q" "q \<in> set E" using d E(1) by auto
    then have "walk ?n code' 0 q" "q < ?n" "instruction (code' ! q) = JUMPDEST" using E(3) by simp_all
    with q(1) assms(1) show ?thesis by (simp add: unat_of_nat)
  qed
  have "code' ! i = 0" if "?n \<le> i" "i < length code'" for i
    using s that by (simp add: copyCode_def nth_append)
  with s so de assms(1) show ?thesis unfolding prepared_def by (simp add: copyCode_def)
qed


section \<open>Fetching\<close>

definition head :: "nat \<Rightarrow> 'w vm \<Rightarrow> bool" where
  "head n s \<longleftrightarrow> prepared n (m_code s) (m_jumpDests s) \<and> walk n (m_code s) 0 (unat (m_PC s)) \<and>
     length (m_stack s) = 1024 \<and> 0 \<le> m_SPP s \<and> m_SPP s \<le> 1024 \<and> sched_ok (m_schedule s)"

lemma head_PC: "head n s \<Longrightarrow> unat (m_PC s) \<le> n + 32"
  using walk_end [of n "m_code s" 0] by (simp add: head_def)

lemma head_in_code:
  assumes "head n s"
  shows "in_code (instruction (m_code s ! unat (m_PC s))) s"
proof (cases "unat (m_PC s) < n")
  case True
  with assms push_len_le [of "m_code s ! unat (m_PC s)"] show ?thesis
    by (simp add: in_code_def head_def prepared_def)
next
  case False
  with assms head_PC [OF assms] show ?thesis
    by (simp add: in_code_def head_def prepared_def instruction_bytes)
qed

definition fetched :: "'w vm \<Rightarrow> 'w vm \<Rightarrow> bool" where
  "fetched s t \<longleftrightarrow> ready (instruction (m_code s ! unat (m_PC s))) t \<and> m_code t = m_code s \<and>
     m_pool t = m_pool s \<and> m_jumpDests t = m_jumpDests s \<and> m_PC t = m_PC s \<and> m_io_gas t = m_io_gas s \<and>
     m_stack t = m_stack s \<and> m_SP t = m_SPP s \<and> m_ext t = m_ext s \<and> m_schedule t = m_schedule s"

lemma wp_adjustStack:
  assumes "0 \<le> m_SPP s"
    and "\<And>e n tr p. e \<noteq> OutOfRange \<Longrightarrow> 1024 < m_SPP s + int removed \<or> m_SPP s + int removed < int added \<Longrightarrow> R e (s\<lparr>m_SP := m_SPP s, m_SPP := p, m_nSteps := n, m_trace := tr\<rparr>)"
    and "m_SPP s + int removed \<le> 1024 \<Longrightarrow> 0 \<le> m_SPP s + int removed - int added \<Longrightarrow>
      Q () (s\<lparr>m_SP := m_SPP s, m_SPP := m_SPP s + int removed - int added\<rparr>)"
  shows "wp (adjustStack removed added) Q R s"
  unfolding adjustStack_def throwBadStack_def stackEnd_def
  by (intro wp_rule) (use assms in auto)

text \<open>An exception of a turn: only the price of a byte that has none is out of range.\<close>

definition stuck :: "'w vm \<Rightarrow> 'e vm_exn \<Rightarrow> 'w vm \<Rightarrow> bool" where
  "stuck s e t \<longleftrightarrow> m_io_gas t \<le> m_io_gas s \<and> (e = OutOfRange \<longleftrightarrow> unpriced (m_code s ! unat (m_PC s)))"

lemma fetch_ok:
  assumes "head n s"
  shows "wp fetchInstruction (\<lambda>_ t. fetched s t \<and> \<not> unpriced (m_code s ! unat (m_PC s))) (stuck s) s"
proof -
  have pc: "unat (m_PC s) < length (m_code s)"
    using head_PC [OF assms] assms by (simp add: head_def prepared_def)
  let ?op = "instruction (m_code s ! unat (m_PC s))"
  have price: "2 ^ 63 \<le> unat (tier_gas (m_schedule s) t) \<longleftrightarrow> False" for t
    using unsigned_less [of "tier_gas (m_schedule s) t", where ?'a = nat] by simp
  show ?thesis
    unfolding fetchInstruction_def
    by (intro wp_bind wp_get wp_codeByte wp_then wp_upd wp_adjustStack wp_throwIf wp_sched wp_setRunGas)
      (use assms pc in \<open>simp_all add: fetched_def ready_def stuck_def head_def prepared_def sched_ok_def
        price [simplified] word_unat_eq_iff unat_ucast_le unpriced_def tier_in_array\<close>,
        use assms in \<open>auto simp: head_def dest: unpriced_info\<close>)
qed



section \<open>One turn of the loop\<close>

lemma wp_conj:
  "wp m Q R s \<Longrightarrow> wp m Q' R' s \<Longrightarrow> wp m (\<lambda>x t. Q x t \<and> Q' x t) (\<lambda>e t. R e t \<and> R' e t) s"
  by (auto simp: wp_def split: prod.splits sum.splits)

lemma stop_flow: "wp (interpretCase K E STOP) (\<lambda>f t. f = BREAK) (\<lambda>_ _. True) s"
  unfolding interpretCase.simps bounceTo_def by (intro wp_rule) auto

lemma push_flow:
  fixes E :: "('e, 'w) ExtVMFace"
  assumes "ready (PUSH n) s" "in_code (PUSH n) s" "0 < n"
  shows "wp (interpretCase K E (PUSH n)) (\<lambda>f t. f = CONTINUE) (\<lambda>_ _. True) s"
proof -
  have "(pushCase n :: ('e, 'w, flow) vmE) s = thenE charge (\<lambda>t. (Inr CONTINUE, pushed n t)) s"
    by (rule pushCase_run) (use assms in \<open>auto simp: ready_def info_def in_code_def\<close>)
  then show ?thesis by (auto simp: wp_def thenE_def bindE_def split: prod.splits sum.splits)
qed

text \<open>The next instruction starts where the code has one.\<close>

lemma did_walk:
  assumes "head n s" "fetched s t" "did (instruction (m_code s ! unat (m_PC s))) t f u"
    and "f = NEXT \<Longrightarrow> push_len (instruction (m_code s ! unat (m_PC s))) = 0"
    and "unat (m_PC s) < n" "f \<noteq> BREAK"
  shows "walk n (m_code s) 0 (unat (if f = NEXT then m_PC u + 1 else m_PC u))"
proof -
  let ?op = "instruction (m_code s ! unat (m_PC s))"
  have w: "walk n (m_code s) 0 (unat (m_PC s) + push_len ?op + 1)"
    using assms(1,5) by (intro walk_snoc) (auto simp: head_def)
  have "unat (m_PC s) + push_len ?op + 1 < 2 ^ 64"
    using assms(1,5) push_len_le [of "m_code s ! unat (m_PC s)"] by (simp add: head_def prepared_def)
  then have nx: "unat (m_PC s + of_nat (push_len ?op) + 1) = unat (m_PC s) + push_len ?op + 1"
    by (simp add: unat_word_ariths unat_of_nat)
  have d: "walk n (m_code s) 0 (unat pc)" if "pc \<in> set (m_jumpDests s)" for pc
    using assms(1) that by (simp add: head_def prepared_def)
  have pc: "m_PC t = m_PC s" "m_jumpDests t = m_jumpDests s" using assms(2) by (simp_all add: fetched_def)
  show ?thesis
  proof (cases f)
    case NEXT
    with assms(3,4) w nx pc show ?thesis by (simp add: did_def)
  next
    case CONTINUE
    with assms(3) pc have "m_PC u \<in> goes ?op t" by (simp add: did_def)
    with CONTINUE w nx d pc show ?thesis
      by (cases ?op) (auto simp: ac_simps)
  qed (use assms(6) in simp)
qed

text \<open>The machine that is about to run \<open>caseCreate\<close> or \<open>caseCall\<close>.\<close>

definition calling :: "nat \<Rightarrow> bounce \<Rightarrow> 'w vm \<Rightarrow> bool" where
  "calling n b s \<longleftrightarrow> prepared n (m_code s) (m_jumpDests s) \<and> walk n (m_code s) 0 (unat (m_PC s)) \<and>
     unat (m_PC s) < n \<and> instruction (m_code s ! unat (m_PC s)) = m_OP s \<and> ready (m_OP s) s \<and>
     (b = CaseCreate \<and> m_OP s \<in> {CREATE, CREATE2} \<or>
      b = CaseCall \<and> m_OP s \<in> {CALL, CALLCODE, DELEGATECALL, STATICCALL})"

definition turned :: "nat \<Rightarrow> 'w vm \<Rightarrow> flow \<Rightarrow> 'w vm \<Rightarrow> bool" where
  "turned n s f t \<longleftrightarrow> m_io_gas t \<le> m_io_gas s \<and> m_code t = m_code s \<and>
     (if f = BREAK then m_bounce t = None \<or> (\<exists>b. m_bounce t = Some b \<and> calling n b t)
      else head n t \<and> m_io_gas t < m_io_gas s)"

lemma turned_step:
  assumes "head n s" "fetched s t" "did (instruction (m_code s ! unat (m_PC s))) t f u"
    and "f = NEXT \<Longrightarrow> push_len (instruction (m_code s ! unat (m_PC s))) = 0"
    and "f \<noteq> BREAK \<Longrightarrow> unat (m_PC s) < n"
  shows "turned n s f (if f = NEXT then u\<lparr>m_PC := m_PC u + 1\<rparr> else u)"
proof -
  let ?op = "instruction (m_code s ! unat (m_PC s))"
  have fr: "frame t u" using assms(3) by (simp add: did_def)
  have r: "ready ?op t" and io: "m_io_gas t = m_io_gas s" and code: "m_code t = m_code s"
    and jd: "m_jumpDests t = m_jumpDests s" and pc: "m_PC t = m_PC s"
    using assms(2) by (simp_all add: fetched_def)
  show ?thesis
  proof (cases "f = BREAK")
    case False
    then have w: "walk n (m_code s) 0 (unat (if f = NEXT then m_PC u + 1 else m_PC u))"
      using did_walk [OF assms(1-4)] assms(5) by simp
    have "0 \<le> m_SPP t \<and> m_SPP t \<le> 1024" using r by (auto simp: ready_def)
    with fr r code jd assms(1) w have "head n (if f = NEXT then u\<lparr>m_PC := m_PC u + 1\<rparr> else u)"
      by (auto simp: head_def frame_def ready_def)
    moreover have "m_io_gas u < m_io_gas s" using assms(3) io False by (auto simp: did_def split: flow.splits)
    moreover have "m_code u = m_code s" using fr code by (simp add: frame_def)
    ultimately show ?thesis using False by (auto simp: turned_def less_imp_le)
  next
    case True
    with assms(3) have le: "m_io_gas u \<le> m_io_gas s" and lv: "leaves ?op t u"
      by (simp_all add: did_def io)
    have cu: "m_code u = m_code s" using fr code by (simp add: frame_def)
    show ?thesis
    proof (cases "m_bounce u")
      case None
      with True le cu show ?thesis by (simp add: turned_def)
    next
      case (Some b)
      with lv obtain k tr where u: "u = t\<lparr>m_nSteps := k, m_trace := tr, m_bounce := Some b\<rparr>"
        and b: "b = CaseCreate \<and> ?op \<in> {CREATE, CREATE2} \<or>
          b = CaseCall \<and> ?op \<in> {CALL, CALLCODE, DELEGATECALL, STATICCALL}"
        by (auto simp: leaves_def)
      have ru: "ready ?op u" using r u by (simp add: ready_def)
      have "unat (m_PC s) < n"
      proof (rule ccontr)
        assume "\<not> unat (m_PC s) < n"
        then have "?op = STOP"
          using assms(1) head_PC [OF assms(1)] by (simp add: head_def prepared_def instruction_bytes)
        with b show False by simp
      qed
      moreover have "m_OP u = ?op" using ru by (simp add: ready_def)
      ultimately have "calling n b u"
        using u ru b assms(1) code jd pc by (simp add: calling_def head_def)
      with True le Some cu show ?thesis by (simp add: turned_def)
    qed
  qed
qed

lemma interpretOne_ok:
  assumes "head n s"
  shows "wp (interpretOne K E) (\<lambda>f t. turned n s f t \<and> \<not> unpriced (m_code s ! unat (m_PC s))) (stuck s) s"
proof -
  let ?op = "instruction (m_code s ! unat (m_PC s))"
  have ns: "\<not> synthetic ?op"
  proof (cases "unat (m_PC s) < n")
    case False
    then show ?thesis
      using assms head_PC [OF assms] by (simp add: head_def prepared_def instruction_bytes synthetic_def)
  qed (use assms in \<open>simp add: head_def prepared_def\<close>)
  have "wp (bindE (interpretCase K E (m_OP t)) (\<lambda>f. if f = NEXT then thenE incPC (ret f) else ret f))
      (\<lambda>f t. turned n s f t \<and> \<not> unpriced (m_code s ! unat (m_PC s))) (stuck s) t"
    if t: "fetched s t" and p: "\<not> unpriced (m_code s ! unat (m_PC s))" for t
  proof -
    have r: "ready ?op t" and io: "m_io_gas t = m_io_gas s" using t by (simp_all add: fetched_def)
    then have op: "m_OP t = ?op" by (simp add: ready_def)
    have ic: "in_code ?op t" using head_in_code [OF assms] t by (simp add: in_code_def fetched_def)
    have flow: "wp (interpretCase K E ?op)
        (\<lambda>f u. (f = NEXT \<longrightarrow> push_len ?op = 0) \<and> (f \<noteq> BREAK \<longrightarrow> unat (m_PC s) < n)) (\<lambda>_ _. True) t"
    proof (cases "unat (m_PC s) < n")
      case False
      then have "?op = STOP"
        using assms head_PC [OF assms] by (simp add: head_def prepared_def instruction_bytes)
      then show ?thesis using stop_flow [of K E t] by (auto simp: wp_def split: prod.splits sum.splits)
    next
      case True
      show ?thesis
      proof (cases "push_len ?op = 0")
        case False
        then have p: "?op = PUSH (push_len ?op)" by (rule push_len_pos)
        have "wp (interpretCase K E ?op) (\<lambda>f t. f = CONTINUE) (\<lambda>_ _. True) t"
          by (subst p, rule push_flow) (use r ic p False in simp_all)
        with True show ?thesis by (auto simp: wp_def split: prod.splits sum.splits)
      qed (use True in \<open>simp add: wp_def split: prod.splits sum.splits\<close>)
    qed
    show ?thesis
      unfolding op
    proof (rule wp_bind, rule wp_weaken [OF wp_conj [OF interpretCase_ok [OF r ic refl ns] flow]], goal_cases)
      case (1 f u)
      then have "turned n s f (if f = NEXT then u\<lparr>m_PC := m_PC u + 1\<rparr> else u)"
        using turned_step [OF assms t, of f u] by simp
      with p show ?case by (auto simp: incPC_def wp_def thenE_def bindE_def)
    next
      case (2 e u)
      then show ?case using io p by (simp add: failed_def stuck_def)
    qed
  qed
  then show ?thesis
    unfolding interpretOne_def
    by (intro wp_then wp_weaken [OF fetch_ok [OF assms]] wp_bind [of "getE _"] wp_get) auto
qed



text \<open>What a case did that did not fail.\<close>

lemma not_synthetic:
  assumes "prepared n C D" "walk n C 0 q"
  shows "\<not> synthetic (instruction (C ! q))"
proof (cases "q < n")
  case False
  with assms walk_end [OF assms(2)] show ?thesis
    by (simp add: prepared_def instruction_bytes synthetic_def)
qed (use assms in \<open>simp add: prepared_def\<close>)

lemma interpretOne_InrD:
  fixes E :: "('e, 'w) ExtVMFace"
  assumes "interpretOne K E s = (Inr f, t)"
  shows "\<exists>s1 u. (fetchInstruction :: ('e, 'w, unit) vmE) s = (Inr (), s1) \<and>
    interpretCase K E (m_OP s1) s1 = (Inr f, u) \<and> t = (if f = NEXT then u\<lparr>m_PC := m_PC u + 1\<rparr> else u)"
proof -
  from thenE_InrD [OF assms [unfolded interpretOne_def]] obtain x s1
    where 1: "(fetchInstruction :: ('e, 'w, unit) vmE) s = (Inr x, s1)"
      and m: "bindE (interpretCase K E (m_OP s1)) (\<lambda>f. if f = NEXT then thenE incPC (ret f) else ret f) s1 = (Inr f, t)"
    by (auto simp: bindE_def)
  from bindE_InrD [OF m] obtain g u where "interpretCase K E (m_OP s1) s1 = (Inr g, u)"
    "(if g = NEXT then thenE incPC (ret g) else ret g :: ('e, 'w, flow) vmE) u = (Inr f, t)" by blast
  with 1 show ?thesis by (cases "g = NEXT") (auto simp: incPC_def)
qed

lemma did_of:
  fixes E :: "('e, 'w) ExtVMFace"
  assumes "head n s" "fetched s s1" "op = instruction (m_code s ! unat (m_PC s))"
    and "interpretCase K E op s1 = (Inr f, u)"
  shows "did op s1 f u"
proof -
  have "\<not> synthetic op" using not_synthetic [of n "m_code s" "m_jumpDests s"] assms(1,3) by (simp add: head_def)
  moreover have "ready op s1" "in_code op s1"
    using head_in_code [OF assms(1)] assms(2,3) by (simp_all add: fetched_def in_code_def)
  ultimately show ?thesis using wpD_Inr [OF interpretCase_ok [OF _ _ assms(3)] assms(4)] by simp
qed


section \<open>The loop\<close>

text \<open>Code in which some instruction starts with a byte that has no price.\<close>

definition faulty :: "nat \<Rightarrow> bytes \<Rightarrow> bool" where
  "faulty n code \<longleftrightarrow> (\<exists>q < n. walk n code 0 q \<and> unpriced (code ! q))"

lemma head_faulty:
  assumes "head n s" "unpriced (m_code s ! unat (m_PC s))"
  shows "faulty n (m_code s)"
proof -
  have "unat (m_PC s) < n"
  proof (rule ccontr)
    assume "\<not> unat (m_PC s) < n"
    then have "instruction (m_code s ! unat (m_PC s)) = STOP"
      using assms(1) head_PC [OF assms(1)] by (simp add: head_def prepared_def instruction_bytes)
    with assms(2) show False by (simp add: unpriced_def info_def)
  qed
  with assms show ?thesis by (auto simp: faulty_def head_def)
qed

text \<open>Where the interpreter loop ends: with an exception, at the end of the code, or at a call.\<close>

definition left_at :: "nat \<Rightarrow> 'w vm \<Rightarrow> ('e vm_exn + unit) \<times> 'w vm \<Rightarrow> bool" where
  "left_at n s = (\<lambda>(r, t). m_io_gas t \<le> m_io_gas s \<and> (case r of
       Inl e \<Rightarrow> e = OutOfRange \<longrightarrow> faulty n (m_code s)
     | Inr _ \<Rightarrow> m_code t = m_code s \<and> (m_bounce t = None \<or> (\<exists>b. m_bounce t = Some b \<and> calling n b t))))"

lemma interpretCases_returns:
  "head n s \<Longrightarrow> \<exists>res. interpretCases K E s = Some res \<and> left_at n s res"
proof (induction "unat (m_io_gas s)" arbitrary: s rule: less_induct)
  case less
  note w = interpretOne_ok [OF less.prems, of K E]
  show ?case
  proof (cases "interpretOne K E s")
    case (Pair r t)
    show ?thesis
    proof (cases r)
      case (Inl e)
      with w Pair have "stuck s e t" by (simp add: wp_def)
      with Pair Inl head_faulty [OF less.prems] show ?thesis
        by (subst interpretCases.simps) (simp add: left_at_def stuck_def)
    next
      case (Inr f)
      with w Pair have t: "turned n s f t" by (simp add: wp_def)
      show ?thesis
      proof (cases "f = BREAK")
        case True
        with t Pair Inr show ?thesis
          by (subst interpretCases.simps) (simp add: left_at_def turned_def)
      next
        case False
        with t have h: "head n t" and l: "m_io_gas t < m_io_gas s" and c: "m_code t = m_code s" by (simp_all add: turned_def)
        then obtain res where res: "interpretCases K E t = Some res" "left_at n t res"
          using less.hyps [of t] by (auto simp: word_less_nat_alt)
        have "interpretCases K E s = Some res"
          using Pair Inr False res(1) by (subst interpretCases.simps) simp
        moreover have "left_at n s res"
          using res(2) l c by (auto simp: left_at_def split: prod.splits sum.splits)
        ultimately show ?thesis by blast
      qed
    qed
  qed
qed

end
