(* ===== verification/VmCall.thy ===== *)
theory VmCall
  imports VmRun
begin

text \<open>
  The cases that call out, \<open>caseCreate\<close> and \<open>caseCall\<close>, against what they rely on from
  the interface: a call leaves no more gas than it was given. With them \<open>VM::exec\<close> returns
  and hands back no more gas than it got.
\<close>

section \<open>What the interface promises\<close>

definition gas_lawful :: "('e, 'w) ExtVMFace \<Rightarrow> bool" where
  "gas_lawful E \<longleftrightarrow>
     (\<forall>v g code op salt o' x a out g' x'.
        x_create E v g code op salt o' x = (Inr (a, out, g'), x') \<longrightarrow> g' \<le> g) \<and>
     (\<forall>p x ok out g' x'. x_call E p x = (Inr (ok, out, g'), x') \<longrightarrow> g' \<le> cp_gas p)"

lemma create_lawful:
  "gas_lawful E \<Longrightarrow> x_create E v g code op salt o' x = (Inr (a, out, g'), x') \<Longrightarrow> g' \<le> g"
  unfolding gas_lawful_def by blast

lemma call_lawful:
  "gas_lawful E \<Longrightarrow> x_call E p x = (Inr (ok, out, g'), x') \<Longrightarrow> g' \<le> cp_gas p"
  unfolding gas_lawful_def by blast

text \<open>The machine after a call: ready for the next instruction, with less gas than before.\<close>

definition called :: "nat \<Rightarrow> 'w vm \<Rightarrow> 'w vm \<Rightarrow> bool" where
  "called n s t \<longleftrightarrow> head n t \<and> m_io_gas t < m_io_gas s \<and> m_bounce t = Some InterpretCases \<and>
     frame s t \<and> m_PC t = m_PC s + 1"

lemma calledI:
  assumes "calling n b s" "frame s t" "m_PC t = m_PC s + 1" "m_io_gas t < m_io_gas s"
    "m_bounce t = Some InterpretCases"
  shows "called n s t"
proof -
  have p: "push_len (instruction (m_code s ! unat (m_PC s))) = 0"
    using assms(1) by (auto simp: calling_def)
  have "walk n (m_code s) 0 (unat (m_PC s) + push_len (instruction (m_code s ! unat (m_PC s))) + 1)"
    using assms(1) by (intro walk_snoc) (auto simp: calling_def)
  moreover have "unat (m_PC s + 1) = Suc (unat (m_PC s))"
    using assms(1) by (intro unat_PC_Suc [of _ n]) (auto simp: calling_def prepared_def)
  moreover have "m_SPP s \<le> 1024" using assms(1) by (auto simp: calling_def ready_def)
  ultimately show ?thesis
    using assms p by (auto simp: called_def head_def calling_def frame_def ready_def)
qed

text \<open>Gas that a creation gave back.\<close>

lemma create_gas:
  assumes "(c :: u256) \<le> ucast (io :: u64)" "g \<le> c"
  shows "(ucast (ucast io - (c - g)) :: u64) \<le> io"
proof -
  have u: "unat (ucast io :: u256) = unat io" by (simp add: unat_ucast_le)
  have a: "unat (c - g) = unat c - unat g" using assms(2) by (simp add: unat_sub word_le_nat_alt)
  have "c - g \<le> ucast io" using assms a u by (simp add: word_le_nat_alt)
  then have "unat (ucast io - (c - g)) = unat io - (unat c - unat g)"
    by (simp add: unat_sub a u)
  then have l: "unat (ucast io - (c - g)) \<le> unat io" by simp
  moreover have "unat io < 2 ^ 64" using unsigned_less [of io, where ?'a = nat] by simp
  ultimately have "unat (ucast (ucast io - (c - g)) :: u64) = unat (ucast io - (c - g))"
    by (intro unat_down) simp
  with l show ?thesis by (simp add: word_le_nat_alt)
qed

lemma most_of_gas: "(p :: u256) - p div 64 \<le> p"
proof -
  have "p div 64 \<le> p" by (simp add: word_le_nat_alt unat_div)
  then show ?thesis by (simp add: word_le_nat_alt unat_sub)
qed

lemma paid_after: "0 < g \<Longrightarrow> (g :: u64) \<le> x \<Longrightarrow> y \<le> x - g \<Longrightarrow> y < x"
  using paid [of g x] by (rule le_less_trans [rotated])

lemma wp_createArgs:
  assumes "0 \<le> m_SP s" "m_SP s + (if m_OP s = CREATE then 3 else 4) \<le> int (length (m_stack s))"
    and "\<And>v salt off sz. Q (v, salt, off, sz) s"
  shows "wp createArgs Q R s"
  unfolding createArgs_def by (intro wp_rule) (use assms in \<open>auto split: if_splits\<close>)

lemma wp_createRun:
  assumes "gas_lawful E" "0 \<le> m_SPP s" "m_SPP s < int (length (m_stack s))" "covers off sz (length (m_mem s))"
    and "\<And>e x p. R (ExtException e) (s\<lparr>m_io_gas_p := p, m_ext := x\<rparr>)"
    and "\<And>p x st rd io. io \<le> m_io_gas s \<Longrightarrow> length st = length (m_stack s) \<Longrightarrow>
      Q () (s\<lparr>m_ext := x, m_stack := st, m_returnData := rd, m_io_gas_p := p, m_io_gas := io\<rparr>)"
  shows "wp (createRun E (endowment, salt, off, sz)) Q R s"
proof -
  let ?cg = "\<lambda>s. if \<not> staticCallDepthLimit (m_schedule s) then m_io_gas_p s - m_io_gas_p s div 64
    else m_io_gas_p s"
  have c: "?cg (s\<lparr>m_io_gas_p := ucast (m_io_gas s)\<rparr>) \<le> ucast (m_io_gas s)"
    using most_of_gas [of "ucast (m_io_gas s)"] by simp
  have g: "(ucast (ucast (m_io_gas s) - (?cg (s\<lparr>m_io_gas_p := ucast (m_io_gas s)\<rparr>) - gas)) :: u64) \<le> m_io_gas s"
    if "gas \<le> ?cg (s\<lparr>m_io_gas_p := ucast (m_io_gas s)\<rparr>)" for gas
    using create_gas [OF c that] .
  show ?thesis
    unfolding createRun_def prod.case
    by (intro wp_then wp_bind wp_upd wp_get wp_rdMem wp_case_prod wp_viaExt wp_setSPP)
      (use assms g in \<open>auto simp del: if_split intro!: assms(6) dest!: create_lawful [OF assms(1)] dest: covers_region\<close>)
qed

lemma caseCreate_ok:
  assumes "calling n CaseCreate s" "gas_lawful E"
  shows "wp (caseCreate E) (\<lambda>_. called n s) (failed s) s"
proof -
  have r: "ready (m_OP s) s" and op: "m_OP s = CREATE \<or> m_OP s = CREATE2"
    using assms(1) by (auto simp: calling_def)
  have sp: "0 \<le> m_SP s" "m_SP s + (if m_OP s = CREATE then 3 else 4) \<le> int (length (m_stack s))"
    "0 \<le> m_SPP s" "m_SPP s < int (length (m_stack s))" "m_copyMemSize s = 0" "sched_ok (m_schedule s)"
    using r op by (auto simp: ready_def info_def)
  have cg: "createGas (m_schedule s) \<noteq> 0" using sp(6) by (simp add: sched_ok_def)
  show ?thesis
    unfolding caseCreate_def incPC_def
    by (intro wp_then wp_upd wp_bind [of "sched _"] wp_sched wp_setRunGas wp_bind [of createArgs]
        wp_createArgs wp_case_prod wp_need wp_updateIOGas wp_bind [of "bindE _ _"] wp_bind [of "getE _"]
        wp_get wp_viaExt wp_if wp_createRun [OF assms(2)] wp_setSPP)
      (use sp cg in \<open>auto simp: failed_def metered_set paid_le frame_def
        paid
        intro!: calledI [OF assms(1)] intro: paid_after dest!: price_paid\<close>)
qed



section \<open>Calls\<close>

text \<open>The value a call transfers, and the least that is charged before the call is made.\<close>

definition call_value :: "'w vm \<Rightarrow> u256" where
  "call_value s = (if m_OP s = CALL \<or> m_OP s = CALLCODE then m_stack s ! nat (m_SP s + 2) else 0)"

definition call_base :: "'w vm \<Rightarrow> nat" where
  "call_base s = unat (callGas (m_schedule s)) +
     (if call_value s > 0 then unat (callValueTransferGas (m_schedule s)) else 0)"

lemma small_sum:
  assumes "unat (a :: u64) < 2 ^ 34" "unat (b :: u64) < 2 ^ 32"
  shows "unat (a + b) = unat a + unat b"
  using assms by (subst unat_add_lem [THEN iffD1]) auto

lemma u32_price: "unat (p :: u32) < 2 ^ 32"
  using unsigned_less [of p, where ?'a = nat] by simp

lemma wp_callCharge:
  fixes E :: "('e, 'w) ExtVMFace"
  assumes "ready op s" "op \<in> {CALL, CALLCODE, DELEGATECALL, STATICCALL}"
    and R: "\<And>e g x. e \<noteq> OutOfRange \<Longrightarrow> R e (s\<lparr>m_runGas := g, m_ext := x\<rparr>)"
    and Q: "\<And>g x. call_base s \<le> unat g \<Longrightarrow> unat g < 2 ^ 35 \<Longrightarrow> Q () (s\<lparr>m_runGas := g, m_ext := x\<rparr>)"
  shows "wp (callCharge E op) Q R s"
proof -
  let ?c = "m_schedule s" and ?v = "m_stack s ! nat (m_SP s + 2)"
  note pr = u32_price [of "callGas ?c"] u32_price [of "callNewAccountGas ?c"]
    u32_price [of "callValueTransferGas ?c"]
  have op: "m_OP s = op" using assms(1) by (simp add: ready_def)
  have comm: "s\<lparr>m_ext := x, m_runGas := g\<rparr> = s\<lparr>m_runGas := g, m_ext := x\<rparr>" for g x
    by (cases s) simp
  have R1: "R e (s\<lparr>m_runGas := g\<rparr>)" if "e \<noteq> OutOfRange" for e g
    using R [OF that, of "m_ext s" g] by simp
  have R0: "R e s" if "e \<noteq> OutOfRange" for e using R1 [OF that, of "m_runGas s"] by simp
  have Q1: "Q () (s\<lparr>m_runGas := g\<rparr>)" if "call_base s \<le> unat g" "unat g < 2 ^ 35" for g
    using Q [OF that, of "m_ext s"] by simp
  define F :: "('e, 'w, unit) vmE" where "F = (if op = CALL \<or> op = CALLCODE
      then bindE (SP 2) (\<lambda>v. if v > 0 then bindE (sched callValueTransferGas) addRunGas else ret ())
      else ret ())"
  have fin: "wp F Q R (s\<lparr>m_runGas := g, m_ext := x\<rparr>)"
    if "unat (callGas ?c) \<le> unat g" "unat g < 2 ^ 34" for g x
    unfolding F_def
    by (intro wp_if wp_bind wp_SP wp_sched wp_addRunGas wp_ret)
      (use assms(1) that pr op small_sum [OF that(2)] in
        \<open>auto simp: ready_def info_def call_base_def call_value_def comm intro!: R Q\<close>)
  have fin1: "wp F Q R (s\<lparr>m_runGas := g\<rparr>)"
    if "unat (callGas ?c) \<le> unat g" "unat g < 2 ^ 34" for g
    using fin [OF that, of "m_ext s"] by simp
  have mid: "wp (if op = CALL
       then bindE (SP 1) (\<lambda>to'. bindE (viaExt (x_exists E (asAddress to'))) (\<lambda>ex.
         bindE (SP 2) (\<lambda>v. bindE (getE m_schedule) (\<lambda>c.
         if \<not> ex \<and> (v > 0 \<or> zeroValueTransferChargesNewAccountGas c)
         then addRunGas (unat (callNewAccountGas c)) else ret ()))))
       else ret ()) (\<lambda>_. wp F Q R) R (s\<lparr>m_runGas := g\<rparr>)"
    if g: "unat g = unat (callGas ?c)" for g
    by (intro wp_if wp_bind wp_SP wp_viaExt wp_get wp_addRunGas wp_ret)
      (use assms(1) g pr small_sum [of g] in
        \<open>auto simp: ready_def info_def comm intro!: R R1 fin fin1\<close>)
  show ?thesis
    unfolding callCharge_def F_def [symmetric]
    by (intro wp_then wp_bind [of "sched _"] wp_sched wp_setRunGas mid)
      (use pr in \<open>auto intro: R0\<close>)
qed

text \<open>What preparing a call leaves alone.\<close>

definition kept :: "'w vm \<Rightarrow> 'w vm \<Rightarrow> bool" where
  "kept s t \<longleftrightarrow> frame s t \<and> m_SP t = m_SP s \<and> m_stack t = m_stack s \<and> m_OP t = m_OP s \<and>
     m_PC t = m_PC s \<and> m_bounce t = m_bounce s \<and> m_copyMemSize t = m_copyMemSize s"

lemma kept_trans: "kept s t \<Longrightarrow> kept t u \<Longrightarrow> kept s u"
  by (simp add: kept_def frame_def)

lemma callCharge_ok:
  assumes "ready op s" "op \<in> {CALL, CALLCODE, DELEGATECALL, STATICCALL}"
  shows "wp (callCharge E op) (\<lambda>_ t. kept s t \<and> m_io_gas t = m_io_gas s \<and>
    call_base s \<le> unat (m_runGas t) \<and> unat (m_runGas t) < 2 ^ 35) (failed s) s"
  by (rule wp_callCharge [OF assms]) (auto simp: kept_def frame_def failed_def)

lemma callRegions_ok:
  assumes "metered s" "0 \<le> m_SP s" "m_SP s + int k + 4 \<le> int (length (m_stack s))"
  shows "wp (callRegions k) (\<lambda>(a, b, c, d) t. kept s t \<and> covers a b (length (m_mem t)) \<and>
    covers c d (length (m_mem t)) \<and> unat (m_io_gas t) + unat (m_runGas s) \<le> unat (m_io_gas s)) (failed s) s"
  unfolding callRegions_def
  by (intro wp_bind wp_SP wp_then wp_memNeed wp_updateMem wp_updateIOGas wp_ret)
    (use assms in \<open>auto simp: kept_def frame_def failed_def covers_def max_def word_le_nat_alt unat_sub
      split: if_splits\<close>)

lemma callGasGiven_ok:
  assumes "0 \<le> m_SP s" "m_SP s < int (length (m_stack s))"
  shows "wp callGasGiven (\<lambda>gas t. kept s t \<and> m_mem t = m_mem s \<and>
    unat gas + unat (m_io_gas t) \<le> unat (m_io_gas s)) (failed s) s"
  unfolding callGasGiven_def callAllowance_def
  by (intro wp_bind wp_SP wp_get wp_then wp_setRunGas wp_updateIOGas wp_ret)
    (use assms in \<open>auto simp: kept_def frame_def failed_def word_le_nat_alt unat_sub\<close>)

lemma call_gas:
  assumes "sched_ok (m_schedule s)" "unat (gas :: u256) + io + call_base s \<le> unat (top' :: u64)"
  shows "unat gas + io < unat top'"
    and "call_value s > 0 \<Longrightarrow> unat (gas + ucast (callStipend (m_schedule s))) + io < unat top'"
proof -
  let ?c = "m_schedule s"
  have b: "0 < unat (callGas ?c)" and st: "unat (callStipend ?c) \<le> unat (callValueTransferGas ?c)"
    using assms(1) by (auto simp: sched_ok_def word_le_nat_alt unat_gt_0)
  show "unat gas + io < unat top'" using assms(2) b by (simp add: call_base_def split: if_splits)
  have n: "unat top' < 2 ^ 64" using unsigned_less [of top', where ?'a = nat] by simp
  have u: "unat (ucast (callStipend ?c) :: u256) = unat (callStipend ?c)" by (simp add: unat_ucast_le)
  assume v: "call_value s > 0"
  then have l: "unat gas + unat (callStipend ?c) + io < unat top'"
    using assms(2) b st by (simp add: call_base_def)
  then have "unat (gas + ucast (callStipend ?c)) = unat gas + unat (callStipend ?c)"
    using n u by (subst unat_add_lem [THEN iffD1]) auto
  with l show "unat (gas + ucast (callStipend ?c)) + io < unat top'" by simp
qed

text \<open>
  The call that has been prepared: its gas has left the machine, its output fits in memory,
  and the value it transfers is the one on the stack.
\<close>

definition set_up :: "'w vm \<Rightarrow> CallParameters \<times> (nat \<times> nat) option \<Rightarrow> 'w vm \<Rightarrow> bool" where
  "set_up s r t \<longleftrightarrow> kept s t \<and> unat (cp_gas (fst r)) + unat (m_io_gas t) < unat (m_io_gas s) \<and>
     (\<forall>off sz. snd r = Some (off, sz) \<and> sz \<noteq> 0 \<longrightarrow> off + sz \<le> length (m_mem t)) \<and>
     valueTransfer (fst r) = call_value s \<and>
     (m_OP s = CALLCODE \<and> snd r \<noteq> None \<longrightarrow> senderAddress (fst r) = receiveAddress (fst r))"

lemma failed_le: "failed t e u \<Longrightarrow> m_io_gas t \<le> m_io_gas s \<Longrightarrow> failed s e u"
  by (auto simp: failed_def)

lemma callParams_ok:
  assumes "ready op s" "op \<in> {CALL, CALLCODE, DELEGATECALL, STATICCALL}" "kept s t"
    and "covers a b (length (m_mem t))" "covers c d (length (m_mem t))"
    and "unat gas + unat (m_io_gas t) + call_base s \<le> unat (m_io_gas s)"
  shows "wp (callParams E op (a, b, c, d) gas) (set_up s) (failed s) t"
proof -
  have op: "m_OP s = op" "sched_ok (m_schedule s)" using assms(1) by (simp_all add: ready_def)
  have k: "m_SP t = m_SP s" "m_stack t = m_stack s" "m_schedule t = m_schedule s"
    using assms(3) by (simp_all add: kept_def frame_def)
  have k1: "kept s (t\<lparr>m_ext := x\<rparr>)" for x using assms(3) by (simp add: kept_def frame_def)
  note g = call_gas [OF op(2) assms(6)]
  have l: "m_io_gas t \<le> m_io_gas s" using assms(6) by (simp add: word_le_nat_alt)
  show ?thesis
    unfolding callParams_def prod.case Let_def
    by (intro wp_bind wp_if wp_SP wp_ret wp_get wp_viaExt wp_case_prod wp_rdMem)
      (use assms(1,2) k k1 g l op covers_region [OF assms(4)] covers_region [OF assms(5)] in
        \<open>auto simp: ready_def info_def set_up_def failed_def call_value_def newCallParameters_def\<close>)
qed

lemma caseCallSetup_ok:
  assumes "ready (m_OP s) s" "m_OP s \<in> {CALL, CALLCODE, DELEGATECALL, STATICCALL}"
  shows "wp (caseCallSetup E) (set_up s) (failed s) s"
proof -
  let ?op = "m_OP s" and ?k = "if m_OP s = CALL \<or> m_OP s = CALLCODE then 3 else 2"
  have r: "length (m_stack s) = 1024" "0 \<le> m_SP s" "m_copyMemSize s = 0" "sched_ok (m_schedule s)"
    "m_SP s + int ?k + 4 \<le> 1024"
    using assms by (auto simp: ready_def info_def)
  have given: "wp (bindE callGasGiven (callParams E ?op (a, b, c, d))) (set_up s) (failed s) t"
    if t: "kept s t" "covers a b (length (m_mem t))" "covers c d (length (m_mem t))"
      "unat (m_io_gas t) + call_base s \<le> unat (m_io_gas s)" for a b c d t
  proof -
    have "m_io_gas t \<le> m_io_gas s" using t(4) by (simp add: word_le_nat_alt)
    with t r(1,2,5) show ?thesis
      by (intro wp_bind wp_weaken [OF callGasGiven_ok] callParams_ok [OF assms])
        (auto simp: kept_def frame_def intro: failed_le)
  qed
  have regions: "wp (bindE (callRegions ?k) (\<lambda>rs. bindE callGasGiven (callParams E ?op rs))) (set_up s) (failed s) t"
    if t: "kept s t" "m_io_gas t = m_io_gas s" "call_base s \<le> unat (m_runGas t)" "unat (m_runGas t) < 2 ^ 35" for t
  proof -
    have m: "metered t" "m_SP t = m_SP s" "m_stack t = m_stack s"
      using t(1,4) r metered_set [of t "m_runGas t"] by (auto simp: kept_def frame_def)
    show ?thesis
      by (rule wp_bind, rule wp_weaken [OF callRegions_ok])
        (use t r(1,2,5) m in \<open>auto intro!: given intro: kept_trans failed_le\<close>)
  qed
  show ?thesis
    unfolding caseCallSetup_def
    by (rule wp_bind, rule wp_get, rule wp_then, rule wp_weaken [OF callCharge_ok [OF assms]])
      (elim conjE, rule regions, assumption+)
qed

lemma callRun_ok:
  assumes "gas_lawful E" "set_up s (p, out) t" "0 \<le> m_SPP s" "m_SPP s < int (length (m_stack s))"
  shows "wp (callRun E p out) (\<lambda>gas u. frame s u \<and> m_PC u = m_PC s \<and> m_bounce u = m_bounce s \<and>
    gas \<le> cp_gas p \<and> m_io_gas u = m_io_gas t) (failed s) t"
proof -
  have io: "m_io_gas t \<le> m_io_gas s" and k: "kept s t"
    and m: "\<And>off sz. out = Some (off, sz) \<Longrightarrow> sz \<noteq> 0 \<Longrightarrow> off + sz \<le> length (m_mem t)"
    using assms(2) by (auto simp: set_up_def word_le_nat_alt)
  show ?thesis
  proof (cases out)
    case None
    then show ?thesis
      unfolding callRun_def
      by (simp, intro wp_then wp_setSPP wp_ret) (use assms(3,4) k in \<open>auto simp: kept_def frame_def\<close>)
  next
    case (Some r)
    obtain off sz where "r = (off, sz)" by (cases r)
    with Some show ?thesis
      unfolding callRun_def
      by (simp, intro wp_then wp_bind wp_viaExt wp_case_prod wp_wrMem wp_upd wp_setSPP wp_ret)
        (use assms(3,4) k m [of off sz] io call_lawful [OF assms(1)] in
          \<open>auto simp: kept_def frame_def failed_def min_def split: if_splits\<close>)
  qed
qed

lemma gas_back:
  assumes "unat (c :: u256) + unat (io :: u64) < unat (top' :: u64)" "g \<le> c"
  shows "io + ucast g < top'"
proof -
  have l: "unat g + unat io < unat top'" using assms by (simp add: word_le_nat_alt)
  have n: "unat top' < 2 ^ 64" using unsigned_less [of top', where ?'a = nat] by simp
  have "unat (ucast g :: u64) = unat g" using l n by (intro unat_down) simp
  then have "unat (io + ucast g) = unat io + unat g"
    using l n by (subst unat_add_lem [THEN iffD1]) auto
  with l show ?thesis by (simp add: word_less_nat_alt)
qed

lemma caseCall_ok:
  fixes E :: "('e, 'w) ExtVMFace"
  assumes "calling n CaseCall s" "gas_lawful E"
  shows "wp (caseCall E) (\<lambda>_. called n s) (failed s) s"
proof -
  let ?s = "s\<lparr>m_bounce := Some InterpretCases, m_returnData := []\<rparr>"
  have r: "ready (m_OP ?s) ?s" and op: "m_OP ?s \<in> {CALL, CALLCODE, DELEGATECALL, STATICCALL}"
    using assms(1) by (auto simp: calling_def ready_def)
  have sp: "0 \<le> m_SPP ?s" "m_SPP ?s < int (length (m_stack ?s))"
    using r op by (auto simp: ready_def info_def)
  have f: "failed s e t" if "failed ?s e t" for e :: "'e vm_exn" and t
    using that by (simp add: failed_def)
  have fin: "called n s (u\<lparr>m_io_gas := m_io_gas t + ucast gas, m_PC := m_PC s + 1\<rparr>)"
    if "set_up ?s (p, out) t" "frame ?s u" "m_PC u = m_PC s" "m_bounce u = Some InterpretCases"
      "gas \<le> cp_gas p" "m_io_gas u = m_io_gas t" for p out t u gas
    using that gas_back [of "cp_gas p" "m_io_gas t" "m_io_gas s" gas]
    by (intro calledI [OF assms(1)]) (auto simp: set_up_def frame_def)
  show ?thesis
    unfolding caseCall_def incPC_def
    by (rule wp_then, rule wp_upd, rule wp_bind, rule wp_weaken [OF caseCallSetup_ok [OF r op]],
        rule wp_case_prod, rule wp_bind, rule wp_weaken [OF callRun_ok [OF assms(2) _ sp]])
      (auto intro!: wp_then wp_upd fin f)
qed


section \<open>The trampoline\<close>

definition entered :: "nat \<Rightarrow> bounce \<Rightarrow> 'w vm \<Rightarrow> bool" where
  "entered n b s \<longleftrightarrow> (if b = InterpretCases then head n s else calling n b s)"

definition settled :: "nat \<Rightarrow> 'w vm \<Rightarrow> ('e vm_exn + unit) \<times> 'w vm \<Rightarrow> bool" where
  "settled n s = (\<lambda>(r, t). m_io_gas t \<le> m_io_gas s \<and> (r = Inl OutOfRange \<longrightarrow> faulty n (m_code s)) \<and>
     (r = Inr () \<longrightarrow> m_code t = m_code s))"

definition weight :: "bounce \<Rightarrow> 'w vm \<Rightarrow> nat" where
  "weight b s = 2 * unat (m_io_gas s) + (if b = InterpretCases then 1 else 0)"

lemma run_bounce_ok:
  fixes E :: "('e, 'w) ExtVMFace"
  assumes "entered n b s" "gas_lawful E"
  shows "\<exists>r t. run_bounce opt K E b s = Some (r, t) \<and> settled n s (r, t) \<and>
    (\<forall>b'. r = Inr () \<and> m_bounce t = Some b' \<longrightarrow> entered n b' t \<and> weight b' t < weight b s)"
proof (cases "b = InterpretCases")
  case True
  with assms(1) have "head n s" by (simp add: entered_def)
  from interpretCases_returns [OF this, of K E] obtain r t
    where "interpretCases K E s = Some (r, t)" "left_at n s (r, t)" by auto
  with True show ?thesis
    by (auto simp: run_bounce_def left_at_def settled_def entered_def weight_def calling_def
        word_le_nat_alt split: sum.splits)
next
  case False
  with assms(1) have c: "calling n b s" by (simp add: entered_def)
  define m :: "('e, 'w, unit) vmE" where "m = (if b = CaseCreate then caseCreate E else caseCall E)"
  have rb: "run_bounce opt K E b s = Some (m s)"
    using c by (auto simp: run_bounce_def m_def calling_def)
  have "wp m (\<lambda>_. called n s) (failed s) s"
    using c caseCreate_ok [OF _ assms(2), of n s] caseCall_ok [OF _ assms(2), of n s]
    by (auto simp: m_def calling_def)
  with rb False show ?thesis
    by (cases "m s") (auto simp: wp_def settled_def failed_def called_def entered_def weight_def frame_def
        word_less_nat_alt word_le_nat_alt split: sum.splits)
qed

lemma trampoline_returns:
  assumes "gas_lawful E"
  shows "entered n b s \<Longrightarrow> \<exists>res. trampoline opt K E b s = Some res \<and> settled n s res"
proof (induction "weight b s" arbitrary: b s rule: less_induct)
  case less
  obtain r t where rt: "run_bounce opt K E b s = Some (r, t)" "settled n s (r, t)"
    "\<And>b'. r = Inr () \<Longrightarrow> m_bounce t = Some b' \<Longrightarrow> entered n b' t \<and> weight b' t < weight b s"
    using run_bounce_ok [OF less.prems assms, of opt K] by blast
  show ?case
  proof (cases "\<exists>b'. r = Inr () \<and> m_bounce t = Some b'")
    case False
    with rt show ?thesis by (subst trampoline.simps) (auto split: sum.splits option.splits)
  next
    case True
    then obtain b' where b': "r = Inr ()" "m_bounce t = Some b'" by blast
    with less.hyps [of b' t] rt(3) obtain res where "trampoline opt K E b' t = Some res" "settled n t res"
      by blast
    with rt b' show ?thesis
      by (subst trampoline.simps) (auto simp: settled_def)
  qed
qed

text \<open>The machine that \<open>initEntry\<close> hands to the loop, without the second pass.\<close>

lemma init_head:
  fixes E :: "('e, 'w) ExtVMFace"
  assumes "length (ext_code x) < 2 ^ 63" "sched_ok (x_evmSchedule E x)"
    and "initEntry False (start E gas x onOp) = (r :: 'e vm_exn + unit, t)"
  shows "r = Inr () \<and> head (length (ext_code x)) t \<and> m_bounce t = Some InterpretCases \<and> m_io_gas t = ucast gas \<and>
    m_code t = fst (jumpdest_pass (length (ext_code x)) 0 (copyCode 33 (ext_code x)) [])"
proof -
  obtain c D where p: "jumpdest_pass (length (ext_code x)) 0 (copyCode 33 (ext_code x)) [] = (c, D)"
    by (cases "jumpdest_pass (length (ext_code x)) 0 (copyCode 33 (ext_code x)) []")
  show ?thesis
    using assms(3) jumpdest_pass_prepared [OF assms(1) p] assms(2) p
    by (auto simp: initEntry_def optimize_def start_def newVM_def head_def stackEnd_def exc_defs
        intro: walk_here)
qed

lemma exec_plain_returns:
  fixes E :: "('e, 'w) ExtVMFace"
  assumes "length (ext_code x) < 2 ^ 63" "sched_ok (x_evmSchedule E x)" "gas_lawful E"
  shows "\<exists>r gas' x'. exec False K E gas x onOp = Some (r, gas', x') \<and> gas' \<le> gas \<and>
    (r = Inl OutOfRange \<longrightarrow> faulty (length (ext_code x)) (fst (jumpdest_pass (length (ext_code x)) 0 (copyCode 33 (ext_code x)) [])))"
proof -
  obtain r :: "'e vm_exn + unit" and t where i: "initEntry False (start E gas x onOp) = (r, t)"
    by (cases "initEntry False (start E gas x onOp) :: ('e vm_exn + unit) \<times> 'w vm")
  note h = init_head [OF assms(1,2) i]
  from h have e: "entered (length (ext_code x)) InterpretCases t" by (simp add: entered_def)
  obtain res u where u: "trampoline False K E InterpretCases t = Some (res, u)"
      "settled (length (ext_code x)) t (res, u)"
    using trampoline_returns [OF assms(3) e] by (metis prod.exhaust)
  have g: "ucast (m_io_gas u) \<le> gas" if "m_io_gas u \<le> ucast gas" for u
  proof -
    have "unat (ucast gas :: u64) \<le> unat gas" by (simp add: unsigned_ucast_eq)
    with that show ?thesis by (simp add: word_le_nat_alt unat_ucast_le)
  qed
  have tr: "trampoline False K E InitEntry (start E gas x onOp) = Some (res, u)"
    using i h u(1) by (subst trampoline.simps) (simp add: run_bounce_def)
  show ?thesis
    using u(2) tr h g [of u] by (cases res) (auto simp: exec_def settled_def)
qed

end
