(* ===== verification/VmBlind.thy ===== *)
theory VmBlind
  imports VmCall
begin

text \<open>
  The optimising pass rewrites the code and fills the pool of constants. Here: which
  computations of the machine do not look at either, and so run alike on machines that
  differ in them.
\<close>

section \<open>Machines that differ in their code\<close>

text \<open>
  Equal but for the code, the pool and the trace; with the flag, the instruction that was
  fetched is the same too.
\<close>

definition er :: "bool \<Rightarrow> 'w vm \<Rightarrow> 'w vm \<Rightarrow> bool" where
  "er b s t \<longleftrightarrow> m_io_gas_p t = m_io_gas_p s \<and> m_io_gas t = m_io_gas s \<and> m_ext t = m_ext s \<and>
     m_onOp t = m_onOp s \<and> m_bounce t = m_bounce s \<and> m_nSteps t = m_nSteps s \<and>
     m_schedule t = m_schedule s \<and> m_output t = m_output s \<and> m_mem t = m_mem s \<and>
     m_returnData t = m_returnData s \<and> m_stack t = m_stack s \<and> m_PC t = m_PC s \<and> m_SP t = m_SP s \<and>
     m_SPP t = m_SPP s \<and> m_runGas t = m_runGas s \<and> m_newMemSize t = m_newMemSize s \<and>
     m_copyMemSize t = m_copyMemSize s \<and> m_jumpDests t = m_jumpDests s \<and> (b \<longrightarrow> m_OP t = m_OP s)"

definition alike :: "bool \<Rightarrow> ('r \<times> 'w vm) \<Rightarrow> ('r \<times> 'w vm) \<Rightarrow> bool" where
  "alike b p q \<longleftrightarrow> fst q = fst p \<and> er b (snd p) (snd q)"

definition blind :: "bool \<Rightarrow> ('e, 'w, 'a) vmE \<Rightarrow> bool" where
  "blind b m \<longleftrightarrow> (\<forall>s t. er b s t \<longrightarrow> alike b (m s) (m t) \<and>
     m_code (snd (m t)) = m_code t \<and> m_pool (snd (m t)) = m_pool t)"

named_theorems blind_rule

lemma er_weaken: "er b s t \<Longrightarrow> er False s t"
  by (simp add: er_def)

lemma blindD:
  "blind b m \<Longrightarrow> er b s t \<Longrightarrow> alike b (m s) (m t)"
  "blind b m \<Longrightarrow> er b s t \<Longrightarrow> m_code (snd (m t)) = m_code t"
  "blind b m \<Longrightarrow> er b s t \<Longrightarrow> m_pool (snd (m t)) = m_pool t"
  by (simp_all add: blind_def)

lemma blind_ret [blind_rule]: "blind b (ret x)"
  by (simp add: blind_def alike_def)

lemma blind_throw [blind_rule]: "blind b (throw e)"
  by (simp add: blind_def alike_def)

lemma blind_bind [blind_rule]:
  assumes "blind b m" "\<And>x. blind b (f x)"
  shows "blind b (bindE m f)"
  unfolding blind_def
proof (intro allI impI)
  fix s t :: "'a vm"
  assume st: "er b s t"
  obtain r s' r' t' where m: "m s = (r, s')" "m t = (r', t')" by (meson surj_pair)
  with blindD [OF assms(1) st] have "r' = r" "er b s' t'" "m_code t' = m_code t" "m_pool t' = m_pool t"
    by (simp_all add: alike_def)
  then show "alike b (bindE m f s) (bindE m f t) \<and>
     m_code (snd (bindE m f t)) = m_code t \<and> m_pool (snd (bindE m f t)) = m_pool t"
    using m blindD [OF assms(2), of s' t'] by (cases r) (auto simp: bindE_def alike_def)
qed

lemma blind_then [blind_rule]: "blind b m \<Longrightarrow> blind b n \<Longrightarrow> blind b (thenE m n)"
  unfolding thenE_def by (rule blind_bind)

lemma blind_get [blind_rule]: "(\<And>s t. er b s t \<Longrightarrow> f t = f s) \<Longrightarrow> blind b (getE f)"
  by (simp add: blind_def alike_def)

lemma blind_upd [blind_rule]:
  "(\<And>s t. er b s t \<Longrightarrow> er b (f s) (f t) \<and> m_code (f t) = m_code t \<and> m_pool (f t) = m_pool t) \<Longrightarrow>
   blind b (updE f)"
  by (simp add: blind_def alike_def)

lemma blind_if [blind_rule]: "blind b m \<Longrightarrow> blind b n \<Longrightarrow> blind b (if c then m else n)"
  by simp

lemma blind_throwIf [blind_rule]: "blind b (throwIf c e)"
  by (simp add: throwIf_def blind_rule)

lemma blind_theE [blind_rule]: "blind b (theE e v)"
  by (cases v) (simp_all add: theE_def blind_rule)

lemma blind_prod [blind_rule]: "(\<And>x y. blind b (f x y)) \<Longrightarrow> blind b (case p of (x, y) \<Rightarrow> f x y)"
  by (cases p) simp

lemma blind_Let [blind_rule]: "(\<And>x. blind b (f x)) \<Longrightarrow> blind b (Let v f)"
  by (simp add: Let_def)

lemma blind_memory [blind_rule]:
  "blind b (SP i)" "blind b (put_stack j v)" "blind b (rdMem off n)" "blind b (wrMem off bs)"
  by (auto simp: blind_def alike_def er_def SP_def put_stack_def rdMem_def wrMem_def Let_def)

lemma blind_viaExt [blind_rule]: "blind b (viaExt m)"
  by (auto simp: blind_def alike_def er_def viaExt_def split: prod.splits sum.splits)

lemma blind_updateIOGas [blind_rule]: "blind b updateIOGas"
  by (auto simp: blind_def alike_def er_def updateIOGas_def)

lemma blind_stack [blind_rule]: "blind b (setSP i v)" "blind b (setSPP v)"
  unfolding setSP_def setSPP_def by (intro blind_rule; simp add: er_def)+

lemma blind_gas [blind_rule]:
  "blind b (toInt63 v)" "blind b (memNeed off sz)" "blind b (setRunGas v)" "blind b (addRunGas v)"
  "blind b (sched f)" "blind b (gasForMem v)"
  unfolding memNeed_def setRunGas_def addRunGas_def sched_def gasForMem_def toInt63_def
  by (intro blind_rule; simp add: er_def)+

lemma blind_onOperation [blind_rule]: "blind b onOperation"
  unfolding onOperation_def by (intro blind_rule) (auto simp: er_def)

lemma blind_updateMem [blind_rule]: "blind b updateGas" "blind b (updateMem v)"
  unfolding updateMem_def updateGas_def by (intro blind_rule; auto simp: er_def)+

lemma blind_adjustStack [blind_rule]: "blind b (adjustStack i j)"
  unfolding adjustStack_def throwBadStack_def by (intro blind_rule; auto simp: er_def)+

lemma blind_charge [blind_rule]: "blind b charge"
  unfolding charge_def by (intro blind_rule)


section \<open>The cases\<close>

lemma blind_plain [blind_rule]:
  "(\<And>s t. er b s t \<Longrightarrow> f t = f s) \<Longrightarrow> blind b (push0 f)" "blind b (unop g)" "blind b (binop h)"
  "blind b (ternop k)" "blind b (priced c)"
  unfolding push0_def unop_def binop_def ternop_def priced_def by (intro blind_rule; auto simp: er_def)+

lemma blind_arith: "blind b (arithCase a)"
  by (cases a) (simp; intro blind_rule; simp add: er_def)+

lemma blind_logic: "blind b (logicCase l)"
  by (cases l) (simp; intro blind_rule; simp add: er_def)+

lemma blind_env: "blind b (envCase E v)"
  by (cases v) (simp; intro blind_rule; simp add: er_def)+

lemma blind_blk: "blind b (blkCase E k)"
  by (cases k) (simp; intro blind_rule; simp add: er_def)+

lemma blind_updateSSGas [blind_rule]: "blind b (updateSSGas E)"
  unfolding updateSSGas_def by (intro blind_rule; auto simp: er_def)

lemma blind_isStatic [blind_rule]: "blind b isStatic"
  unfolding isStatic_def by (intro blind_rule) (simp add: er_def)

lemma blind_mach: "blind b (machCase E m)"
  by (cases m) (simp; intro blind_rule; simp add: er_def)+

lemma blind_copy [blind_rule]:
  "blind b (copyDataToMemory bs i)" "blind b d \<Longrightarrow> blind b (copyCase i d)"
  unfolding copyCase_def copyDataToMemory_def by (intro blind_rule; auto simp: er_def)+

lemma blind_returnRegion [blind_rule]: "blind b returnRegion"
  unfolding returnRegion_def by (intro blind_rule; auto simp: er_def)

lemma blind_SPs [blind_rule]: "blind b (SPs is)"
  by (induction "is") (simp_all only: SPs.simps blind_ret blind_bind blind_memory)

lemma blind_log: "blind b (logCase E n)"
  unfolding logCase_def logGasMem_def by (intro blind_rule; auto simp: er_def)

lemma blind_suicide: "blind b (suicideCase E)"
  unfolding suicideCase_def bounceTo_def by (intro blind_rule; auto simp: er_def)

lemma blind_bounceTo [blind_rule]: "blind b (bounceTo c)"
  unfolding bounceTo_def by (intro blind_rule; auto simp: er_def)

lemma blind_incPC [blind_rule]: "blind b incPC"
  unfolding incPC_def by (intro blind_rule; auto simp: er_def)

lemma blind_jumpTo [blind_rule]: "blind b (jumpTo d)"
  unfolding jumpTo_def by (intro blind_rule; auto simp: er_def)

lemma blind_callCase: "blind b (callCase op)"
  unfolding callCase_def by (intro blind_rule; auto simp: er_def)

lemma blind_others:
  "blind b expCase" "blind b (sha3Case K)" "blind b mloadCase" "blind b mstoreCase" "blind b mstore8Case"
  "blind b returndatacopyCase" "blind b (swapCase n)"
  unfolding expCase_def sha3Case_def mloadCase_def mstoreCase_def mstore8Case_def growFor_def
    returndatacopyCase_def swapCase_def
  by (intro blind_rule; auto simp: er_def)+

lemmas blind_cases = blind_arith blind_logic blind_env blind_blk blind_mach blind_log blind_suicide
  blind_callCase blind_others

text \<open>Only the instructions with immediate bytes look at the code or the pool.\<close>

lemma blind_interpretCase:
  assumes "op \<noteq> PUSHC" "\<And>n. op \<noteq> PUSH n"
  shows "blind b (interpretCase K E op)"
proof (cases op)
  case (PUSH n)
  with assms(2) show ?thesis by blast
next
  case PUSHC
  with assms(1) show ?thesis by simp
qed (simp_all only: interpretCase.simps blind_cases, (intro blind_rule; auto simp: er_def)+)

text \<open>The cases that call out look at the instruction that was fetched.\<close>

lemma blind_caseCreate: "blind True (caseCreate E)"
  unfolding caseCreate_def createArgs_def createRun_def by (intro blind_rule; auto simp: er_def)

lemma blind_callCharge [blind_rule]: "blind b (callCharge E op)"
  unfolding callCharge_def by (intro blind_rule; auto simp: er_def)

lemma blind_callRegions [blind_rule]: "blind b (callRegions k)"
  unfolding callRegions_def by (intro blind_rule)

lemma blind_callGasGiven [blind_rule]: "blind b callGasGiven"
  unfolding callGasGiven_def callAllowance_def by (intro blind_rule; auto simp: er_def)

lemma blind_callParams [blind_rule]: "blind b (callParams E op regions gas)"
  unfolding callParams_def
  by (cases regions; simp only: prod.case; intro blind_rule; auto simp: er_def)

lemma blind_callRun [blind_rule]: "blind b (callRun E p out)"
  unfolding callRun_def by (cases out; simp only: option.case; intro blind_rule; auto simp: er_def)

lemma blind_caseCall: "blind True (caseCall E)"
  unfolding caseCall_def caseCallSetup_def by (intro blind_rule; auto simp: er_def)


section \<open>Fetching\<close>

text \<open>What \<open>fetchInstruction\<close> does once the byte is read.\<close>

definition decode :: "Instruction \<Rightarrow> ('e, 'w, unit) vmE" where
  "decode op = thenE (adjustStack (args (instructionInfo op)) (iret (instructionInfo op)))
    (thenE (bindE (getE (\<lambda>s. length (tierStepGas (m_schedule s))))
              (\<lambda>k. throwIf (k \<le> tier_index (gasPriceTier (instructionInfo op))) OutOfRange))
    (thenE (bindE (sched (\<lambda>c. tier_gas c (gasPriceTier (instructionInfo op)))) setRunGas)
       (updE (\<lambda>s. s\<lparr>m_newMemSize := of_nat (length (m_mem s)), m_copyMemSize := 0\<rparr>))))"

lemma blind_decode: "blind b (decode op)"
  unfolding decode_def by (intro blind_rule; auto simp: er_def)

lemma fetch_decode:
  assumes "unat (m_PC s) < length (m_code s)" "op = instruction (m_code s ! unat (m_PC s))"
  shows "fetchInstruction s = decode op (s\<lparr>m_OP := op\<rparr>)"
  using assms by (simp add: fetchInstruction_def decode_def bindE_def thenE_def codeByte_def)

lemma decode_cong:
  "args (instructionInfo op) = args (instructionInfo op') \<Longrightarrow>
   iret (instructionInfo op) = iret (instructionInfo op') \<Longrightarrow>
   gasPriceTier (instructionInfo op) = gasPriceTier (instructionInfo op') \<Longrightarrow> decode op = decode op'"
  by (simp add: decode_def)

text \<open>Two machines fetch alike when the two instructions cost and move the stack the same.\<close>

lemma fetch_alike:
  fixes s t :: "'w vm"
  assumes "er False s t" "unat (m_PC s) < length (m_code s)" "length (m_code t) = length (m_code s)"
    and "op = instruction (m_code s ! unat (m_PC s))" "op' = instruction (m_code t ! unat (m_PC s))"
    and "(decode op' :: ('e, 'w, unit) vmE) = decode op"
  shows "alike (op = op') ((fetchInstruction :: ('e, 'w, unit) vmE) s) (fetchInstruction t) \<and>
    m_code (snd ((fetchInstruction :: ('e, 'w, unit) vmE) t)) = m_code t \<and>
    m_pool (snd ((fetchInstruction :: ('e, 'w, unit) vmE) t)) = m_pool t"
proof -
  have e: "er (op = op') (s\<lparr>m_OP := op\<rparr>) (t\<lparr>m_OP := op'\<rparr>)" and pc: "m_PC t = m_PC s"
    using assms(1) by (simp_all add: er_def)
  have fs: "(fetchInstruction :: ('e, 'w, unit) vmE) s = decode op (s\<lparr>m_OP := op\<rparr>)"
    by (rule fetch_decode [OF assms(2,4)])
  have "(fetchInstruction :: ('e, 'w, unit) vmE) t = decode op' (t\<lparr>m_OP := op'\<rparr>)"
    by (rule fetch_decode) (use assms(2,3,5) pc in simp_all)
  then have ft: "(fetchInstruction :: ('e, 'w, unit) vmE) t = decode op (t\<lparr>m_OP := op'\<rparr>)"
    unfolding assms(6) .
  show ?thesis using blindD [OF blind_decode e, of op] unfolding fs ft by simp
qed

end
