(* ===== verification/VmOpt.thy ===== *)
theory VmOpt
  imports VmBlind
begin

text \<open>
  The second pass of \<open>VM::optimize\<close>: what it leaves in the code and in the pool of constants
  at every position where an instruction starts.
\<close>

section \<open>Instruction boundaries are linear\<close>

lemma walk_linear: "walk n c p q \<Longrightarrow> walk n c p r \<Longrightarrow> q \<le> r \<Longrightarrow> walk n c q r"
proof (induction rule: walk.induct)
  case (walk_step p q)
  have "p < q" using walk_le [OF walk_step.hyps(2)] by simp
  with walk_step.prems have "walk n c (p + push_len (instruction (c ! p)) + 1) r"
    using walk_cases [of n c p r] by auto
  with walk_step.IH walk_step.prems(2) show ?case by blast
qed

lemma walk_next_le:
  assumes "walk n c p q" "p \<noteq> q"
  shows "p + push_len (instruction (c ! p)) + 1 \<le> q"
  using assms by (cases rule: walkE) (auto dest: walk_le)

text \<open>The instruction before a boundary is unique.\<close>

lemma walk_prev_unique:
  assumes "walk n c 0 p" "walk n c 0 q"
    and "p + push_len (instruction (c ! p)) + 1 = q + push_len (instruction (c ! q)) + 1"
  shows "p = q"
proof (rule ccontr)
  assume "p \<noteq> q"
  then consider "p < q" | "q < p" by linarith
  then show False
  proof cases
    case 1
    then show ?thesis using walk_next_le [OF walk_linear [OF assms(1,2)]] assms(3) by simp
  next
    case 2
    then show ?thesis using walk_next_le [OF walk_linear [OF assms(2,1)]] assms(3) by simp
  qed
qed


section \<open>What the second pass leaves\<close>

text \<open>An instruction that follows the push of a valid jump destination.\<close>

definition landed :: "nat \<Rightarrow> bytes \<Rightarrow> u64 list \<Rightarrow> nat \<Rightarrow> bool" where
  "landed n C D q \<longleftrightarrow> (\<exists>p k. walk n C 0 p \<and> p < n \<and> instruction (C ! p) = PUSH k \<and> q = p + k + 1 \<and>
     verifyJumpDest D (decode_push k p C) \<noteq> None)"

text \<open>A pushed constant, in the code or in the pool.\<close>

definition pooled :: "nat \<Rightarrow> bytes \<Rightarrow> bytes \<Rightarrow> u256 list \<Rightarrow> nat \<Rightarrow> bool" where
  "pooled k C C' P q \<longleftrightarrow> C' ! q = byte_PUSHC \<and> C' ! (q + 3) = of_nat (k - 2) \<and>
     (\<exists>off < 65536. off < length P \<and> P ! off = decode_push k q C \<and>
        C' ! (q + 1) = ucast (drop_bit 8 (of_nat off :: 16 word)) \<and>
        C' ! (q + 2) = ucast ((of_nat off :: 16 word) AND 0xff))"

fun opt_at :: "nat \<Rightarrow> bytes \<Rightarrow> bytes \<Rightarrow> u256 list \<Rightarrow> u64 list \<Rightarrow> nat \<Rightarrow> Instruction \<Rightarrow> bool" where
  "opt_at n C C' P D q (PUSH k) \<longleftrightarrow>
     (if 5 < k then pooled k C C' P q else \<forall>i. q \<le> i \<and> i \<le> q + k \<longrightarrow> C' ! i = C ! i)"
| "opt_at n C C' P D q JUMP \<longleftrightarrow> C' ! q = C ! q \<or> C' ! q = byte_JUMPC \<and> landed n C D q"
| "opt_at n C C' P D q JUMPI \<longleftrightarrow> C' ! q = C ! q \<or> C' ! q = byte_JUMPCI \<and> landed n C D q"
| "opt_at n C C' P D q _ \<longleftrightarrow> C' ! q = C ! q"

text \<open>The byte at the position the pass has reached: the original one, or a jump just rewritten.\<close>

definition reached :: "nat \<Rightarrow> bytes \<Rightarrow> u64 list \<Rightarrow> nat \<Rightarrow> u8 \<Rightarrow> bool" where
  "reached n C D q b \<longleftrightarrow> b = C ! q \<or>
     landed n C D q \<and> (instruction (C ! q) = JUMP \<and> b = byte_JUMPC \<or>
       instruction (C ! q) = JUMPI \<and> b = byte_JUMPCI)"

lemma reached_push:
  "reached n C D q b \<Longrightarrow> push_len (instruction b) = push_len (instruction (C ! q)) \<and>
    (push_len (instruction (C ! q)) \<noteq> 0 \<longrightarrow> b = C ! q)"
  by (auto simp: reached_def instruction_bytes)

lemma reached_opt_at:
  "reached n C D q (C' ! q) \<Longrightarrow> push_len (instruction (C ! q)) = 0 \<Longrightarrow> instruction (C ! q) \<noteq> PUSH 0 \<Longrightarrow>
   opt_at n C C' P D q (instruction (C ! q))"
  by (cases "instruction (C ! q)") (auto simp: reached_def)

lemma reached_jump:
  assumes "walk n C 0 p" "p < n" "instruction (C ! p) = PUSH k" "i = p + k + 1" "i < length c" "c ! i = C ! i"
  shows "reached n C D i (const_jump D i (decode_push k p C) c ! i)"
  using assms by (auto simp: reached_def landed_def const_jump_def Let_def)

lemma pool_constant_spec:
  assumes "pool_constant k pc v (c, P) = (c', P')" "pc + k < length c" "0 < k" "k \<le> 32"
  shows "length c' = length c \<and> (\<forall>i. i < pc \<or> pc + k < i \<longrightarrow> c' ! i = c ! i) \<and>
    (if 5 < k
     then P' = P @ [v] \<and> c' ! pc = byte_PUSHC \<and> c' ! (pc + 3) = of_nat (k - 2) \<and>
       c' ! (pc + 1) = ucast (drop_bit 8 (of_nat (length P) :: 16 word)) \<and>
       c' ! (pc + 2) = ucast ((of_nat (length P) :: 16 word) AND 0xff)
     else P' = P \<and> c' = c)"
  using assms by (auto simp: pool_constant_def Let_def)

lemma const_jump_spec:
  "length (const_jump D i v c) = length c \<and> (\<forall>j. j \<noteq> i \<longrightarrow> const_jump D i v c ! j = c ! j)"
  by (auto simp: const_jump_def Let_def)

lemma decode_push_cong: "(\<And>i. pc < i \<Longrightarrow> c ! i = C ! i) \<Longrightarrow> decode_push k pc c = decode_push k pc C"
  unfolding decode_push_def by (intro foldl_cong) auto

lemma pool_entry:
  assumes "0 < (d :: nat)" "5 < k"
  shows "Suc ((d - Suc k + 6) div 7) \<le> (d + 6) div 7"
proof (cases "d < 7")
  case False
  have "Suc ((d - Suc k + 6) div 7) = (d - Suc k + 13) div 7" by simp
  also have "\<dots> \<le> (d + 6) div 7" using False assms by (intro div_le_mono) simp
  finally show ?thesis .
qed (use assms in simp)

text \<open>The pool does not grow by more than one entry for seven bytes of the code.\<close>

lemma optimize_pass_pool:
  "length (snd (optimize_pass n D pc (c, P))) \<le> length P + (n - pc + 6) div 7"
proof (induction n D pc "(c, P)" arbitrary: c P rule: optimize_pass.induct)
  case (1 n D pc c P)
  show ?case
  proof (cases "pc < n")
    case True
    define k where "k = push_len (instruction (c ! pc))"
    show ?thesis
    proof (cases "k = 0")
      case k: True
      have "length (snd (optimize_pass n D (pc + 1) (c, P))) \<le> length P + (n - (pc + 1) + 6) div 7"
        using "1.hyps"(2) [OF True refl] k by (simp add: k_def)
      also have "\<dots> \<le> length P + (n - pc + 6) div 7" by (intro add_left_mono div_le_mono) simp
      finally show ?thesis using True k by (subst optimize_pass.simps) (simp add: k_def Let_def)
    next
      case k: False
      let ?v = "decode_push k pc c"
      obtain c1 P1 where p: "pool_constant k pc ?v (c, P) = (c1, P1)" by (cases "pool_constant k pc ?v (c, P)")
      have P1: "length P1 = length P + (if 5 < k then 1 else 0)"
        using p by (auto simp: pool_constant_def Let_def split: if_splits)
      have "length (snd (optimize_pass n D (pc + k + 1) (const_jump D (pc + k + 1) ?v c1, P1)))
          \<le> length P1 + (n - (pc + k + 1) + 6) div 7"
        using "1.hyps"(1) [OF True k_def k refl p [symmetric] refl] .
      also have "\<dots> \<le> length P + (n - pc + 6) div 7"
        using True P1 pool_entry [of "n - pc" k] div_le_mono [of "n - (pc + k + 1) + 6" "n - pc + 6" 7]
        by (cases "5 < k") auto
      finally show ?thesis using True k p by (subst optimize_pass.simps) (simp add: k_def Let_def)
    qed
  qed (subst optimize_pass.simps, simp)
qed

text \<open>One pushed constant.\<close>

lemma optimize_push:
  assumes "walk n C 0 pc" "pc < n" "instruction (C ! pc) = PUSH k" "length c = n + 33"
    and "\<And>i. pc \<le> i \<Longrightarrow> c ! i = C ! i" "pool_constant k pc (decode_push k pc C) (c, P) = (c1, P1)"
    and c2: "c2 = const_jump D (pc + k + 1) (decode_push k pc C) c1"
  shows "length c2 = n + 33" "\<And>i. i < pc \<Longrightarrow> c2 ! i = c ! i" "\<And>i. pc + k + 1 < i \<Longrightarrow> c2 ! i = C ! i"
    and "reached n C D (pc + k + 1) (c2 ! (pc + k + 1))" "\<exists>Q. P1 = P @ Q"
    and "(\<And>i. i < pc + k + 1 \<Longrightarrow> c' ! i = c2 ! i) \<Longrightarrow> length (P1 @ Q) \<le> 65536 \<Longrightarrow>
      opt_at n C c' (P1 @ Q) D pc (PUSH k)"
proof -
  have k: "0 < k" "k \<le> 32" using instruction_PUSH [OF assms(3)] by simp_all
  note p = pool_constant_spec [OF assms(6) _ k]
  have len: "pc + k < length c" using assms(2,4) k by simp
  note j = const_jump_spec [of D "pc + k + 1" "decode_push k pc C" c1, folded c2]
  show "length c2 = n + 33" using p [OF len] j assms(4) by simp
  show "c2 ! i = c ! i" if "i < pc" for i using p [OF len] j that by simp
  show "c2 ! i = C ! i" if "pc + k + 1 < i" for i using p [OF len] j that assms(5) by simp
  show "reached n C D (pc + k + 1) (c2 ! (pc + k + 1))"
    unfolding c2 by (rule reached_jump [OF assms(1-3) refl]) (use p [OF len] assms(2,4,5) k in simp_all)
  show "\<exists>Q. P1 = P @ Q" using p [OF len] by (simp split: if_splits)
  show "opt_at n C c' (P1 @ Q) D pc (PUSH k)"
    if c': "\<And>i. i < pc + k + 1 \<Longrightarrow> c' ! i = c2 ! i" and l: "length (P1 @ Q) \<le> 65536"
  proof (cases "5 < k")
    case True
    have "c' ! i = c1 ! i" if "i < pc + k + 1" for i using c' that j by simp
    with True p [OF len] l show ?thesis by (auto simp: pooled_def intro!: exI [of _ "length P"])
  next
    case False
    then show ?thesis using c' p [OF len] j assms(5) by simp
  qed
qed

lemma optimize_pass_spec:
  assumes "optimize_pass n D pc (c, P) = (c', P')" "length P' \<le> 65536" "walk n C 0 pc"
    and "length c = n + 33" "\<And>i. pc < i \<Longrightarrow> c ! i = C ! i" "reached n C D pc (c ! pc)"
    and "\<And>i. n \<le> i \<Longrightarrow> i < n + 33 \<Longrightarrow> C ! i = 0"
  shows "length c' = n + 33 \<and> (\<forall>i < pc. c' ! i = c ! i) \<and> (\<exists>Q. P' = P @ Q) \<and>
    (\<forall>q. walk n C pc q \<longrightarrow> opt_at n C c' P' D q (instruction (C ! q)))"
  using assms
proof (induction n D pc "(c, P)" arbitrary: c P rule: optimize_pass.induct)
  case (1 n D pc c P)
  note rp = reached_push [OF "1.prems"(6)]
  show ?case
  proof (cases "pc < n")
    case False
    then have r: "c' = c" "P' = P" using "1.prems"(1) by (subst (asm) optimize_pass.simps, simp)+
    have stop: "instruction (C ! pc) = STOP"
      using False "1.prems"(7) walk_end [OF "1.prems"(3)] by (simp add: instruction_bytes)
    have "q = pc" if "walk n C pc q" for q using that False by (subst (asm) walk_cases) simp
    moreover have "opt_at n C c' P' D pc (instruction (C ! pc))"
      using "1.prems"(6) stop r by (simp add: reached_def)
    ultimately show ?thesis using r "1.prems"(4) by auto
  next
    case True
    define k where "k = push_len (instruction (C ! pc))"
    have kc: "push_len (instruction (c ! pc)) = k" using rp by (simp add: k_def)
    show ?thesis
    proof (cases "k = 0")
      case k: True
      have "optimize_pass n D (pc + 1) (c, P) = (c', P')"
        using "1.prems"(1) True k kc by (subst (asm) optimize_pass.simps) (simp add: Let_def)
      moreover have "walk n C 0 (pc + 1)" using walk_snoc [OF "1.prems"(3) True] k by (simp add: k_def)
      ultimately have ih: "length c' = n + 33 \<and> (\<forall>i < pc + 1. c' ! i = c ! i) \<and> (\<exists>Q. P' = P @ Q) \<and>
          (\<forall>q. walk n C (pc + 1) q \<longrightarrow> opt_at n C c' P' D q (instruction (C ! q)))"
        using "1.hyps"(2) [OF True refl] kc k "1.prems" by (simp add: reached_def)
      have "instruction (C ! pc) \<noteq> PUSH 0" using instruction_PUSH [of "C ! pc" 0] by auto
      then have "opt_at n C c' P' D pc (instruction (C ! pc))"
        using ih "1.prems"(6) k by (intro reached_opt_at) (simp_all add: k_def)
      with ih True k show ?thesis by (auto simp: k_def walk_cases [of n C pc])
    next
      case k: False
      then have op: "instruction (C ! pc) = PUSH k" using push_len_pos [of "instruction (C ! pc)"] by (simp add: k_def)
      have same: "c ! i = C ! i" if "pc \<le> i" for i
        using rp k "1.prems"(5) that by (cases "i = pc") (auto simp: k_def)
      have v: "decode_push k pc c = decode_push k pc C" by (rule decode_push_cong) (use same in simp)
      obtain c1 P1 where p: "pool_constant k pc (decode_push k pc C) (c, P) = (c1, P1)"
        by (cases "pool_constant k pc (decode_push k pc C) (c, P)")
      define c2 where "c2 = const_jump D (pc + k + 1) (decode_push k pc C) c1"
      note st = optimize_push [OF "1.prems"(3) True op "1.prems"(4) same p c2_def]
      have run: "optimize_pass n D (pc + k + 1) (c2, P1) = (c', P')"
        using "1.prems"(1) True k kc p by (subst (asm) optimize_pass.simps) (simp add: Let_def v c2_def)
      have w: "walk n C 0 (pc + k + 1)" using walk_snoc [OF "1.prems"(3) True] by (simp add: k_def)
      have ih: "length c' = n + 33 \<and> (\<forall>i < pc + k + 1. c' ! i = c2 ! i) \<and> (\<exists>Q. P' = P1 @ Q) \<and>
          (\<forall>q. walk n C (pc + k + 1) q \<longrightarrow> opt_at n C c' P' D q (instruction (C ! q)))"
        by (rule "1.hyps"(1) [OF True kc [symmetric] k v [symmetric] p [symmetric] refl, folded c2_def,
              OF run "1.prems"(2) w st(1,3,4) "1.prems"(7)])
      then obtain Q where Q: "P' = P1 @ Q" by auto
      have "opt_at n C c' P' D pc (PUSH k)" unfolding Q by (rule st(6)) (use ih Q "1.prems"(2) in simp_all)
      with ih Q st(2,5) True op show ?thesis by (auto simp: walk_cases [of n C pc])
    qed
  qed
qed

end
