(* ===== verification/VmSim.thy ===== *)
theory VmSim
  imports VmOpt
begin

text \<open>
  The simulation: the machine that runs the rewritten code takes the same turns as the one
  that runs the original code, and \<open>VM::exec\<close> gives the same result with and without
  \<open>EVM_OPTIMIZE\<close>.
\<close>

section \<open>The relation at the head of the loop\<close>

definition coded :: "nat \<Rightarrow> 'w vm \<Rightarrow> 'w vm \<Rightarrow> bool" where
  "coded n s t \<longleftrightarrow> length (m_code t) = length (m_code s) \<and>
     (\<forall>q. walk n (m_code s) 0 q \<longrightarrow>
        opt_at n (m_code s) (m_code t) (m_pool t) (m_jumpDests s) q (instruction (m_code s ! q)))"

text \<open>A jump that is taken without a check finds a valid destination on the stack.\<close>

definition aimed :: "'w vm \<Rightarrow> 'w vm \<Rightarrow> bool" where
  "aimed s t \<longleftrightarrow> (instruction (m_code t ! unat (m_PC s)) \<in> {JUMPC, JUMPCI} \<longrightarrow>
     verifyJumpDest (m_jumpDests s) (m_stack s ! nat (m_SPP s)) \<noteq> None)"

definition sim :: "nat \<Rightarrow> 'w vm \<Rightarrow> 'w vm \<Rightarrow> bool" where
  "sim n s t \<longleftrightarrow> head n s \<and> er False s t \<and> coded n s t \<and> aimed s t"

lemma opt_jump:
  assumes "prepared n C D" "walk n C 0 q" "opt_at n C C' P D q (instruction (C ! q))"
    and "instruction (C' ! q) \<in> {JUMPC, JUMPCI}"
  shows "landed n C D q"
proof (cases "instruction (C ! q)")
  case (PUSH k)
  with assms(3,4) show ?thesis by (auto simp: pooled_def instruction_bytes split: if_splits)
qed (use assms(3,4) not_synthetic [OF assms(1,2)] in \<open>auto simp: synthetic_def\<close>)

lemma not_landed:
  assumes "landed n C D q" "walk n C 0 p" "q = p + 1" "push_len (instruction (C ! p)) = 0"
  shows False
proof -
  obtain p' k where p': "walk n C 0 p'" "p' < n" "instruction (C ! p') = PUSH k" "q = p' + k + 1"
    using assms(1) by (auto simp: landed_def)
  have "p = p'" by (rule walk_prev_unique [OF assms(2) p'(1)]) (use assms(3,4) p'(3,4) in simp)
  with assms(4) p'(3) instruction_PUSH [OF p'(3)] show False by simp
qed

lemma landed_push:
  assumes "landed n C D q" "walk n C 0 p" "q = p + k + 1" "instruction (C ! p) = PUSH k"
  shows "verifyJumpDest D (decode_push k p C) \<noteq> None"
proof -
  obtain p' k' where p': "walk n C 0 p'" "instruction (C ! p') = PUSH k'" "q = p' + k' + 1"
    "verifyJumpDest D (decode_push k' p' C) \<noteq> None"
    using assms(1) by (auto simp: landed_def)
  have "p = p'" by (rule walk_prev_unique [OF assms(2) p'(1)]) (use assms(3,4) p'(2,3) in simp)
  with assms(4) p'(2,4) show ?thesis by simp
qed


section \<open>One instruction on both machines\<close>

definition agree :: "bool \<Rightarrow> 'w vm \<Rightarrow> ('r \<times> 'w vm) \<Rightarrow> ('r \<times> 'w vm) \<Rightarrow> bool" where
  "agree b t p q \<longleftrightarrow> alike b p q \<and> m_code (snd q) = m_code t \<and> m_pool (snd q) = m_pool t"

lemma charge_keeps:
  fixes s t :: "'w vm"
  assumes "(charge :: ('e, 'w, unit) vmE) s = (Inr x, t)"
  shows "m_SP t = m_SP s \<and> m_SPP t = m_SPP s \<and> m_stack t = m_stack s \<and> m_PC t = m_PC s \<and>
    m_code t = m_code s \<and> m_pool t = m_pool s \<and> m_jumpDests t = m_jumpDests s"
proof -
  have "wp (charge :: ('e, 'w, unit) vmE) (\<lambda>_ t. m_SP t = m_SP s \<and> m_SPP t = m_SPP s \<and>
      m_stack t = m_stack s \<and> m_PC t = m_PC s \<and> m_code t = m_code s \<and> m_pool t = m_pool s \<and>
      m_jumpDests t = m_jumpDests s) (\<lambda>_ _. True) s"
    by (auto intro: wp_charge)
  with assms show ?thesis by (simp add: wp_def)
qed

lemma charge_agree:
  fixes s t :: "'w vm"
  assumes "er b s t"
    and "\<And>s' t'. (charge :: ('e, 'w, unit) vmE) s = (Inr (), s') \<Longrightarrow> er b s' t' \<Longrightarrow> m_code t' = m_code t \<Longrightarrow>
      m_pool t' = m_pool t \<Longrightarrow> agree b t' (f s') (g t')"
  shows "agree b t (thenE (charge :: ('e, 'w, unit) vmE) f s) (thenE charge g t)"
proof -
  have bl: "blind b (charge :: ('e, 'w, unit) vmE)" by (rule blind_charge)
  note c = blindD [OF bl assms(1)]
  obtain r s' r' t' where m: "(charge :: ('e, 'w, unit) vmE) s = (r, s')"
    "(charge :: ('e, 'w, unit) vmE) t = (r', t')" by (meson surj_pair)
  show ?thesis
  proof (cases r)
    case (Inl e)
    with c m show ?thesis by (simp add: agree_def alike_def thenE_def bindE_def)
  next
    case (Inr x)
    with c m have "r' = Inr ()" "er b s' t'" "m_code t' = m_code t" "m_pool t' = m_pool t"
      by (simp_all add: alike_def)
    with assms(2) [of s' t'] m Inr show ?thesis by (simp add: thenE_def bindE_def agree_def)
  qed
qed

text \<open>A jump with and without the check of its destination.\<close>

lemma jump_agree:
  fixes s t :: "'w vm" and E :: "('e, 'w) ExtVMFace"
  assumes "er False s t" "0 \<le> m_SP s" "m_SP s < int (length (m_stack s))"
    and "verifyJumpDest (m_jumpDests s) (m_stack s ! nat (m_SP s)) \<noteq> None"
  shows "agree False t (bindE (SP 0) jumpTo s)
    ((bindE (SP 0) (\<lambda>d. thenE (updE (\<lambda>s. s\<lparr>m_PC := ucast d\<rparr>)) (ret CONTINUE)) :: ('e, 'w, flow) vmE) t)"
  using assms by (auto simp: agree_def alike_def er_def SP_def jumpTo_def bindE_def thenE_def theE_def
      verifyJumpDest_def split: if_splits)

lemma jumpc_agree:
  fixes s t :: "'w vm" and E :: "('e, 'w) ExtVMFace"
  assumes "er False s t" "0 \<le> m_SP s" "m_SP s < int (length (m_stack s))"
    and "verifyJumpDest (m_jumpDests s) (m_stack s ! nat (m_SP s)) \<noteq> None"
  shows "agree False t (interpretCase K E JUMP s) (interpretCase K E JUMPC t)"
  unfolding interpretCase.simps
  by (intro charge_agree [OF assms(1)] jump_agree) (use assms(2-4) in \<open>simp_all add: charge_keeps\<close>)

lemma jumpci_agree:
  fixes s t :: "'w vm" and E :: "('e, 'w) ExtVMFace"
  assumes "er False s t" "0 \<le> m_SP s" "m_SP s + 1 < int (length (m_stack s))"
    and "verifyJumpDest (m_jumpDests s) (m_stack s ! nat (m_SP s)) \<noteq> None"
  shows "agree False t (interpretCase K E JUMPI s) (interpretCase K E JUMPCI t)"
proof -
  have "agree False t' (bindE (SP 1) (\<lambda>c.
       if c \<noteq> 0 then bindE (SP 0) jumpTo else thenE incPC (ret CONTINUE)) s')
    ((bindE (SP 1) (\<lambda>c.
     if c \<noteq> 0 then bindE (SP 0) (\<lambda>d. thenE (updE (\<lambda>s. s\<lparr>m_PC := ucast d\<rparr>)) (ret CONTINUE))
     else thenE incPC (ret CONTINUE)) :: ('e, 'w, flow) vmE) t')"
    if c: "(charge :: ('e, 'w, unit) vmE) s = (Inr (), s')" and e: "er False s' t'" for s' t'
  proof -
    let ?c = "m_stack s ! nat (m_SP s + 1)"
    note k = charge_keeps [OF c]
    have sp: "(SP 1 :: ('e, 'w, u256) vmE) s' = (Inr ?c, s')" "(SP 1 :: ('e, 'w, u256) vmE) t' = (Inr ?c, t')"
      using k e assms(2,3) by (simp_all add: SP_def er_def)
    show ?thesis
    proof (cases "?c = 0")
      case True
      have bl: "blind False (thenE incPC (ret CONTINUE) :: ('e, 'w, flow) vmE)" by (intro blind_rule)
      show ?thesis
        unfolding bindE_Inr [where m = "SP 1", OF sp(1)] bindE_Inr [where m = "SP 1", OF sp(2)] using True blindD [OF bl e] by (simp add: agree_def)
    next
      case False
      then show ?thesis
        unfolding bindE_Inr [where m = "SP 1", OF sp(1)] bindE_Inr [where m = "SP 1", OF sp(2)]
        using jump_agree [OF e, where ?'e = 'e] k assms(2-4) by simp
    qed
  qed
  then show ?thesis unfolding interpretCase.simps by (intro charge_agree [OF assms(1)])
qed

text \<open>A constant pushed from the code, and the same constant from the pool.\<close>

definition placed :: "u256 \<Rightarrow> nat \<Rightarrow> 'w vm \<Rightarrow> 'w vm" where
  "placed v k s = s\<lparr>m_stack := (m_stack s)[nat (m_SPP s) := v], m_PC := m_PC s + 1 + of_nat k\<rparr>"

lemma push_placed:
  fixes s :: "'w vm"
  assumes "0 \<le> m_SPP s" "m_SPP s < int (length (m_stack s))" "0 < k"
    "unat (m_PC s) + k < length (m_code s)" "length (m_code s) < 2 ^ 64"
  shows "(pushCase k :: ('e, 'w, flow) vmE) s =
    thenE charge (\<lambda>t. (Inr CONTINUE, placed (decode_push k (unat (m_PC s)) (m_code s)) k t)) s"
  unfolding pushCase_run [OF assms, where ?'e = 'e]
  by (rule thenE_cong) (simp add: pushed_def placed_def charge_keeps decode_push_shift [OF assms(3)])

lemma pool_offset:
  assumes "off < 65536"
  shows "unat (ucast (drop_bit 8 (of_nat off :: 16 word)) :: u8) * 256 +
    unat (ucast ((of_nat off :: 16 word) AND 0xff) :: u8) = off"
proof -
  have o: "unat (of_nat off :: 16 word) = off" using assms by (simp add: unat_of_nat)
  have "unat (of_nat off div 256 :: 16 word) = off div 256" by (simp add: unat_div o)
  then have "unat (ucast (drop_bit 8 (of_nat off :: 16 word)) :: u8) = off div 256"
    using assms by (simp add: unsigned_ucast_eq drop_bit_eq_div take_bit_nat_eq_self)
  moreover have "(of_nat off :: 16 word) AND 0xff = take_bit 8 (of_nat off)"
    by (simp add: take_bit_eq_mask mask_eq_exp_minus_1)
  then have "unat (ucast ((of_nat off :: 16 word) AND 0xff) :: u8) = off mod 256"
    by (simp add: unsigned_ucast_eq o take_bit_eq_mod unat_mod)
  ultimately show ?thesis by simp
qed

lemma pushc_placed:
  fixes s :: "'w vm"
  assumes "0 \<le> m_SPP s" "m_SPP s < int (length (m_stack s))" "5 < k" "k \<le> 32"
    "unat (m_PC s) + k < length (m_code s)" "length (m_code s) < 2 ^ 64"
    and "pooled k C (m_code s) (m_pool s) (unat (m_PC s))"
  shows "(pushcCase :: ('e, 'w, flow) vmE) s =
    thenE charge (\<lambda>t. (Inr CONTINUE, placed (decode_push k (unat (m_PC s)) C) k t)) s"
proof -
  let ?q = "unat (m_PC s)" and ?c = "m_code s"
  obtain off where off: "off < 65536" "off < length (m_pool s)" "m_pool s ! off = decode_push k ?q C"
    "?c ! (?q + 1) = ucast (drop_bit 8 (of_nat off :: 16 word))"
    "?c ! (?q + 2) = ucast ((of_nat off :: 16 word) AND 0xff)" and rest: "?c ! (?q + 3) = of_nat (k - 2)"
    using assms(7) by (auto simp: pooled_def)
  have u: "unat (m_PC s + 1) = ?q + 1" "unat (m_PC s + 1 + 1) = ?q + 2" "unat (m_PC s + 1 + 1 + 1) = ?q + 3"
    using assms(3,5,6) by (simp_all add: unat_word_ariths)
  have "ucast (of_nat (k - 2) :: u8) = (of_nat (k - 2) :: u64)"
    using assms(4) by (simp add: word_unat_eq_iff unat_ucast_le unat_of_nat)
  moreover have "m_PC s + 1 + 1 + 1 + of_nat (k - 2) = m_PC s + 1 + of_nat k"
    using assms(3) by (simp add: of_nat_diff)
  ultimately have pc: "m_PC s + 1 + 1 + 1 + ucast (of_nat (k - 2) :: u8) = m_PC s + 1 + of_nat k" by simp
  show ?thesis
    unfolding pushcCase_def
  proof (rule thenE_cong)
    fix x t assume "(charge :: ('e, 'w, unit) vmE) s = (Inr x, t)"
    note k = charge_keeps [OF this]
    show "thenE incPC (bindE nextByte (\<lambda>hi. bindE nextByte (\<lambda>lo. bindE (bindE (getE m_PC) codeByte) (\<lambda>k.
        thenE (updE (\<lambda>s. s\<lparr>m_PC := m_PC s + ucast k\<rparr>)) (bindE (getE m_pool) (\<lambda>pool.
        let off = unat hi * 256 + unat lo in
        if off < length pool then thenE (setSPP (pool ! off)) (ret CONTINUE) else throw OutOfRange)))))) t =
      (Inr CONTINUE, placed (decode_push k ?q C) k t)"
      using assms(1-6) k u off rest pc pool_offset [OF off(1)]
      by (simp add: thenE_def bindE_def incPC_def nextByte_run codeByte_def setSPP_def put_stack_def placed_def)
  qed
qed

lemma placed_agree: "er b s t \<Longrightarrow> agree b t (Inr CONTINUE, placed v k s) (Inr CONTINUE, placed v k t)"
  by (simp add: agree_def alike_def placed_def er_def)

lemma push_agree:
  fixes s t :: "'w vm" and E :: "('e, 'w) ExtVMFace"
  assumes "er b s t" "ready (PUSH k) s" "0 < k" "k \<le> 32"
    and "unat (m_PC s) + k < length (m_code s)" "length (m_code s) < 2 ^ 64"
    and "length (m_code t) = length (m_code s)" "instruction (m_code s ! unat (m_PC s)) = PUSH k"
    and "opt_at n (m_code s) (m_code t) (m_pool t) D (unat (m_PC s)) (PUSH k)"
  shows "agree b t (interpretCase K E (PUSH k) s)
    (interpretCase K E (instruction (m_code t ! unat (m_PC s))) t)"
proof -
  let ?v = "decode_push k (unat (m_PC s)) (m_code s)"
  let ?r = "\<lambda>u. (Inr CONTINUE :: 'e vm_exn + flow, placed ?v k u)"
  have st: "0 \<le> m_SPP s" "m_SPP s < int (length (m_stack s))"
    using assms(2) by (auto simp: ready_def info_def)
  have eq: "m_PC t = m_PC s" "m_SPP t = m_SPP s" "m_stack t = m_stack s" using assms(1) by (simp_all add: er_def)
  have s: "interpretCase K E (PUSH k) s = thenE charge ?r s"
    unfolding interpretCase.simps by (rule push_placed [OF st assms(3,5,6)])
  have t: "interpretCase K E (instruction (m_code t ! unat (m_PC s))) t = thenE charge ?r t"
  proof (cases "5 < k")
    case True
    with assms(9) have p: "pooled k (m_code s) (m_code t) (m_pool t) (unat (m_PC t))" by (simp add: eq)
    then have "instruction (m_code t ! unat (m_PC s)) = PUSHC" by (simp add: pooled_def instruction_bytes eq)
    then show ?thesis
      using pushc_placed [of t k "m_code s", where ?'e = 'e] p st eq True assms(4-7) by simp
  next
    case False
    with assms(9) have c: "\<And>i. unat (m_PC s) \<le> i \<Longrightarrow> i \<le> unat (m_PC s) + k \<Longrightarrow> m_code t ! i = m_code s ! i"
      by simp
    have "decode_push k (unat (m_PC s)) (m_code t) = ?v"
      unfolding decode_push_def by (intro foldl_cong) (use c assms(3) in auto)
    then show ?thesis
      using push_placed [of t k, where ?'e = 'e] c [of "unat (m_PC s)"] st eq assms(3,5-8) by simp
  qed
  show ?thesis
    unfolding s t by (rule charge_agree [OF assms(1) placed_agree])
qed

text \<open>The rewritten instruction costs the same and moves the stack the same.\<close>

lemma opt_decode:
  assumes "opt_at n C C' P D q (instruction (C ! q))"
  shows "decode (instruction (C' ! q)) = decode (instruction (C ! q))"
proof (cases "instruction (C ! q)")
  case (PUSH k)
  then show ?thesis
  proof (cases "5 < k")
    case True
    with assms PUSH have "instruction (C' ! q) = PUSHC" by (simp add: pooled_def instruction_bytes)
    then show ?thesis unfolding PUSH by (intro decode_cong) (simp_all add: info_def)
  next
    case False
    with assms PUSH have "C' ! q = C ! q" by simp
    then show ?thesis by simp
  qed
qed (use assms in \<open>auto simp: instruction_bytes info_def intro!: decode_cong\<close>)

lemma opt_rewritten:
  assumes "opt_at n C C' P D q (instruction (C ! q))" "instruction (C' ! q) \<noteq> instruction (C ! q)"
    and "push_len (instruction (C ! q)) = 0"
  shows "instruction (C ! q) = JUMP \<and> instruction (C' ! q) = JUMPC \<or>
    instruction (C ! q) = JUMPI \<and> instruction (C' ! q) = JUMPCI"
  by (cases "instruction (C ! q)") (use assms in \<open>auto simp: instruction_bytes\<close>)

lemma case_agree:
  fixes s t s1 t1 :: "'w vm" and E :: "('e, 'w) ExtVMFace"
  assumes "sim n s t" "fetched s s1" "op = instruction (m_code s ! unat (m_PC s))"
    and "op' = instruction (m_code t ! unat (m_PC s))" "er (op = op') s1 t1"
    and "m_code t1 = m_code t" "m_pool t1 = m_pool t"
  shows "agree (op = op') t1 (interpretCase K E op s1) (interpretCase K E op' t1)"
proof -
  let ?q = "unat (m_PC s)"
  have h: "head n s" and c: "coded n s t" and aim: "aimed s t" using assms(1) by (simp_all add: sim_def)
  have o: "opt_at n (m_code s) (m_code t) (m_pool t) (m_jumpDests s) ?q op"
    using c h assms(3) by (simp add: coded_def head_def)
  have r: "ready op s1" using assms(2,3) by (simp add: fetched_def)
  have top: "m_stack s1 = m_stack s" "m_SP s1 = m_SPP s" "m_jumpDests s1 = m_jumpDests s" "m_PC s1 = m_PC s"
    "m_code s1 = m_code s"
    using assms(2) by (simp_all add: fetched_def)
  show ?thesis
  proof (cases "op = op' \<and> push_len op = 0")
    case True
    have "op \<noteq> PUSHC" using not_synthetic [of n "m_code s" "m_jumpDests s" ?q] h assms(3)
      by (auto simp: head_def synthetic_def)
    moreover have "op \<noteq> PUSH k" for k using True assms(3) instruction_PUSH [of "m_code s ! ?q" k] by auto
    ultimately have "blind (op = op') (interpretCase K E op)" by (intro blind_interpretCase) auto
    from blindD [OF this assms(5)] True show ?thesis by (simp add: agree_def)
  next
    case False
    consider k where "op = PUSH k" "0 < k" | "op = JUMP" "op' = JUMPC" | "op = JUMPI" "op' = JUMPCI"
    proof (cases "push_len op = 0")
      case True
      with False have "op' \<noteq> op" by blast
      with opt_rewritten [of n "m_code s" "m_code t" "m_pool t" "m_jumpDests s" ?q] o True
      have "op = JUMP \<and> op' = JUMPC \<or> op = JUMPI \<and> op' = JUMPCI"
        unfolding assms(3,4) by simp
      with that(2,3) show ?thesis by blast
    next
      case False
      with push_len_pos [of op] that(1) [of "push_len op"] show ?thesis by simp
    qed
    then show ?thesis
    proof cases
      case 1
      with instruction_PUSH [of "m_code s ! ?q" k] assms(3) have "k \<le> 32" by simp
      moreover have "in_code op s" using head_in_code [OF h] assms(3) by simp
      ultimately have "agree (op = op') t1 (interpretCase K E (PUSH k) s1)
          (interpretCase K E (instruction (m_code t1 ! unat (m_PC s1))) t1)"
        using 1 r o c assms(3,5-7) top
        by (intro push_agree [where n = n and D = "m_jumpDests s"]) (simp_all add: in_code_def coded_def)
      with 1 assms(4,6) top show ?thesis by simp
    next
      case 2
      with aim assms(4) have v: "verifyJumpDest (m_jumpDests s) (m_stack s ! nat (m_SPP s)) \<noteq> None"
        by (simp add: aimed_def)
      have "agree False t1 (interpretCase K E JUMP s1) (interpretCase K E JUMPC t1)"
        by (rule jumpc_agree) (use 2 r v assms(5) top in \<open>auto simp: ready_def info_def\<close>)
      with 2 show ?thesis by (simp only: Instruction.distinct)
    next
      case 3
      with aim assms(4) have v: "verifyJumpDest (m_jumpDests s) (m_stack s ! nat (m_SPP s)) \<noteq> None"
        by (simp add: aimed_def)
      have "agree False t1 (interpretCase K E JUMPI s1) (interpretCase K E JUMPCI t1)"
        by (rule jumpci_agree) (use 3 r v assms(5) top in \<open>auto simp: ready_def info_def\<close>)
      with 3 show ?thesis by (simp only: Instruction.distinct)
    qed
  qed
qed


section \<open>One turn of the loop on both machines\<close>

lemma interpretOne_fail:
  fixes E :: "('e, 'w) ExtVMFace"
  shows "(fetchInstruction :: ('e, 'w, unit) vmE) s = (Inl e, s1) \<Longrightarrow> interpretOne K E s = (Inl e, s1)"
  by (simp add: interpretOne_def thenE_def bindE_def)

lemma interpretOne_run:
  fixes E :: "('e, 'w) ExtVMFace"
  assumes "(fetchInstruction :: ('e, 'w, unit) vmE) s = (Inr (), s1)" "interpretCase K E (m_OP s1) s1 = (r, u)"
  shows "interpretOne K E s = (r, if r = Inr NEXT then u\<lparr>m_PC := m_PC u + 1\<rparr> else u)"
  using assms by (cases r) (auto simp: interpretOne_def thenE_def bindE_def incPC_def)

text \<open>After an instruction other than a push, no unchecked jump follows.\<close>

lemma aimed_plain:
  assumes "head n s" "coded n s t" "fetched s s1" "op = instruction (m_code s ! unat (m_PC s))"
    and "did op s1 f u" "f \<noteq> BREAK" "push_len op = 0" "unat (m_PC s) < n"
  shows "instruction (m_code t ! unat (if f = NEXT then m_PC u + 1 else m_PC u)) \<notin> {JUMPC, JUMPCI}"
proof
  let ?q = "unat (if f = NEXT then m_PC u + 1 else m_PC u)"
  assume j: "instruction (m_code t ! ?q) \<in> {JUMPC, JUMPCI}"
  have w: "walk n (m_code s) 0 ?q" by (rule did_walk [OF assms(1,3)]) (use assms in auto)
  have p: "prepared n (m_code s) (m_jumpDests s)" and w0: "walk n (m_code s) 0 (unat (m_PC s))"
    using assms(1) by (simp_all add: head_def)
  have o: "opt_at n (m_code s) (m_code t) (m_pool t) (m_jumpDests s) ?q (instruction (m_code s ! ?q))"
    using assms(2) w by (simp add: coded_def)
  have l: "landed n (m_code s) (m_jumpDests s) ?q" by (rule opt_jump [OF p w o j])
  have nx: "unat (m_PC s + 1) = unat (m_PC s) + 1"
    using unat_PC_Suc [OF assms(8)] p by (simp add: prepared_def)
  have pc: "m_PC s1 = m_PC s" "m_jumpDests s1 = m_jumpDests s" using assms(3) by (simp_all add: fetched_def)
  have "?q = unat (m_PC s) + 1 \<or> (if f = NEXT then m_PC u + 1 else m_PC u) \<in> set (m_jumpDests s)"
  proof (cases f)
    case NEXT
    with assms(5) nx pc show ?thesis by (simp add: did_def)
  next
    case CONTINUE
    with assms(5) pc have "m_PC u \<in> goes op s1" by (simp add: did_def)
    with CONTINUE assms(7) nx pc show ?thesis by (cases op) auto
  qed (use assms(6) in simp)
  then show False
  proof
    assume "?q = unat (m_PC s) + 1"
    then show False using not_landed [OF l w0] assms(4,7) by simp
  next
    assume "(if f = NEXT then m_PC u + 1 else m_PC u) \<in> set (m_jumpDests s)"
    then have "instruction (m_code s ! ?q) = JUMPDEST" using p by (simp only: prepared_def)
    with o j show False by simp
  qed
qed

text \<open>After a push the constant is on the stack.\<close>

lemma aimed_push:
  fixes s s1 u t :: "'w vm" and E :: "('e, 'w) ExtVMFace"
  assumes "head n s" "coded n s t" "fetched s s1" "instruction (m_code s ! unat (m_PC s)) = PUSH k"
    and "interpretCase K E (PUSH k) s1 = (Inr f, u)" "unat (m_PC s) < n" "m_code v = m_code t"
  shows "f = CONTINUE \<and> aimed u v"
proof -
  let ?q = "unat (m_PC s)" and ?C = "m_code s" and ?D = "m_jumpDests s"
  have k: "0 < k" "k \<le> 32" using instruction_PUSH [OF assms(4)] by simp_all
  have r: "ready (PUSH k) s1" and same: "m_code s1 = ?C" "m_PC s1 = m_PC s" "m_jumpDests s1 = ?D"
    using assms(3,4) by (simp_all add: fetched_def)
  have p: "prepared n ?C ?D" and w0: "walk n ?C 0 ?q" using assms(1) by (simp_all add: head_def)
  have len: "?q + k < length ?C" "length ?C < 2 ^ 64" using p assms(6) k by (simp_all add: prepared_def)
  have st: "0 \<le> m_SPP s1" "m_SPP s1 < int (length (m_stack s1))" using r by (auto simp: ready_def info_def)
  have "interpretCase K E (PUSH k) s1 = thenE charge (\<lambda>t. (Inr CONTINUE, placed (decode_push k ?q ?C) k t)) s1"
    using push_placed [OF st k(1), where ?'e = 'e] len same by simp
  with assms(5) obtain x s2 where c: "(charge :: ('e, 'w, unit) vmE) s1 = (Inr x, s2)"
    and u: "f = CONTINUE" "u = placed (decode_push k ?q ?C) k s2"
    by (auto simp: thenE_def bindE_def split: prod.splits sum.splits)
  note ck = charge_keeps [OF c]
  have q: "unat (m_PC u) = ?q + k + 1"
    using len ck same by (simp add: u placed_def unat_word_ariths unat_of_nat)
  have w: "walk n ?C 0 (?q + k + 1)" using walk_snoc [OF w0 assms(6)] assms(4) by simp
  have "opt_at n ?C (m_code t) (m_pool t) ?D (?q + k + 1) (instruction (?C ! (?q + k + 1)))"
    using assms(2) w by (simp add: coded_def)
  then have "verifyJumpDest ?D (decode_push k ?q ?C) \<noteq> None"
    if "instruction (m_code t ! (?q + k + 1)) \<in> {JUMPC, JUMPCI}"
    using landed_push [OF opt_jump [OF p w _ that] w0 refl assms(4)] by simp
  moreover have "m_stack u ! nat (m_SPP u) = decode_push k ?q ?C" "m_jumpDests u = ?D"
    using ck st same by (simp_all add: u placed_def nat_less_iff)
  ultimately show ?thesis using u(1) q assms(7) by (simp add: aimed_def)
qed

lemma sim_op:
  assumes "sim n s t"
  shows "opt_at n (m_code s) (m_code t) (m_pool t) (m_jumpDests s) (unat (m_PC s))
    (instruction (m_code s ! unat (m_PC s)))"
  using assms by (simp add: sim_def coded_def head_def)

text \<open>Both machines fetch.\<close>

lemma fetch_sim:
  fixes s t :: "'w vm"
  assumes "sim n s t" "op = instruction (m_code s ! unat (m_PC s))" "op' = instruction (m_code t ! unat (m_PC s))"
  shows "agree (op = op') t ((fetchInstruction :: ('e, 'w, unit) vmE) s) (fetchInstruction t)"
proof -
  have h: "head n s" and e: "er False s t" and l: "length (m_code t) = length (m_code s)"
    using assms(1) by (simp_all add: sim_def coded_def)
  have pc: "unat (m_PC s) < length (m_code s)" using head_PC [OF h] h by (simp add: head_def prepared_def)
  have "(decode op' :: ('e, 'w, unit) vmE) = decode op"
    unfolding assms(2,3) by (rule opt_decode [OF sim_op [OF assms(1)]])
  then show ?thesis using fetch_alike [OF e pc l assms(2,3)] by (simp add: agree_def)
qed

definition in_step :: "nat \<Rightarrow> 'w vm \<Rightarrow> ('e vm_exn + flow) \<times> 'w vm \<Rightarrow> ('e vm_exn + flow) \<times> 'w vm \<Rightarrow> bool" where
  "in_step n t p q \<longleftrightarrow> agree False t p q \<and>
     (fst p = Inr BREAK \<and> m_bounce (snd p) \<noteq> None \<longrightarrow> er True (snd p) (snd q) \<and> coded n (snd p) (snd q)) \<and>
     (\<forall>f. fst p = Inr f \<and> f \<noteq> BREAK \<longrightarrow> sim n (snd p) (snd q))"

lemma fetch_OP:
  fixes t t1 :: "'w vm"
  assumes "(fetchInstruction :: ('e, 'w, unit) vmE) t = (Inr (), t1)" "unat (m_PC t) < length (m_code t)"
  shows "m_OP t1 = instruction (m_code t ! unat (m_PC t))"
proof -
  let ?op = "instruction (m_code t ! unat (m_PC t))"
  have "wp (decode ?op :: ('e, 'w, unit) vmE) (\<lambda>_ u. m_OP u = ?op) (\<lambda>_ _. True) (t\<lparr>m_OP := ?op\<rparr>)"
    unfolding decode_def adjustStack_def throwBadStack_def by (intro wp_rule) auto
  then show ?thesis
    using assms(1) fetch_decode [OF assms(2) refl, where ?'b = 'e] by (simp add: wp_def)
qed

text \<open>Both machines after the case, when it did not fail.\<close>

lemma case_sim:
  fixes s t s1 t1 u v :: "'w vm" and E :: "('e, 'w) ExtVMFace"
  assumes "sim n s t" "fetched s s1" "op = instruction (m_code s ! unat (m_PC s))"
    and "interpretCase K E op s1 = (Inr f, u)" "f \<noteq> BREAK" "er False u v" "m_code v = m_code t" "m_pool v = m_pool t"
    and "turned n s f (if f = NEXT then u\<lparr>m_PC := m_PC u + 1\<rparr> else u)" "did op s1 f u"
  shows "sim n (if f = NEXT then u\<lparr>m_PC := m_PC u + 1\<rparr> else u) (if f = NEXT then v\<lparr>m_PC := m_PC v + 1\<rparr> else v)"
proof -
  have h: "head n s" and c: "coded n s t" using assms(1) by (simp_all add: sim_def)
  have lt: "unat (m_PC s) < n"
  proof (rule ccontr)
    assume "\<not> unat (m_PC s) < n"
    then have "op = STOP" using h head_PC [OF h] assms(3) by (simp add: head_def prepared_def instruction_bytes)
    then show False using stop_flow [of K E s1] assms(4,5) by (simp add: wp_def)
  qed
  have k: "m_code u = m_code s" "m_jumpDests u = m_jumpDests s"
    using assms(2,10) by (simp_all add: did_def frame_def fetched_def)
  have "aimed (if f = NEXT then u\<lparr>m_PC := m_PC u + 1\<rparr> else u) (if f = NEXT then v\<lparr>m_PC := m_PC v + 1\<rparr> else v)"
  proof (cases "push_len op = 0")
    case True
    then show ?thesis
      using aimed_plain [OF h c assms(2,3,10,5) True lt] assms(7) by (auto simp: aimed_def split: if_splits)
  next
    case False
    then have "op = PUSH (push_len op)" by (rule push_len_pos)
    then have "f = CONTINUE \<and> aimed u v"
      using aimed_push [OF h c assms(2) _ _ lt assms(7)] assms(3,4) by metis
    then show ?thesis by simp
  qed
  moreover have "head n (if f = NEXT then u\<lparr>m_PC := m_PC u + 1\<rparr> else u)" using assms(5,9) by (simp add: turned_def)
  moreover have "coded n (if f = NEXT then u\<lparr>m_PC := m_PC u + 1\<rparr> else u) (if f = NEXT then v\<lparr>m_PC := m_PC v + 1\<rparr> else v)"
    using c k assms(7,8) by (simp add: coded_def)
  ultimately show ?thesis using assms(6) by (simp add: sim_def er_def)
qed

text \<open>A turn that ends at a call ran an instruction that was not rewritten.\<close>

lemma call_sim:
  assumes "sim n s t" "fetched s s1" "op = instruction (m_code s ! unat (m_PC s))"
    and "op' = instruction (m_code t ! unat (m_PC s))" "did op s1 BREAK u" "m_bounce u \<noteq> None"
    and "er (op = op') u v" "m_code v = m_code t" "m_pool v = m_pool t"
  shows "er True u v \<and> coded n u v"
proof -
  have op: "op \<in> {CREATE, CREATE2, CALL, CALLCODE, DELEGATECALL, STATICCALL}"
    using assms(5,6) by (auto simp: did_def leaves_def)
  have "op' = op"
  proof (rule ccontr)
    assume "op' \<noteq> op"
    then show False using opt_rewritten [OF sim_op [OF assms(1)], folded assms(3,4)] op by auto
  qed
  moreover have "m_code u = m_code s" "m_jumpDests u = m_jumpDests s"
    using assms(2,5) by (simp_all add: did_def frame_def fetched_def)
  ultimately show ?thesis using assms(1,7-9) by (simp add: sim_def coded_def)
qed

lemma turn_sim:
  fixes s t :: "'w vm" and E :: "('e, 'w) ExtVMFace"
  assumes "sim n s t"
  shows "in_step n t (interpretOne K E s) (interpretOne K E t)"
proof -
  let ?q = "unat (m_PC s)"
  define op op' where "op = instruction (m_code s ! ?q)" and "op' = instruction (m_code t ! ?q)"
  have h: "head n s" and c: "coded n s t" and pct: "m_PC t = m_PC s" and l: "length (m_code t) = length (m_code s)"
    using assms by (simp_all add: sim_def coded_def er_def)
  have pc: "?q < length (m_code s)" using head_PC [OF h] h by (simp add: head_def prepared_def)
  obtain r0 s1 r0' t1 where ft: "(fetchInstruction :: ('e, 'w, unit) vmE) s = (r0, s1)"
    "(fetchInstruction :: ('e, 'w, unit) vmE) t = (r0', t1)" by (meson surj_pair)
  have a0: "r0' = r0" "er (op = op') s1 t1" "m_code t1 = m_code t" "m_pool t1 = m_pool t"
    using fetch_sim [OF assms op_def op'_def, where ?'e = 'e] ft by (simp_all add: agree_def alike_def)
  show ?thesis
  proof (cases r0)
    case (Inl e)
    with ft a0 interpretOne_fail [of s e s1 K E] interpretOne_fail [of t e t1 K E] show ?thesis
      by (simp add: in_step_def agree_def alike_def er_weaken)
  next
    case (Inr x)
    then have x: "r0 = Inr ()" by simp
    have fe: "fetched s s1" using wpD_Inr [OF fetch_ok [OF h]] ft(1) x by blast
    have ops: "m_OP s1 = op" "m_OP t1 = op'"
      using fetch_OP [of s s1, where ?'e = 'e] fetch_OP [of t t1, where ?'e = 'e] ft x a0(1) pc pct l
      by (simp_all add: op_def op'_def)
    obtain r u r' v where ic: "interpretCase K E op s1 = (r, u)" "interpretCase K E op' t1 = (r', v)"
      by (meson surj_pair)
    have a: "r' = r" "er (op = op') u v" "m_code v = m_code t" "m_pool v = m_pool t"
      using case_agree [OF assms fe op_def op'_def a0(2-4), of K E] ic a0 by (simp_all add: agree_def alike_def)
    have os: "interpretOne K E s = (r, if r = Inr NEXT then u\<lparr>m_PC := m_PC u + 1\<rparr> else u)"
      using interpretOne_run [of s s1 K E r u] ft(1) x ic(1) ops by simp
    have ot: "interpretOne K E t = (r, if r = Inr NEXT then v\<lparr>m_PC := m_PC v + 1\<rparr> else v)"
      using interpretOne_run [of t t1 K E r v] ft(2) x a0(1) a(1) ic(2) ops by simp
    show ?thesis
    proof (cases r)
      case (Inl e)
      with a os ot show ?thesis by (simp add: in_step_def agree_def alike_def er_weaken)
    next
      case (Inr f)
      then have ru: "interpretCase K E op s1 = (Inr f, u)" using ic(1) by simp
      have tu: "turned n s f (if f = NEXT then u\<lparr>m_PC := m_PC u + 1\<rparr> else u)"
        by (rule conjunct1 [OF wpD_Inr [OF interpretOne_ok [OF h, of K E]]]) (simp only: os Inr sum.inject)
      have d: "did op s1 f u" by (rule did_of [OF h fe op_def ru])
      have ag: "agree False t (interpretOne K E s) (interpretOne K E t)"
        using a os ot by (auto simp: agree_def alike_def er_def)
      show ?thesis
      proof (cases "f = BREAK")
        case True
        then show ?thesis
          using ag os ot Inr a call_sim [OF assms fe op_def op'_def] d by (simp add: in_step_def)
      next
        case False
        then show ?thesis
          using ag os ot Inr a case_sim [OF assms fe op_def ru False er_weaken [OF a(2)] a(3,4) tu d]
          by (simp add: in_step_def)
      qed
    qed
  qed
qed


section \<open>The loop and the calls on both machines\<close>

definition handed :: "nat \<Rightarrow> 'w vm \<Rightarrow> ('e vm_exn + unit) \<times> 'w vm \<Rightarrow> ('e vm_exn + unit) \<times> 'w vm \<Rightarrow> bool" where
  "handed n t p q \<longleftrightarrow> agree False t p q \<and>
     (fst p = Inr () \<and> m_bounce (snd p) \<noteq> None \<longrightarrow> er True (snd p) (snd q) \<and> coded n (snd p) (snd q))"

lemma loop_sim:
  fixes s t :: "'w vm" and E :: "('e, 'w) ExtVMFace"
  assumes "sim n s t"
  shows "\<exists>p q. interpretCases K E s = Some p \<and> interpretCases K E t = Some q \<and> handed n t p q"
  using assms
proof (induction "unat (m_io_gas s)" arbitrary: s t rule: less_induct)
  case less
  have h: "head n s" using less.prems by (simp add: sim_def)
  obtain r u r' v where o: "interpretOne K E s = (r, u)" "interpretOne K E t = (r', v)" by (meson surj_pair)
  have st: "in_step n t (r, u) (r', v)" using turn_sim [OF less.prems, of K E] o by simp
  have r': "r' = r" and ag: "agree False t (r, u) (r', v)" using st by (simp_all add: in_step_def agree_def alike_def)
  show ?case
  proof (cases r)
    case (Inl e)
    then have "interpretCases K E s = Some (Inl e, u)" "interpretCases K E t = Some (Inl e, v)"
      using o r' by (subst interpretCases.simps, simp)+
    moreover have "handed n t (Inl e, u) (Inl e, v)"
      using ag Inl by (simp add: handed_def agree_def alike_def)
    ultimately show ?thesis by blast
  next
    case (Inr f)
    show ?thesis
    proof (cases "f = BREAK")
      case True
      then have "interpretCases K E s = Some (Inr (), u)" "interpretCases K E t = Some (Inr (), v)"
        using o r' Inr by (subst interpretCases.simps, simp)+
      moreover have "handed n t (Inr (), u) (Inr (), v)"
        using st Inr True r' by (simp add: handed_def in_step_def agree_def alike_def)
      ultimately show ?thesis by blast
    next
      case False
      have "turned n s f u"
        by (rule conjunct1 [OF wpD_Inr [OF interpretOne_ok [OF h, of K E]]]) (simp only: o Inr)
      with False have "unat (m_io_gas u) < unat (m_io_gas s)" by (simp add: turned_def word_less_nat_alt)
      moreover have "sim n u v" using st Inr False by (simp add: in_step_def)
      ultimately obtain p q where pq: "interpretCases K E u = Some p" "interpretCases K E v = Some q" "handed n v p q"
        using less.hyps by blast
      have "interpretCases K E s = Some p" "interpretCases K E t = Some q"
        using pq o r' Inr False by (subst interpretCases.simps, simp)+
      moreover have "handed n t p q" using pq(3) ag by (simp add: handed_def agree_def)
      ultimately show ?thesis by blast
    qed
  qed
qed

text \<open>After a call no unchecked jump follows either.\<close>

lemma called_sim:
  assumes "calling n b s" "coded n s t" "called n s u"
    and "er False u v" "m_code v = m_code t" "m_pool v = m_pool t"
  shows "sim n u v"
proof -
  let ?q = "unat (m_PC s)"
  have c: "prepared n (m_code s) (m_jumpDests s)" "walk n (m_code s) 0 ?q" "?q < n"
    and pl: "push_len (instruction (m_code s ! ?q)) = 0"
    using assms(1) by (auto simp: calling_def)
  have nx: "unat (m_PC u) = ?q + 1"
    using unat_PC_Suc [OF c(3)] c(1) assms(3) by (simp add: prepared_def called_def)
  have w: "walk n (m_code s) 0 (?q + 1)" using walk_snoc [OF c(2,3)] pl by simp
  have fr: "m_code u = m_code s" "m_jumpDests u = m_jumpDests s" using assms(3) by (simp_all add: called_def frame_def)
  have "instruction (m_code t ! (?q + 1)) \<notin> {JUMPC, JUMPCI}"
  proof
    assume j: "instruction (m_code t ! (?q + 1)) \<in> {JUMPC, JUMPCI}"
    have "opt_at n (m_code s) (m_code t) (m_pool t) (m_jumpDests s) (?q + 1) (instruction (m_code s ! (?q + 1)))"
      using assms(2) w by (simp add: coded_def)
    from not_landed [OF opt_jump [OF c(1) w this j] c(2) refl pl] show False .
  qed
  then have "aimed u v" unfolding aimed_def nx assms(5) by blast
  moreover have "coded n u v" using assms(2,5,6) fr by (simp add: coded_def)
  ultimately show ?thesis using assms(3,4) by (simp add: sim_def called_def)
qed

lemma bounce_sim:
  fixes s t :: "'w vm" and E :: "('e, 'w) ExtVMFace"
  assumes "gas_lawful E" "calling n b s" "er True s t" "coded n s t"
  shows "\<exists>p q. run_bounce o1 K E b s = Some p \<and> run_bounce o2 K E b t = Some q \<and> agree False t p q \<and>
    (fst p = Inr () \<longrightarrow> called n s (snd p) \<and> sim n (snd p) (snd q))"
proof -
  define m :: "('e, 'w, unit) vmE" where "m = (if b = CaseCreate then caseCreate E else caseCall E)"
  have rb: "run_bounce o1 K E b s = Some (m s)" "run_bounce o2 K E b t = Some (m t)"
    using assms(2) by (auto simp: run_bounce_def m_def calling_def)
  have bl: "blind True m" by (simp add: m_def blind_caseCreate blind_caseCall)
  note e = blindD [OF bl assms(3)]
  have ok: "wp m (\<lambda>_. called n s) (failed s) s"
    using assms(2) caseCreate_ok [OF _ assms(1), of n s] caseCall_ok [OF _ assms(1), of n s]
    by (auto simp: m_def calling_def)
  have ag: "agree False t (m s) (m t)"
    using e by (auto simp: agree_def alike_def intro: er_weaken)
  have "called n s (snd (m s)) \<and> sim n (snd (m s)) (snd (m t))" if r: "fst (m s) = Inr ()"
  proof -
    have c: "called n s (snd (m s))" using wpD_Inr [OF ok] r by (metis prod.collapse)
    have "er False (snd (m s)) (snd (m t))" using ag by (simp add: agree_def alike_def)
    from called_sim [OF assms(2,4) c this e(2,3)] c show ?thesis by simp
  qed
  with rb ag show ?thesis by blast
qed

definition met :: "nat \<Rightarrow> bounce \<Rightarrow> 'w vm \<Rightarrow> 'w vm \<Rightarrow> bool" where
  "met n b s t \<longleftrightarrow> (if b = InterpretCases then sim n s t else calling n b s \<and> er True s t \<and> coded n s t)"

lemma run_sim:
  fixes s t :: "'w vm" and E :: "('e, 'w) ExtVMFace"
  assumes "gas_lawful E" "met n b s t"
  shows "\<exists>r u v. run_bounce o1 K E b s = Some (r, u) \<and> run_bounce o2 K E b t = Some (r, v) \<and> er False u v \<and>
    (\<forall>b'. r = Inr () \<and> m_bounce u = Some b' \<longrightarrow> met n b' u v \<and> weight b' u < weight b s)"
proof -
  have en: "entered n b s" using assms(2) by (auto simp: met_def entered_def sim_def)
  obtain r u where ru: "run_bounce o1 K E b s = Some (r, u)"
    and nx: "\<And>b'. r = Inr () \<Longrightarrow> m_bounce u = Some b' \<Longrightarrow> entered n b' u \<and> weight b' u < weight b s"
    using run_bounce_ok [OF en assms(1), of o1 K] by blast
  show ?thesis
  proof (cases "b = InterpretCases")
    case True
    then have si: "sim n s t" using assms(2) by (simp add: met_def)
    obtain p q where pq: "interpretCases K E s = Some p" "interpretCases K E t = Some q" "handed n t p q"
      using loop_sim [OF si] by blast
    have p: "p = (r, u)" using pq(1) ru True by (simp add: run_bounce_def)
    obtain v where q: "q = (r, v)" "er False u v" "r = Inr () \<and> m_bounce u \<noteq> None \<Longrightarrow> er True u v \<and> coded n u v"
      using pq(3) p by (cases q) (auto simp: handed_def agree_def alike_def)
    have "met n b' u v" if b': "r = Inr ()" "m_bounce u = Some b'" for b'
    proof -
      have "left_at n s (r, u)" using interpretCases_returns [of n s K E] si pq(1) p by (auto simp: sim_def)
      then have "calling n b' u" using b' by (simp add: left_at_def)
      moreover have "b' \<noteq> InterpretCases" using calculation by (auto simp: calling_def)
      ultimately show ?thesis using q(3) b' by (simp add: met_def)
    qed
    with nx q ru pq(2) True show ?thesis by (auto simp: run_bounce_def)
  next
    case False
    then have c: "calling n b s" "er True s t" "coded n s t" using assms(2) by (simp_all add: met_def)
    obtain p q where pq: "run_bounce o1 K E b s = Some p" "run_bounce o2 K E b t = Some q" "agree False t p q"
      "fst p = Inr () \<Longrightarrow> called n s (snd p) \<and> sim n (snd p) (snd q)"
      using bounce_sim [OF assms(1) c, of o1 K o2] by blast
    have p: "p = (r, u)" using pq(1) ru by simp
    obtain v where q: "q = (r, v)" "er False u v" using pq(3) p by (cases q) (auto simp: agree_def alike_def)
    have "met n b' u v" if "r = Inr ()" "m_bounce u = Some b'" for b'
      using pq(4) p q(1) that by (simp add: met_def called_def)
    with nx q ru pq(2) show ?thesis by blast
  qed
qed

lemma trampoline_sim:
  fixes s t :: "'w vm" and E :: "('e, 'w) ExtVMFace"
  assumes "gas_lawful E" "met n b s t"
  shows "\<exists>r u v. trampoline o1 K E b s = Some (r, u) \<and> trampoline o2 K E b t = Some (r, v) \<and> er False u v"
  using assms(2)
proof (induction "weight b s" arbitrary: b s t rule: less_induct)
  case less
  obtain r u v where ru: "run_bounce o1 K E b s = Some (r, u)" "run_bounce o2 K E b t = Some (r, v)" "er False u v"
    "\<And>b'. r = Inr () \<Longrightarrow> m_bounce u = Some b' \<Longrightarrow> met n b' u v \<and> weight b' u < weight b s"
    using run_sim [OF assms(1) less.prems, of o1 K o2] by blast
  have bo: "m_bounce v = m_bounce u" using ru(3) by (simp add: er_def)
  show ?case
  proof (cases "\<exists>b'. r = Inr () \<and> m_bounce u = Some b'")
    case False
    then have "trampoline o1 K E b s = Some (r, u)" "trampoline o2 K E b t = Some (r, v)"
      using ru(1,2) bo by (subst trampoline.simps, auto split: sum.splits option.splits)+
    with ru(3) show ?thesis by blast
  next
    case True
    then obtain b' where b': "r = Inr ()" "m_bounce u = Some b'" by blast
    then have "trampoline o1 K E b s = trampoline o1 K E b' u" "trampoline o2 K E b t = trampoline o2 K E b' v"
      using ru(1,2) bo by (subst trampoline.simps, simp)+
    with less.hyps [of b' u v] ru(4) [OF b'] show ?thesis by simp
  qed
qed

end
