(* ===== verification/VmStatic.thy ===== *)
theory VmStatic
  imports VmCall
begin

text \<open>
  Static calls: in a context with \<open>staticCall\<close> set the machine calls no method of the
  interface that writes. The exception is \<open>CREATE2\<close>, whose case has no such check.
\<close>

section \<open>What reading methods keep\<close>

text \<open>
  \<open>view\<close> is what an observer sees of the object behind the interface. The methods that read
  keep it, and so does a call that is marked static and moves no value to another account.
\<close>

definition read_only :: "('w ExtVM \<Rightarrow> 'v) \<Rightarrow> ('e, 'w) ExtVMFace \<Rightarrow> bool" where
  "read_only view E \<longleftrightarrow> (\<forall>v. let I = (\<lambda>x. view x = v \<and> staticCall x) in
     (\<forall>k. keeps I (x_store E k)) \<and> (\<forall>a. keeps I (x_balance E a)) \<and> (\<forall>a. keeps I (x_codeAt E a)) \<and>
     (\<forall>a. keeps I (x_codeSizeAt E a)) \<and> (\<forall>a. keeps I (x_exists E a)) \<and> (\<forall>n. keeps I (x_blockHash E n)) \<and>
     (\<forall>p. cp_staticCall p \<and> (valueTransfer p = 0 \<or> senderAddress p = receiveAddress p) \<longrightarrow> keeps I (x_call E p)))"

definition held :: "('w ExtVM \<Rightarrow> 'v) \<Rightarrow> 'v \<Rightarrow> 'w vm \<Rightarrow> bool" where
  "held view v s \<longleftrightarrow> view (m_ext s) = v \<and> staticCall (m_ext s) \<and> \<not> haveCreate2 (m_schedule s)"

named_theorems held_rule

lemma held_basic [held_rule]:
  "keeps (held w v) (ret x)" "keeps (held w v) (throw e)" "keeps (held w v) (getE f)"
  "keeps (held w v) (theE e y)" "keeps (held w v) (throwIf c e)"
  by simp_all

lemmas held_flow [held_rule] = keeps_bindE keeps_thenE keeps_if

lemma held_prod [held_rule]: "(\<And>x y. keeps I (f x y)) \<Longrightarrow> keeps I (case p of (x, y) \<Rightarrow> f x y)"
  by (cases p) simp

lemma held_Let [held_rule]: "(\<And>x. keeps I (f x)) \<Longrightarrow> keeps I (Let y f)"
  by (simp add: Let_def)

lemma held_upd [held_rule]:
  "(\<And>s. m_ext (f s) = m_ext s \<and> m_schedule (f s) = m_schedule s) \<Longrightarrow> keeps (held w v) (updE f)"
  by (rule keeps_updE) (simp add: held_def)

lemma held_memory [held_rule]:
  "keeps (held w v) (SP i)" "keeps (held w v) (put_stack j y)" "keeps (held w v) (rdMem off n)"
  "keeps (held w v) (wrMem off bs)" "keeps (held w v) (codeByte pc)" "keeps (held w v) updateIOGas"
  by (auto simp: keeps_def held_def SP_def put_stack_def rdMem_def wrMem_def codeByte_def updateIOGas_def Let_def)

lemma held_viaExt:
  assumes "keeps (\<lambda>x. w x = v \<and> staticCall x) m"
  shows "keeps (held w v) (viaExt m)"
proof (rule keepsI)
  fix s r t
  assume h: "held w v s" and r: "viaExt m s = (r, t)"
  obtain q x where m: "m (m_ext s) = (q, x)" by (cases "m (m_ext s)")
  have "w (m_ext s) = v \<and> staticCall (m_ext s)" using h by (simp add: held_def)
  from keepsD [OF assms this m] have "w x = v \<and> staticCall x" .
  moreover have "t = s\<lparr>m_ext := x\<rparr>" using r m by (cases q) (auto simp: viaExt_def)
  ultimately show "held w v t" using h by (simp add: held_def)
qed

lemma held_reads [held_rule]:
  assumes "read_only w E"
  shows "keeps (held w v) (viaExt (x_store E k))" "keeps (held w v) (viaExt (x_balance E a))"
    "keeps (held w v) (viaExt (x_codeAt E a))" "keeps (held w v) (viaExt (x_codeSizeAt E a))"
    "keeps (held w v) (viaExt (x_exists E a))" "keeps (held w v) (viaExt (x_blockHash E n))"
  using assms by (auto simp: read_only_def Let_def intro!: held_viaExt)

text \<open>What comes after a check that fails does not matter.\<close>

lemma held_guard:
  assumes "\<And>s. held w v s \<Longrightarrow> f s"
  shows "keeps (held w v) (bindE (getE f) (\<lambda>st. thenE (throwIf st e) m))"
  using assms by (auto simp: keeps_def bindE_def thenE_def throwIf_def)

lemma held_static: "held w v s \<Longrightarrow> staticCall (m_ext s)"
  by (simp add: held_def)

lemma held_stack [held_rule]: "keeps (held w v) (setSP i y)" "keeps (held w v) (setSPP y)"
  unfolding setSP_def setSPP_def by (intro held_rule)+

lemma held_gas [held_rule]:
  "keeps (held w v) (toInt63 n)" "keeps (held w v) (memNeed off sz)" "keeps (held w v) (setRunGas n)"
  "keeps (held w v) (addRunGas n)" "keeps (held w v) (sched f)" "keeps (held w v) (gasForMem n)"
  unfolding memNeed_def setRunGas_def addRunGas_def sched_def gasForMem_def toInt63_def
  by (intro held_rule; simp)+

lemma held_onOperation [held_rule]: "keeps (held w v) onOperation"
  unfolding onOperation_def by (intro held_rule) auto

lemma held_updateMem [held_rule]: "keeps (held w v) updateGas" "keeps (held w v) (updateMem n)"
  unfolding updateMem_def updateGas_def by (intro held_rule; auto)+

lemma held_adjustStack [held_rule]: "keeps (held w v) (adjustStack i j)"
  unfolding adjustStack_def throwBadStack_def by (intro held_rule; auto)

lemma held_charge [held_rule]: "keeps (held w v) charge"
  unfolding charge_def by (intro held_rule)

lemma held_fetch: "keeps (held w v) fetchInstruction"
  unfolding fetchInstruction_def by (intro held_rule; auto)


section \<open>The cases\<close>

lemma held_plain [held_rule]:
  "keeps (held w v) (push0 f)" "keeps (held w v) (unop g)" "keeps (held w v) (binop h)"
  "keeps (held w v) (ternop k)" "keeps (held w v) (priced c)"
  unfolding push0_def unop_def binop_def ternop_def priced_def by (intro held_rule)+

lemma held_bounceTo [held_rule]: "keeps (held w v) (bounceTo b)"
  unfolding bounceTo_def by (intro held_rule) simp

lemma held_incPC [held_rule]: "keeps (held w v) incPC"
  unfolding incPC_def by (intro held_rule) simp

lemma held_arith: "keeps (held w v) (arithCase a)"
  by (cases a; simp; intro held_rule; simp)

lemma held_logic: "keeps (held w v) (logicCase l)"
  by (cases l; simp; intro held_rule)

lemma held_env: "read_only w E \<Longrightarrow> keeps (held w v) (envCase E n)"
  by (cases n; simp; intro held_rule; assumption)

lemma held_blk: "read_only w E \<Longrightarrow> keeps (held w v) (blkCase E k)"
  by (cases k; simp; intro held_rule; assumption)

text \<open>The cases that write start with the check.\<close>

lemmas held_checked = keeps_thenE [OF held_onOperation held_guard [OF held_static]]

lemma held_mach:
  assumes "read_only w E"
  shows "keeps (held w v) (machCase E m)"
proof (cases m)
  case SSTORE
  show ?thesis unfolding SSTORE machCase.simps by (rule held_checked)
qed (use assms in \<open>simp_all only: machCase.simps, (intro held_rule; assumption)+\<close>)

lemma held_copy [held_rule]:
  "keeps (held w v) (copyDataToMemory bs i)" "keeps (held w v) d \<Longrightarrow> keeps (held w v) (copyCase i d)"
  unfolding copyCase_def copyDataToMemory_def by (intro held_rule; simp)+

lemma held_returnRegion [held_rule]: "keeps (held w v) returnRegion"
  unfolding returnRegion_def by (intro held_rule; simp)

lemma held_log: "keeps (held w v) (logCase E n)"
  unfolding logCase_def by (rule held_checked)

lemma held_suicide: "keeps (held w v) (suicideCase E)"
  unfolding suicideCase_def by (rule held_checked)

lemma held_jumpTo [held_rule]: "keeps (held w v) (jumpTo d)"
  unfolding jumpTo_def by (intro held_rule) simp

lemma held_callCase: "keeps (held w v) (callCase op)"
  unfolding callCase_def isStatic_def by (intro held_rule)

lemma held_nextByte [held_rule]: "keeps (held w v) nextByte"
  unfolding nextByte_def by (intro held_rule)

lemma held_getSPP [held_rule]: "keeps (held w v) getSPP"
  unfolding getSPP_def by (auto simp: keeps_def Let_def)

lemma held_pushLoop [held_rule]: "keeps (held w v) (pushLoop n)"
  by (induction n) (simp_all only: pushLoop.simps, (intro held_rule; assumption)+)

lemma held_push: "keeps (held w v) (pushCase n)" "keeps (held w v) pushcCase"
  unfolding pushCase_def pushcCase_def by (intro held_rule; simp)+

lemma held_others:
  "keeps (held w v) expCase" "keeps (held w v) (sha3Case K)" "keeps (held w v) mloadCase"
  "keeps (held w v) mstoreCase" "keeps (held w v) mstore8Case" "keeps (held w v) returndatacopyCase"
  "keeps (held w v) (swapCase n)"
  unfolding expCase_def sha3Case_def mloadCase_def mstoreCase_def mstore8Case_def growFor_def
    returndatacopyCase_def swapCase_def
  by (intro held_rule)+

lemmas held_cases = held_arith held_logic held_env held_blk held_mach held_log held_suicide
  held_callCase held_push held_others

lemma held_interpretCase:
  assumes "read_only w E"
  shows "keeps (held w v) (interpretCase K E op)"
  by (cases op)
    (use assms in \<open>simp_all only: interpretCase.simps isStatic_def held_cases,
      (intro held_rule; simp)+\<close>)

lemma held_interpretOne: "read_only w E \<Longrightarrow> keeps (held w v) (interpretOne K E)"
  unfolding interpretOne_def by (intro held_rule held_fetch held_interpretCase)


section \<open>Where the loop can end\<close>

text \<open>In a static context a turn never leads to \<open>caseCreate\<close>, and to a \<open>CALL\<close> only without value.\<close>

definition harmless :: "'w vm \<Rightarrow> bool" where
  "harmless t \<longleftrightarrow> m_bounce t = Some CaseCall \<and> (m_OP t = CALL \<longrightarrow> call_value t = 0)"

lemma create_refused:
  fixes E :: "('e, 'w) ExtVMFace"
  assumes "held w v s" "op = CREATE \<or> op = CREATE2"
  shows "fst (interpretCase K E op s) \<noteq> Inr f"
  using assms by (auto simp: held_def isStatic_def bindE_def thenE_def throwIf_def onOperation_def split: if_splits)

lemma call_value_refused:
  fixes E :: "('e, 'w) ExtVMFace"
  assumes "held w v s" "ready CALL s" "interpretCase K E CALL s = (Inr f, t)"
  shows "call_value s = 0"
proof (rule ccontr)
  assume c: "call_value s \<noteq> 0"
  have op: "m_OP s = CALL" "0 \<le> m_SP s" "m_SP s + 7 \<le> 1024" "length (m_stack s) = 1024"
    using assms(2) by (auto simp: ready_def info_def)
  have "fst (interpretCase K E CALL s) = Inl DisallowedStateChange"
    using assms(1) op c
    by (auto simp: held_def callCase_def isStatic_def bindE_def thenE_def throwIf_def onOperation_def
        SP_def Let_def call_value_def)
  with assms(3) show False by simp
qed

lemma turn_harmless:
  fixes E :: "('e, 'w) ExtVMFace"
  assumes "head n s" "held w v s" "interpretOne K E s = (Inr BREAK, t)" "m_bounce t \<noteq> None"
  shows "harmless t"
proof -
  let ?op = "instruction (m_code s ! unat (m_PC s))"
  obtain s1 where f: "(fetchInstruction :: ('e, 'w, unit) vmE) s = (Inr (), s1)"
    and ic: "interpretCase K E (m_OP s1) s1 = (Inr BREAK, t)"
    using interpretOne_InrD [OF assms(3)] by auto
  have fe: "fetched s s1" using wpD_Inr [OF fetch_ok [OF assms(1)]] f by blast
  then have r: "ready ?op s1" by (simp add: fetched_def)
  then have op: "m_OP s1 = ?op" by (simp add: ready_def)
  have h: "held w v s1" by (rule keepsD [OF held_fetch assms(2) f])
  have "did ?op s1 BREAK t" by (rule did_of [OF assms(1) fe refl]) (use ic op in simp)
  moreover have "?op \<noteq> CREATE" "?op \<noteq> CREATE2"
    using create_refused [OF h, of ?op K E BREAK] ic op by auto
  ultimately have "\<exists>k tr. t = s1\<lparr>m_nSteps := k, m_trace := tr, m_bounce := Some CaseCall\<rparr>"
    using assms(4) by (auto simp: did_def leaves_def)
  then obtain k tr where t: "t = s1\<lparr>m_nSteps := k, m_trace := tr, m_bounce := Some CaseCall\<rparr>" by blast
  show ?thesis
    using call_value_refused [OF h, of K E BREAK t] r ic t op by (auto simp: harmless_def call_value_def)
qed


section \<open>Calls from a static context\<close>

lemma held_callCharge [held_rule]: "read_only w E \<Longrightarrow> keeps (held w v) (callCharge E op)"
  unfolding callCharge_def by (intro held_rule; assumption)

lemma held_callRegions [held_rule]: "keeps (held w v) (callRegions k)"
  unfolding callRegions_def by (intro held_rule)

lemma held_callGasGiven [held_rule]: "keeps (held w v) callGasGiven"
  unfolding callGasGiven_def callAllowance_def by (intro held_rule)

lemma held_callParams [held_rule]: "read_only w E \<Longrightarrow> keeps (held w v) (callParams E op rs gas)"
  unfolding callParams_def by (cases rs; simp only: prod.case; intro held_rule; assumption)

lemma held_caseCallSetup: "read_only w E \<Longrightarrow> keeps (held w v) (caseCallSetup E)"
  unfolding caseCallSetup_def by (intro held_rule; assumption)

text \<open>The parameters are marked static.\<close>

lemma callParams_static:
  fixes E :: "('e, 'w) ExtVMFace"
  assumes "callParams E op rs gas s = (Inr (p, out), t)" "staticCall (m_ext s)"
  shows "cp_staticCall p"
  using assms
  by (cases rs) (auto simp: callParams_def Let_def SP_def rdMem_def dest!: bindE_InrD split: if_splits prod.splits)

lemma setup_static:
  fixes E :: "('e, 'w) ExtVMFace"
  assumes "read_only w E" "held w v s" "caseCallSetup E s = (Inr (p, out), t)"
  shows "cp_staticCall p"
proof -
  let ?k = "if m_OP s = CALL \<or> m_OP s = CALLCODE then 3 else 2 :: nat"
  have "thenE (callCharge E (m_OP s)) (bindE (callRegions ?k) (\<lambda>rs. bindE callGasGiven (callParams E (m_OP s) rs))) s =
      (Inr (p, out), t)"
    using assms(3) by (simp add: caseCallSetup_def)
  from thenE_InrD [OF this] obtain x s1 where 1: "callCharge E (m_OP s) s = (Inr x, s1)"
    and m1: "bindE (callRegions ?k) (\<lambda>rs. bindE callGasGiven (callParams E (m_OP s) rs)) s1 = (Inr (p, out), t)" by blast
  from bindE_InrD [OF m1] obtain rs s2 where 2: "(callRegions ?k :: ('e, 'w, _) vmE) s1 = (Inr rs, s2)"
    and m2: "bindE callGasGiven (callParams E (m_OP s) rs) s2 = (Inr (p, out), t)" by blast
  from bindE_InrD [OF m2] obtain gas s3 where 3: "(callGasGiven :: ('e, 'w, _) vmE) s2 = (Inr gas, s3)"
    and m3: "callParams E (m_OP s) rs gas s3 = (Inr (p, out), t)" by blast
  have "held w v s1" by (rule keepsD [OF held_callCharge [OF assms(1)] assms(2) 1])
  from keepsD [OF held_callRegions this 2] have "held w v s2" .
  from keepsD [OF held_callGasGiven this 3] have "staticCall (m_ext s3)" by (rule held_static)
  with m3 show ?thesis by (rule callParams_static)
qed

lemma held_callRun:
  assumes "read_only w E" "cp_staticCall p" "out = None \<or> valueTransfer p = 0 \<or> senderAddress p = receiveAddress p"
  shows "keeps (held w v) (callRun E p out)"
proof (cases out)
  case None
  show ?thesis unfolding None callRun_def option.case by (intro held_rule)
next
  case (Some r)
  have "keeps (held w v) (viaExt (x_call E p))"
    using assms Some by (intro held_viaExt) (auto simp: read_only_def Let_def)
  then show ?thesis
    unfolding Some callRun_def option.case by (intro held_rule; simp)
qed

lemma held_caseCall:
  fixes E :: "('e, 'w) ExtVMFace"
  assumes "read_only w E" "calling n CaseCall s" "held w v s" "harmless s"
  shows "held w v (snd (caseCall E s))"
proof -
  let ?s = "s\<lparr>m_bounce := Some InterpretCases, m_returnData := []\<rparr>"
  have r: "ready (m_OP ?s) ?s" and op: "m_OP ?s \<in> {CALL, CALLCODE, DELEGATECALL, STATICCALL}"
    using assms(2) by (auto simp: calling_def ready_def)
  have h: "held w v ?s" using assms(3) by (simp add: held_def)
  have eq: "caseCall E s = bindE (caseCallSetup E) (\<lambda>(p, out). bindE (callRun E p out) (\<lambda>gas.
     thenE (updE (\<lambda>s. s\<lparr>m_io_gas := m_io_gas s + ucast gas\<rparr>)) incPC)) ?s"
    by (simp add: caseCall_def thenE_updE)
  obtain q t where q: "caseCallSetup E ?s = (q, t)" by (cases "caseCallSetup E ?s")
  have t: "held w v t" by (rule keepsD [OF held_caseCallSetup [OF assms(1)] h q])
  show ?thesis
  proof (cases q)
    case (Inl e)
    with q t show ?thesis unfolding eq by (simp add: bindE_def)
  next
    case (Inr r)
    obtain p out where po: "r = (p, out)" by (cases r)
    have q': "caseCallSetup E ?s = (Inr (p, out), t)" using q Inr po by simp
    have "set_up ?s (p, out) t" by (rule wpD_Inr [OF caseCallSetup_ok [OF r op] q'])
    then have "out = None \<or> valueTransfer p = 0 \<or> senderAddress p = receiveAddress p"
      using op assms(4) by (auto simp: set_up_def harmless_def call_value_def)
    then have k: "keeps (held w v) (callRun E p out)"
      by (rule held_callRun [OF assms(1) setup_static [OF assms(1) h q']])
    have "keeps (held w v) (bindE (callRun E p out) (\<lambda>gas.
        thenE (updE (\<lambda>s. s\<lparr>m_io_gas := m_io_gas s + ucast gas\<rparr>)) incPC))"
      by (intro held_rule k) simp
    with t show ?thesis unfolding eq bindE_Inr [where m = "caseCallSetup E", OF q'] by (simp add: keeps_def)
  qed
qed


section \<open>The whole run\<close>

definition quiet :: "('w ExtVM \<Rightarrow> 'v) \<Rightarrow> 'v \<Rightarrow> ('e vm_exn + unit) \<times> 'w vm \<Rightarrow> bool" where
  "quiet w v = (\<lambda>(r, t). held w v t \<and> (r = Inr () \<and> m_bounce t \<noteq> None \<longrightarrow> harmless t))"

lemma loop_static:
  fixes E :: "('e, 'w) ExtVMFace"
  assumes "read_only w E"
  shows "head n s \<Longrightarrow> held w v s \<Longrightarrow> interpretCases K E s = Some res \<Longrightarrow> quiet w v res"
proof (induction "unat (m_io_gas s)" arbitrary: s rule: less_induct)
  case less
  obtain r t where o: "interpretOne K E s = (r, t)" by (cases "interpretOne K E s")
  have h: "held w v t" by (rule keepsD [OF held_interpretOne [OF assms] less.prems(2) o])
  show ?case
  proof (cases r)
    case (Inl e)
    then have "res = (Inl e, t)" using less.prems(3) o by (subst (asm) interpretCases.simps) simp
    with h show ?thesis by (simp add: quiet_def)
  next
    case (Inr f)
    show ?thesis
    proof (cases "f = BREAK")
      case True
      then have "res = (Inr (), t)" using less.prems(3) o Inr by (subst (asm) interpretCases.simps) simp
      moreover have "harmless t" if "m_bounce t \<noteq> None"
        using turn_harmless [OF less.prems(1,2) o [unfolded Inr True] that] .
      ultimately show ?thesis using h by (simp add: quiet_def)
    next
      case False
      have "turned n s f t"
        by (rule conjunct1 [OF wpD_Inr [OF interpretOne_ok [OF less.prems(1), of K E]]]) (simp only: o Inr)
      with False have t: "unat (m_io_gas t) < unat (m_io_gas s)" "head n t"
        by (simp_all add: turned_def word_less_nat_alt)
      have "interpretCases K E t = Some res"
        using less.prems(3) o Inr False by (subst (asm) interpretCases.simps) simp
      with less.hyps [OF t h] show ?thesis by simp
    qed
  qed
qed

lemma trampoline_static:
  fixes E :: "('e, 'w) ExtVMFace"
  assumes "read_only w E" "gas_lawful E"
  shows "entered n b s \<Longrightarrow> held w v s \<Longrightarrow> (b \<noteq> InterpretCases \<Longrightarrow> harmless s \<and> b = CaseCall) \<Longrightarrow>
    trampoline opt K E b s = Some (r, t) \<Longrightarrow> held w v t"
proof (induction "weight b s" arbitrary: b s rule: less_induct)
  case less
  obtain q u where qu: "run_bounce opt K E b s = Some (q, u)"
    "\<And>b'. q = Inr () \<Longrightarrow> m_bounce u = Some b' \<Longrightarrow> entered n b' u \<and> weight b' u < weight b s"
    using run_bounce_ok [OF less.prems(1) assms(2), of opt K] by blast
  have h: "held w v u \<and> (q = Inr () \<and> m_bounce u \<noteq> None \<and> m_bounce u \<noteq> Some InterpretCases \<longrightarrow> harmless u)"
  proof (cases "b = InterpretCases")
    case True
    then have "interpretCases K E s = Some (q, u)" "head n s"
      using qu(1) less.prems(1) by (simp_all add: run_bounce_def entered_def)
    from loop_static [OF assms(1) this(2) less.prems(2) this(1)] show ?thesis by (simp add: quiet_def)
  next
    case False
    then have c: "calling n CaseCall s" "harmless s" "b = CaseCall"
      using less.prems(1,3) by (auto simp: entered_def)
    have u: "caseCall E s = (q, u)" using qu(1) c(3) by (simp add: run_bounce_def)
    have "held w v u" using held_caseCall [OF assms(1) c(1) less.prems(2) c(2)] u by simp
    moreover have "m_bounce u = Some InterpretCases" if "q = Inr ()"
      using wpD_Inr [OF caseCall_ok [OF c(1) assms(2)], of "()" u] u that by (simp add: called_def)
    ultimately show ?thesis by auto
  qed
  show ?case
  proof (cases "\<exists>b'. q = Inr () \<and> m_bounce u = Some b'")
    case False
    then have "t = u" using less.prems(4) qu(1) by (subst (asm) trampoline.simps) (auto split: sum.splits option.splits)
    with h show ?thesis by simp
  next
    case True
    then obtain b' where b': "q = Inr ()" "m_bounce u = Some b'" by blast
    then have "trampoline opt K E b' u = Some (r, t)"
      using less.prems(4) qu(1) by (subst (asm) trampoline.simps) simp
    moreover have "harmless u \<and> b' = CaseCall" if "b' \<noteq> InterpretCases"
      using h b' that by (auto simp: harmless_def)
    ultimately show ?thesis using less.hyps [of b' u] qu(2) [OF b'] h by blast
  qed
qed

end
