(* ===== verification/VmProps.thy ===== *)
theory VmProps
  imports VmSim VmStatic
begin

text \<open>
  What the lemmas on the interpreter give for \<open>VM::exec\<close> and its parts: it returns, it
  never leaves its arrays, it hands back no more gas than it got, with or without the
  optimising pass and with the same result; static contexts, jump destinations and the
  arithmetic that is not a word operation.
\<close>

section \<open>The machine after the optimising pass\<close>

text \<open>The first machine runs the code as the first pass left it, the second the optimised code.\<close>

lemma init_sim:
  fixes E :: "('e, 'w) ExtVMFace"
  assumes "length (ext_code x) \<le> 458752" "sched_ok (x_evmSchedule E x)"
    and "initEntry False (start E gas x onOp) = (r :: 'e vm_exn + unit, s)"
    and "initEntry True (start E gas x onOp) = (r' :: 'e vm_exn + unit, t)"
  shows "r' = Inr () \<and> met (length (ext_code x)) InterpretCases s t \<and> m_bounce t = Some InterpretCases"
proof -
  let ?n = "length (ext_code x)"
  obtain C D where p: "jumpdest_pass ?n 0 (copyCode 33 (ext_code x)) [] = (C, D)"
    by (cases "jumpdest_pass ?n 0 (copyCode 33 (ext_code x)) []")
  obtain C' P where q: "optimize_pass ?n D 0 (C, []) = (C', P)" by (cases "optimize_pass ?n D 0 (C, [])")
  have small: "?n < 2 ^ 63" using assms(1) by simp
  have pr: "prepared ?n C D" by (rule jumpdest_pass_prepared [OF small p])
  have s: "s = (start E gas x onOp)\<lparr>m_bounce := Some InterpretCases, m_code := C, m_jumpDests := D\<rparr>"
    using assms(3) p by (simp add: initEntry_def optimize_def exc_defs start_def newVM_def)
  have t: "r' = Inr ()" "t = s\<lparr>m_code := C', m_pool := P\<rparr>"
    using assms(4) p q s by (auto simp: initEntry_def optimize_def exc_defs start_def newVM_def)
  have "length P \<le> (?n + 6) div 7" using optimize_pass_pool [of ?n D 0 C "[]"] q by simp
  also have "\<dots> \<le> (458752 + 6) div 7" using assms(1) by (intro div_le_mono) simp
  finally have len: "length P \<le> 65536" by simp
  have o: "length C' = ?n + 33 \<and> (\<forall>i < 0. C' ! i = C ! i) \<and> (\<exists>Q. P = [] @ Q) \<and>
      (\<forall>q. walk ?n C 0 q \<longrightarrow> opt_at ?n C C' P D q (instruction (C ! q)))"
    by (rule optimize_pass_spec [OF q len walk_here]) (use pr in \<open>auto simp: prepared_def reached_def\<close>)
  then have at: "walk ?n C 0 q \<Longrightarrow> opt_at ?n C C' P D q (instruction (C ! q))" for q by simp
  have h: "head ?n s" using init_head [OF small assms(2,3)] by simp
  have "instruction (C' ! 0) \<notin> {JUMPC, JUMPCI}"
  proof
    assume j: "instruction (C' ! 0) \<in> {JUMPC, JUMPCI}"
    have "landed ?n C D 0" by (rule opt_jump [OF pr walk_here at j]) (rule walk_here)
    then show False by (auto simp: landed_def)
  qed
  moreover have f: "m_code s = C" "m_jumpDests s = D" "m_PC s = 0" "m_bounce s = Some InterpretCases"
    "m_code t = C'" "m_pool t = P" "m_bounce t = m_bounce s"
    by (simp_all add: s t(2) start_def)
  ultimately have "aimed s t" by (simp add: aimed_def)
  moreover have "coded ?n s t" unfolding coded_def f using o pr at by (simp add: prepared_def)
  moreover have "er False s t" by (simp add: er_def t(2))
  ultimately show ?thesis using h t(1) f by (simp add: met_def sim_def)
qed

lemma exec_opt:
  fixes E :: "('e, 'w) ExtVMFace"
  assumes "length (ext_code x) \<le> 458752" "sched_ok (x_evmSchedule E x)" "gas_lawful E"
  shows "exec True K E gas x onOp = exec False K E gas x onOp"
proof -
  let ?s = "start E gas x onOp"
  obtain r r' :: "'e vm_exn + unit" and s t
    where i: "initEntry False ?s = (r, s)" "initEntry True ?s = (r', t)" by (meson surj_pair)
  have small: "length (ext_code x) < 2 ^ 63" using assms(1) by simp
  note h = init_head [OF small assms(2) i(1)] and m = init_sim [OF assms(1,2) i]
  have tr: "trampoline False K E InitEntry ?s = trampoline False K E InterpretCases s"
    "trampoline True K E InitEntry ?s = trampoline True K E InterpretCases t"
    using i h m by (subst trampoline.simps, simp add: run_bounce_def)+
  obtain r1 u v where "trampoline False K E InterpretCases s = Some (r1, u)"
    "trampoline True K E InterpretCases t = Some (r1, v)" "er False u v"
    using trampoline_sim [OF assms(3), of "length (ext_code x)" InterpretCases s t] m by blast
  then show ?thesis using tr by (simp add: exec_def er_def split: sum.splits)
qed


section \<open>Jump destinations\<close>

lemma jumpdest_pass_bytes:
  assumes "jumpdest_pass n pc code D = (code', D')"
  shows "code' ! i = code ! i \<or> synthetic (instruction (code ! i)) \<and> code' ! i = byte_INVALID"
  using assms
proof (induction n pc code D rule: jumpdest_pass.induct)
  case (1 n pc code D)
  show ?case
  proof (cases "pc < n")
    case True
    define op where "op = instruction (code ! pc)"
    define c1 where "c1 = (if op \<in> {PUSHC, JUMPC, JUMPCI} then code[pc := byte_INVALID] else code)"
    define D1 where "D1 = (if op = JUMPDEST then D @ [of_nat pc] else D)"
    have "jumpdest_pass n (pc + push_len op + 1) c1 D1 = (code', D')"
      using "1.prems" True by (subst (asm) jumpdest_pass.simps) (simp add: op_def c1_def D1_def Let_def)
    from "1.IH" [OF True op_def c1_def [unfolded op_def, folded op_def] D1_def this]
    have "code' ! i = c1 ! i \<or> synthetic (instruction (c1 ! i)) \<and> code' ! i = byte_INVALID" .
    moreover have "c1 ! i = code ! i \<or> synthetic (instruction (code ! i)) \<and> c1 ! i = byte_INVALID"
      by (cases "i = pc"; cases "pc < length code") (auto simp: c1_def op_def synthetic_def list_update_beyond)
    ultimately show ?thesis by (auto simp: synthetic_def instruction_bytes)
  qed (use "1.prems" in \<open>subst (asm) jumpdest_pass.simps, simp\<close>)
qed

lemma walk_cong:
  assumes "\<And>i. i < n \<Longrightarrow> push_len (instruction (c ! i)) = push_len (instruction (d ! i))" "walk n c p q"
  shows "walk n d p q"
  using assms(2) by (induction rule: walk.induct) (auto intro: walk.intros simp: assms(1))

text \<open>The first pass leaves the instructions that are priced as they are.\<close>

lemma faulty_code:
  assumes "faulty (length c) (fst (jumpdest_pass (length c) 0 (copyCode 33 c) []))"
  shows "\<exists>q < length c. walk (length c) c 0 q \<and> unpriced (c ! q)"
proof -
  obtain C D where p: "jumpdest_pass (length c) 0 (copyCode 33 c) [] = (C, D)"
    by (cases "jumpdest_pass (length c) 0 (copyCode 33 c) []")
  have b: "C ! i = c ! i \<or> synthetic (instruction (c ! i)) \<and> C ! i = byte_INVALID" if "i < length c" for i
    using jumpdest_pass_bytes [OF p, of i] that by (simp add: copyCode_def nth_append)
  have "push_len (instruction (C ! i)) = push_len (instruction (c ! i))" if "i < length c" for i
    using b [OF that] by (auto simp: synthetic_def instruction_bytes)
  then have w: "walk (length c) C 0 q \<Longrightarrow> walk (length c) c 0 q" for q using walk_cong [of "length c" C c] by metis
  obtain q where q: "q < length c" "walk (length c) C 0 q" "unpriced (C ! q)" using assms by (auto simp: faulty_def p)
  then have "unpriced (c ! q)" using b [OF q(1)] by (auto simp: unpriced_def instruction_bytes info_def)
  with q w show ?thesis by blast
qed

lemma start_dests:
  fixes E :: "('e, 'w) ExtVMFace"
  assumes "length (ext_code x) < 2 ^ 63" "D = m_jumpDests (snd (initEntry opt (start E gas x onOp) :: ('e vm_exn + unit) \<times> 'w vm))"
  shows "sorted D \<and> (d \<in> set D \<longleftrightarrow> unat d < length (ext_code x) \<and> walk (length (ext_code x)) (ext_code x) 0 (unat d) \<and>
    instruction (ext_code x ! unat d) = JUMPDEST)"
proof -
  let ?c = "ext_code x" and ?n = "length (ext_code x)"
  obtain C D' where p: "jumpdest_pass ?n 0 (copyCode 33 ?c) [] = (C, D')"
    by (cases "jumpdest_pass ?n 0 (copyCode 33 ?c) []")
  have D: "D = D'" using assms(2) p by (simp add: initEntry_def optimize_def exc_defs start_def newVM_def split: prod.splits)
  obtain L where L: "D' = map of_nat L" "sorted_wrt (<) L"
      "set L = {q. walk ?n C 0 q \<and> q < ?n \<and> instruction (C ! q) = JUMPDEST}"
    using jumpdest_pass_spec [OF p] by (auto simp: copyCode_def)
  have b: "C ! i = ?c ! i \<or> synthetic (instruction (?c ! i)) \<and> C ! i = byte_INVALID" if "i < ?n" for i
    using jumpdest_pass_bytes [OF p, of i] that by (simp add: copyCode_def nth_append)
  have pl: "push_len (instruction (C ! i)) = push_len (instruction (?c ! i))" if "i < ?n" for i
    using b [OF that] by (auto simp: synthetic_def instruction_bytes)
  have w: "walk ?n C 0 q \<longleftrightarrow> walk ?n ?c 0 q" for q
    using walk_cong [of ?n C ?c] walk_cong [of ?n ?c C] pl by metis
  have j: "instruction (C ! i) = JUMPDEST \<longleftrightarrow> instruction (?c ! i) = JUMPDEST" if "i < ?n" for i
    using b [OF that] by (auto simp: synthetic_def instruction_bytes)
  have small: "\<forall>q \<in> set L. q < 2 ^ 64" using L(3) assms(1) by auto
  have "d \<in> set D' \<longleftrightarrow> unat d \<in> set L"
    using small by (auto simp: L(1) unat_of_nat image_iff intro: bexI [of _ "unat d"])
  then show ?thesis using D L small w j by (auto simp: sorted_of_nat)
qed


section \<open>Arithmetic\<close>

lemma exp256_loop_power: "exp256_loop r b e = r * b ^ unat e"
proof (induction r b e rule: exp256_loop.induct)
  case (1 r b e)
  show ?case
  proof (cases "e = 0")
    case True
    then show ?thesis by (simp add: exp256_loop.simps)
  next
    case False
    have h: "unat (drop_bit 1 e) = unat e div 2" by (simp add: drop_bit_eq_div unat_div)
    have o: "odd e \<longleftrightarrow> odd (unat e)" by (simp add: even_iff_mod_2_eq_zero word_unat_eq_iff unat_mod)
    have "b ^ unat e = (b * b) ^ (unat e div 2) * (if odd (unat e) then b else 1)"
      by (cases "odd (unat e)") (auto simp: power_mult power2_eq_square elim!: oddE evenE)
    then show ?thesis using 1 False h o by (subst exp256_loop.simps) (simp add: ac_simps)
  qed
qed

lemma u2s_sint: "u2s w = sint w"
proof -
  have "take_bit 256 (uint w) = uint w"
    using unsigned_less [of w, where ?'a = int] by (intro take_bit_int_eq_self) simp_all
  then show ?thesis by (simp add: u2s_def sint_uint signed_take_bit_eq_take_bit_minus bit_uint_iff)
qed

lemma signextend_bits:
  "k < 31 \<Longrightarrow> signextend k v = signed_take_bit (unat k * 8 + 7) v"
  by (intro bit_eqI) (auto simp: signextend_def Let_def bit_signed_take_bit_iff push_bit_of_1 mask_eq_exp_minus_1 [symmetric]
      bit_or_iff bit_and_iff bit_not_iff bit_mask_iff min_def)

lemma sint_signed_take_bit: "n < 255 \<Longrightarrow> sint (signed_take_bit n (w :: u256)) = signed_take_bit n (uint w)"
  by (intro bit_eqI) (auto simp: bit_sint_iff bit_signed_take_bit_iff bit_uint_iff min_def)


section \<open>Consequences\<close>

lemma verify_exact:
  assumes "sorted D"
  shows "verifyJumpDest D d = Some pc \<longleftrightarrow> unat d = unat pc \<and> unat pc < 2 ^ 63 \<and> pc \<in> set D"
proof -
  have n: "d \<le> 0x7FFFFFFFFFFFFFFF \<longleftrightarrow> unat d < 2 ^ 63" by (simp add: word_le_nat_alt) arith
  have u: "unat d < 2 ^ 63 \<Longrightarrow> unat (ucast d :: u64) = unat d" by (intro unat_down) simp
  have e: "unat d < 2 ^ 63 \<Longrightarrow> ucast d = pc \<longleftrightarrow> unat d = unat pc" using u by (metis word_unat_eq_iff)
  show ?thesis
  proof (cases "unat d < 2 ^ 63 \<and> unat d = unat pc")
    case True
    then have "ucast d = pc" using e by blast
    with True show ?thesis by (simp add: verifyJumpDest_def binary_search_mem [OF assms] n)
  next
    case False
    then show ?thesis using e by (auto simp: verifyJumpDest_def n)
  qed
qed

lemma exec_static:
  fixes E :: "('e, 'w) ExtVMFace"
  assumes "length (ext_code x) < 2 ^ 63" "sched_ok (x_evmSchedule E x)" "gas_lawful E" "read_only view E"
    and "staticCall x" "\<not> haveCreate2 (x_evmSchedule E x)"
  shows "\<exists>r gas' x'. exec False K E gas x onOp = Some (r, gas', x') \<and> view x' = view x \<and> staticCall x'"
proof -
  let ?s = "start E gas x onOp"
  obtain r :: "'e vm_exn + unit" and s where i: "initEntry False ?s = (r, s)" by (meson surj_pair)
  note h = init_head [OF assms(1,2) i]
  have e: "entered (length (ext_code x)) InterpretCases s" using h by (simp add: entered_def)
  have hs: "held view (view x) s"
    using i assms(5,6) by (auto simp: held_def initEntry_def optimize_def exc_defs Let_def start_def newVM_def split: prod.splits)
  obtain q u where u: "trampoline False K E InterpretCases s = Some (q, u)"
    using trampoline_returns [OF assms(3) e, of False K] by (metis prod.exhaust)
  have "trampoline False K E InitEntry ?s = Some (q, u)"
    using i h u by (subst trampoline.simps) (simp add: run_bounce_def)
  moreover have "held view (view x) u" using trampoline_static [OF assms(4,3) e hs _ u] by simp
  ultimately show ?thesis by (cases q) (auto simp: exec_def held_def)
qed

lemma turn_stack:
  fixes E :: "('e, 'w) ExtVMFace"
  assumes "head n s"
  shows "wp (interpretOne K E) (\<lambda>f t. f \<noteq> BREAK \<longrightarrow>
      (let op = instruction (m_code s ! unat (m_PC s)) in
       m_SPP t = m_SPP s + int (nargs op) - int (nret op) \<and>
       (\<forall>j. m_SPP s + int (nargs op) \<le> int j \<longrightarrow> m_stack t ! j = m_stack s ! j))) (\<lambda>_ _. True) s"
proof -
  let ?op = "instruction (m_code s ! unat (m_PC s))"
  obtain r t where o: "interpretOne K E s = (r, t)" by (cases "interpretOne K E s")
  show ?thesis
  proof (cases r)
    case (Inr f)
    obtain s1 u where f: "(fetchInstruction :: ('e, 'w, unit) vmE) s = (Inr (), s1)"
      and ic: "interpretCase K E (m_OP s1) s1 = (Inr f, u)" and t: "t = (if f = NEXT then u\<lparr>m_PC := m_PC u + 1\<rparr> else u)"
      using interpretOne_InrD [OF o [unfolded Inr]] by blast
    have fe: "fetched s s1" using wpD_Inr [OF fetch_ok [OF assms] f] by blast
    then have r: "ready ?op s1" and sp: "m_SP s1 = m_SPP s" "m_stack s1 = m_stack s" by (simp_all add: fetched_def)
    have "did ?op s1 f u" by (rule did_of [OF assms fe refl]) (use ic r in \<open>simp add: ready_def\<close>)
    then have "m_SPP u = m_SPP s1" "\<forall>j. m_SP s1 + int (nargs ?op) \<le> int j \<longrightarrow> m_stack u ! j = m_stack s1 ! j"
      by (simp_all add: did_def frame_def)
    with r sp t o Inr show ?thesis by (simp add: wp_def ready_def Let_def)
  qed (use o in \<open>simp add: wp_def\<close>)
qed


section \<open>An object behind the interface\<close>

text \<open>
  The storage of one contract, on top of the default methods of \<open>ExtVMFace\<close>; calls and
  creations do nothing and give their gas back.
\<close>

definition wit_face :: "(unit, u256 \<Rightarrow> u256) ExtVMFace" where
  "wit_face = \<lparr>x_store = (\<lambda>k. getE (\<lambda>x. world x k)),
     x_setStore = (\<lambda>k v. updE (\<lambda>x. x\<lparr>world := (world x)(k := v)\<rparr>)), x_balance = (\<lambda>_. ret 0),
     x_codeAt = (\<lambda>_. ret []), x_codeSizeAt = (\<lambda>_. ret 0), x_exists = (\<lambda>_. ret False),
     x_suicide = ExtVMFace_suicide, x_create = (\<lambda>_ g _ _ _ _. ret (0, [], g)),
     x_call = (\<lambda>p. ret (True, [], cp_gas p)), x_log = ExtVMFace_log, x_blockHash = (\<lambda>_. ret 0),
     x_evmSchedule = (\<lambda>_. ByzantiumSchedule)\<rparr>"

definition wit_ext :: "bytes \<Rightarrow> bool \<Rightarrow> (u256 \<Rightarrow> u256) ExtVM" where
  "wit_ext code st = \<lparr>myAddress = 1, caller = 2, origin = 2, ext_value = 0, gasPrice = 1, ext_data = [],
     ext_code = code, ext_codeHash = 0, sub = \<lparr>suicides = {}, logs = [], refunds = 0\<rparr>, depth = 0,
     staticCall = st, envInfo = \<lparr>env_author = 3, env_number = 1, env_timestamp = 1, env_difficulty = 1,
       env_gasLimit = 1000000\<rparr>, world = (\<lambda>_. 0)\<rparr>"

text \<open>\<open>PUSH1 5, PUSH1 0, SSTORE, PUSH1 8, JUMP, JUMPDEST\<close>\<close>

definition wit_code :: bytes where
  "wit_code = [0x60, 5, 0x60, 0, 0x55, 0x60, 8, 0x56, 0x5b]"

lemma wit_lawful:
  "gas_lawful wit_face" "sched_ok (x_evmSchedule wit_face x)" "length wit_code = 9"
  "staticCall (wit_ext c b) = b" "ext_code (wit_ext c b) = c"
  by (auto simp: gas_lawful_def wit_face_def schedules_ok wit_ext_def wit_code_def)

lemma wit_read_only: "read_only (\<lambda>x. (world x, sub x)) wit_face"
  by (simp add: read_only_def Let_def wit_face_def)


section \<open>Properties of the interpreter\<close>



text \<open>
  C6: the optimising pass is sound. For code of at most 458752 bytes \<open>VM::exec\<close> gives the
  same output or exception, the same gas left and the same object behind the interface
  whether \<open>EVM_OPTIMIZE\<close> is on or off: constants read from the pool are the pushed ones, and
  the jumps that are no longer checked have valid destinations.
\<close>

theorem optimize_sound:
  assumes "length (ext_code x) \<le> 458752" "sched_ok (x_evmSchedule E x)" "gas_lawful E"
  shows "exec True K E gas x onOp = exec False K E gas x onOp"
  by (rule exec_opt [OF assms])

theorem optimize_sound_witness:
  "length (ext_code (wit_ext wit_code False)) = 9 \<and> sched_ok (x_evmSchedule wit_face (wit_ext wit_code False)) \<and>
   gas_lawful wit_face \<and>
   exec True (\<lambda>_. 0) wit_face 100000 (wit_ext wit_code False) True =
   exec False (\<lambda>_. 0) wit_face 100000 (wit_ext wit_code False) True"
  using optimize_sound [of "wit_ext wit_code False" wit_face "\<lambda>_. 0" 100000 True] by (simp add: wit_lawful)

text \<open>
  C7: in a static context the machine changes nothing an observer sees. Whatever the code, if
  the reading methods and the calls that are marked static and move no value to another
  account keep a view of the object behind the interface, then so does \<open>VM::exec\<close>, which
  returns: storage writes, logs, self destruction, creations and calls with value are
  refused before they reach the interface. This needs a schedule without \<open>CREATE2\<close>.
\<close>

theorem static_context_safe:
  assumes "length (ext_code x) < 2 ^ 63" "opt \<Longrightarrow> length (ext_code x) \<le> 458752"
    and "sched_ok (x_evmSchedule E x)" "gas_lawful E" "read_only view E"
    and "staticCall x" "\<not> haveCreate2 (x_evmSchedule E x)"
  shows "\<exists>r gas' x'. exec opt K E gas x onOp = Some (r, gas', x') \<and> view x' = view x \<and> staticCall x'"
proof -
  have eq: "exec opt K E gas x onOp = exec False K E gas x onOp"
    using exec_opt [OF assms(2,3,4)] by (cases opt) simp_all
  show ?thesis unfolding eq by (rule exec_static [OF assms(1,3-7)])
qed

theorem static_context_safe_witness:
  "length wit_code = 9 \<and> sched_ok (x_evmSchedule wit_face (wit_ext wit_code True)) \<and> gas_lawful wit_face \<and>
   read_only (\<lambda>x. (world x, sub x)) wit_face \<and> staticCall (wit_ext wit_code True) \<and>
   \<not> haveCreate2 (x_evmSchedule wit_face (wit_ext wit_code True)) \<and>
   (\<exists>r gas' x'. exec True (\<lambda>_. 0) wit_face 100000 (wit_ext wit_code True) True = Some (r, gas', x') \<and>
      (world x', sub x') = (world (wit_ext wit_code True), sub (wit_ext wit_code True)) \<and> staticCall x')"
proof -
  have c: "\<not> haveCreate2 (x_evmSchedule wit_face (wit_ext wit_code True))"
    by (simp add: wit_face_def schedule_defs)
  show ?thesis
    using static_context_safe [of "wit_ext wit_code True" True wit_face "\<lambda>x. (world x, sub x)" "\<lambda>_. 0" 100000 True]
      c wit_read_only
    by (simp add: wit_lawful)
qed


definition wit_static :: "(u256 \<Rightarrow> u256) vm" where
  "wit_static = (newVM (wit_ext [0xfb] True))\<lparr>m_schedule := ConstantinopleSchedule\<rparr>"



definition wit_vm :: "(u256 \<Rightarrow> u256) vm" where
  "wit_vm = snd (initEntry False (start wit_face 100000 (wit_ext wit_code False) True) ::
     (unit vm_exn + unit) \<times> (u256 \<Rightarrow> u256) vm)"


text \<open>
  C18: a jump is accepted exactly when its destination, read at full width, is a position of the
  code where an instruction starts, counting from the first byte and skipping the bytes of
  constants, and that instruction is \<open>JUMPDEST\<close>.
\<close>

theorem jumpdests_exact:
  fixes E :: "('e, 'w) ExtVMFace"
  assumes "length (ext_code x) < 2 ^ 63"
  shows "verifyJumpDest (m_jumpDests (snd (initEntry opt (start E gas x onOp) :: ('e vm_exn + unit) \<times> 'w vm))) d = Some pc
    \<longleftrightarrow> unat d = unat pc \<and> unat pc < length (ext_code x) \<and>
      walk (length (ext_code x)) (ext_code x) 0 (unat pc) \<and> instruction (ext_code x ! unat pc) = JUMPDEST"
  unfolding verify_exact [OF start_dests [OF assms refl, THEN conjunct1]]
  using start_dests [OF assms refl, where d = pc and opt = opt and E = E and gas = gas and onOp = onOp, THEN conjunct2] assms by auto

theorem jumpdests_exact_witness:
  "length (ext_code (wit_ext wit_code False)) < 2 ^ 63 \<and>
   (verifyJumpDest (m_jumpDests (snd (initEntry True (start wit_face 100000 (wit_ext wit_code False) True) ::
      (unit vm_exn + unit) \<times> (u256 \<Rightarrow> u256) vm))) 8 = Some 8 \<longleftrightarrow>
    unat (8 :: u256) = unat (8 :: u64) \<and> unat (8 :: u64) < length (ext_code (wit_ext wit_code False)) \<and>
    walk (length (ext_code (wit_ext wit_code False))) (ext_code (wit_ext wit_code False)) 0 (unat (8 :: u64)) \<and>
    instruction (ext_code (wit_ext wit_code False) ! unat (8 :: u64)) = JUMPDEST)"
proof -
  have l: "length (ext_code (wit_ext wit_code False)) < 2 ^ 63" by (simp add: wit_lawful)
  show ?thesis using jumpdests_exact [OF l, of True wit_face 100000 True 8 8] l by blast
qed

text \<open>
  C38: \<open>VM::exp256\<close>, exponentiation by squaring, is the power modulo \<open>2 ^ 256\<close>.
\<close>

theorem exp256_power: "exp256 b e = b ^ unat e"
  by (simp add: exp256_def exp256_loop_power)

text \<open>
  C39: \<open>SIGNEXTEND\<close> with a byte index below 31 gives the number whose signed reading is that of
  the low bytes up to that index; any other index leaves the number alone.
\<close>

theorem signextend_exact:
  "u2s (signextend k v) = (if k < 31 then signed_take_bit (unat k * 8 + 7) (uint v) else u2s v)"
proof (cases "k < 31")
  case True
  then have "unat k * 8 + 7 < 255" by (simp add: word_less_nat_alt)
  with True show ?thesis by (simp add: u2s_sint signextend_bits sint_signed_take_bit)
qed (simp add: signextend_def)

end
