(* ===== verification/Config.thy ===== *)
theory Config
  imports Exc
begin

text \<open>
  The small units of libproducer: the constants of \<open>config.hpp\<close>, the packed version
  numbers of \<open>version.hpp\<close> and \<open>version.cpp\<close>, and the pseudo random shuffle of
  \<open>rand.hpp\<close> that orders a round of producers.
\<close>

section \<open>Constants\<close>

definition BlockIntervalSeconds :: nat where "BlockIntervalSeconds = 3"
definition StartMinerVotingBlock :: nat where "StartMinerVotingBlock = 84"
definition DPOSVotedProducersPerRound :: nat where "DPOSVotedProducersPerRound = 16"
definition DPOSRunnerupProducersPerRound :: nat where "DPOSRunnerupProducersPerRound = 1"
definition POWProducersPerRound :: nat where "POWProducersPerRound = 4"
definition TotalProducersPerRound :: nat where "TotalProducersPerRound = 21"
definition ETI_HardforkNum :: nat where "ETI_HardforkNum = 0"
definition ETI_HardforkRequiredProducers :: nat where "ETI_HardforkRequiredProducers = 1"
definition Percent100 :: nat where "Percent100 = 10000"
definition IrreversibleThresholdPercent :: nat where "IrreversibleThresholdPercent = 70 * 100"

lemmas config_defs = BlockIntervalSeconds_def StartMinerVotingBlock_def
  DPOSVotedProducersPerRound_def DPOSRunnerupProducersPerRound_def POWProducersPerRound_def
  TotalProducersPerRound_def ETI_HardforkNum_def ETI_HardforkRequiredProducers_def
  Percent100_def IrreversibleThresholdPercent_def

text \<open>The length of the race track is the largest 128-bit number.\<close>

definition ProducerRaceLapLength :: u128 where "ProducerRaceLapLength = - 1"

text \<open>
  \<open>ETH_PERCENT\<close> at \<open>size_t\<close>, for the producer counts it is used on; the product of
  a count and a percentage is far below \<open>2 ^ 64\<close>.
\<close>

definition ETH_PERCENT :: "nat \<Rightarrow> nat \<Rightarrow> nat" where
  "ETH_PERCENT value percentage = value * percentage div Percent100"


section \<open>Versions\<close>

text \<open>\<open>v_num\<close>, the only field of \<open>version\<close> and \<open>hardfork_version\<close>.\<close>

type_synonym ver = u32

definition version_of :: "u8 \<Rightarrow> u8 \<Rightarrow> 16 word \<Rightarrow> ver" where
  "version_of m h r =
     (let v = push_bit 8 (0 OR ucast m);
          v = push_bit 16 (v OR ucast h)
      in v OR ucast r)"

definition hardfork_version_of :: "u8 \<Rightarrow> u8 \<Rightarrow> ver" where
  "hardfork_version_of m h = version_of m h 0"

definition hardfork_version_from :: "ver \<Rightarrow> ver" where
  "hardfork_version_from v = v AND 0xFFFF0000"

definition version_fields :: "ver \<Rightarrow> u32 \<times> u32 \<times> u32" where
  "version_fields v =
     (drop_bit 24 v AND 0x000000FF, drop_bit 16 v AND 0x000000FF, v AND 0x0000FFFF)"

text \<open>\<open>operator fc::string\<close>: the three fields in decimal, separated by points.\<close>

function dec_string :: "nat \<Rightarrow> string" where
  "dec_string n =
     (if n < 10 then [char_of (48 + n)] else dec_string (n div 10) @ [char_of (48 + n mod 10)])"
  by auto
termination by (relation "measure id") auto

definition version_string :: "ver \<Rightarrow> string" where
  "version_string v =
     (case version_fields v of (a, b, c) \<Rightarrow>
        dec_string (unat a) @ ''.'' @ dec_string (unat b) @ ''.'' @ dec_string (unat c))"

text \<open>
  \<open>hardfork_version::operator <\<close> against a \<open>version\<close> ignores the release number.
\<close>

definition hardfork_less :: "ver \<Rightarrow> ver \<Rightarrow> bool" where
  "hardfork_less v w \<longleftrightarrow> v < (w AND 0xFFFF0000)"

definition hardfork_greater :: "ver \<Rightarrow> ver \<Rightarrow> bool" where
  "hardfork_greater v w \<longleftrightarrow> v > (w AND 0xFFFF0000)"


section \<open>Pseudo random shuffle\<close>

text \<open>\<open>random::next\<close>: the new seed and the number.\<close>

definition rand_next :: "u64 \<Rightarrow> u64 \<times> u64" where
  "rand_next seed =
     (let seed = seed + 0x9E3779B97F4A7C15;
          z = seed;
          z = (z XOR drop_bit 30 z) * 0xBF58476D1CE4E5B9;
          z = (z XOR drop_bit 27 z) * 0x94D049BB133111EB
      in (seed, z XOR drop_bit 31 z))"

definition swap_at :: "nat \<Rightarrow> nat \<Rightarrow> 'a list \<Rightarrow> 'a list" where
  "swap_at i j xs = xs[i := xs ! j, j := xs ! i]"

text \<open>
  The loop of \<open>random::shuffle\<close>: the reverse iterator \<open>idx\<close> stands at position
  \<open>idx_count - 1\<close> and the loop ends before the first element.
\<close>

fun shuffle_loop :: "nat \<Rightarrow> u64 \<Rightarrow> 'a list \<Rightarrow> 'a list" where
  "shuffle_loop idx_count seed xs =
     (if idx_count \<le> 1 then xs
      else case rand_next seed of (seed', r) \<Rightarrow>
        shuffle_loop (idx_count - 1) seed'
          (swap_at (unat (r mod of_nat idx_count)) (idx_count - 1) xs))"

declare shuffle_loop.simps [simp del]

definition shuffle :: "u64 \<Rightarrow> 'a list \<Rightarrow> 'a list" where
  "shuffle seed xs = shuffle_loop (length xs) seed xs"


section \<open>Lemmas\<close>

lemma length_swap_at [simp]: "length (swap_at i j xs) = length xs"
  by (simp add: swap_at_def)

lemma mset_swap_at: "i < length xs \<Longrightarrow> j < length xs \<Longrightarrow> mset (swap_at i j xs) = mset xs"
  by (simp add: swap_at_def mset_swap)

lemma rand_index_less:
  fixes r :: u64
  assumes "0 < n" "n < 2 ^ 64"
  shows "unat (r mod of_nat n) < n"
proof -
  have "unat (of_nat n :: u64) = n" using assms by (simp add: unat_of_nat take_bit_nat_eq_self)
  with assms(1) show ?thesis by (simp add: unat_mod)
qed

lemma shuffle_loop_mset:
  "n \<le> length xs \<Longrightarrow> length xs < 2 ^ 64 \<Longrightarrow> mset (shuffle_loop n seed xs) = mset xs"
proof (induction n seed xs rule: shuffle_loop.induct)
  case (1 n seed xs)
  show ?case
  proof (cases "n \<le> 1")
    case True
    then show ?thesis by (simp add: shuffle_loop.simps)
  next
    case False
    obtain s r where r: "rand_next seed = (s, r)" by (cases "rand_next seed")
    from False 1(2,3) have "unat (r mod of_nat n) < n" by (intro rand_index_less) auto
    with False r 1(2,3) 1(1) [OF False r [symmetric]] show ?thesis
      by (subst shuffle_loop.simps) (simp add: mset_swap_at)
  qed
qed

text \<open>
  C29: the shuffle is a permutation of the round it is given, whatever the seed; every
  swap it makes is inside the range.
\<close>

theorem shuffle_permutes:
  assumes "length xs < 2 ^ 64"
  shows "mset (shuffle seed xs) = mset xs"
  using assms by (simp add: shuffle_def shuffle_loop_mset)

theorem shuffle_permutes_witness: "mset (shuffle 1513580324 [1 .. 21]) = mset [1 .. 21]"
  by (rule shuffle_permutes) simp

lemma version_of_or:
  "version_of m h r = (push_bit 24 (ucast m) OR push_bit 16 (ucast h)) OR ucast r"
  by (simp add: version_of_def Let_def push_bit_or)

lemma version_of_plus:
  "version_of m h r = of_nat (unat m * 2 ^ 24 + unat h * 2 ^ 16 + unat r)"
proof -
  have "version_of m h r = push_bit 24 (ucast m) + push_bit 16 (ucast h) + ucast r"
    unfolding version_of_or
    by (subst disjunctive_add, fastforce simp: bit_simps dest: bit_imp_le_length,
        subst disjunctive_add, fastforce simp: bit_simps dest: bit_imp_le_length) simp
  then show ?thesis
    by (simp add: push_bit_eq_mult)
qed

lemma unat_version_of:
  "unat (version_of m h r) = unat m * 2 ^ 24 + unat h * 2 ^ 16 + unat r"
proof -
  have "unat m < 2 ^ 8" "unat h < 2 ^ 8" "unat r < 2 ^ 16"
    using unsigned_less [of m] unsigned_less [of h] unsigned_less [of r] by simp_all
  then have "unat m * 2 ^ 24 + unat h * 2 ^ 16 + unat r < 2 ^ 32" by simp
  then show ?thesis
    by (simp only: version_of_plus unat_of_nat take_bit_nat_eq_self len_num1 len_bit0) simp
qed

lemma version_masks:
  "(0x000000FF :: u32) = mask 8" "(0x0000FFFF :: u32) = mask 16"
  "(0xFFFF0000 :: u32) = push_bit 16 (mask 16)"
  by (simp_all add: mask_eq_exp_minus_1 push_bit_eq_mult)

lemma fields3:
  fixes a b c :: nat
  assumes "a < 256" "b < 256" "c < 65536"
  shows "(a * 16777216 + b * 65536 + c) div 65536 mod 256 = b"
    and "(a * 16777216 + b * 65536 + c) mod 65536 = c"
proof -
  have e: "a * 16777216 + b * 65536 + c = (a * 256 + b) * 65536 + c" by simp
  have "(a * 16777216 + b * 65536 + c) div 65536 = a * 256 + b"
    unfolding e using assms(3) by (subst div_mult_self3) simp_all
  then show "(a * 16777216 + b * 65536 + c) div 65536 mod 256 = b"
    using assms(2) by simp
  show "(a * 16777216 + b * 65536 + c) mod 65536 = c"
    unfolding e using assms(3) by (subst mod_mult_self3) simp
qed

lemma lex3:
  fixes a b c :: nat
  assumes "b < 256" "c < 65536" "b' < 256" "c' < 65536"
  shows "(a * 2 ^ 24 + b * 2 ^ 16 + c < a' * 2 ^ 24 + b' * 2 ^ 16 + c') =
     (a < a' \<or> a = a' \<and> b < b' \<or> a = a' \<and> b = b' \<and> c < c')"
proof (cases a a' rule: linorder_cases)
  case less
  then have "a + 1 \<le> a'" by simp
  with less assms show ?thesis by simp
next
  case equal
  then show ?thesis using assms by (cases b b' rule: linorder_cases) simp_all
next
  case greater
  then have "a' + 1 \<le> a" by simp
  with greater assms show ?thesis by simp
qed

lemma version_fields_of: "version_fields (version_of m h r) = (ucast m, ucast h, ucast r)"
proof -
  have lt: "unat m < 2 ^ 8" "unat h < 2 ^ 8" "unat r < 2 ^ 16"
    using unsigned_less [of m] unsigned_less [of h] unsigned_less [of r] by simp_all
  then have "unat (take_bit 8 (drop_bit 24 (version_of m h r))) = unat m"
    "unat (take_bit 8 (drop_bit 16 (version_of m h r))) = unat h"
    "unat (take_bit 16 (version_of m h r)) = unat r"
    by (simp_all add: take_bit_eq_mod drop_bit_eq_div unat_mod unat_div unat_version_of fields3)
  with lt show ?thesis
    by (simp add: version_fields_def version_masks(1,2) word_unat_eq_iff unsigned_ucast_eq
      take_bit_nat_eq_self flip: take_bit_eq_mask)
qed

lemma hardfork_version_from_of: "hardfork_version_from (version_of m h r) = hardfork_version_of m h"
  unfolding hardfork_version_from_def hardfork_version_of_def version_of_or version_masks(3)
  by (rule bit_word_eqI) (auto simp: bit_simps dest: bit_imp_le_length)

text \<open>
  C30: packing a version and reading its fields back gives the fields, and the packed
  numbers compare as the triples do, in lexicographic order.
\<close>

theorem version_pack_order:
  "version_fields (version_of m h r) = (ucast m, ucast h, ucast r) \<and>
   hardfork_version_from (version_of m h r) = hardfork_version_of m h \<and>
   (version_of m h r < version_of m' h' r') =
     (m < m' \<or> m = m' \<and> h < h' \<or> m = m' \<and> h = h' \<and> r < r')"
proof (intro conjI)
  show "version_fields (version_of m h r) = (ucast m, ucast h, ucast r)"
    by (rule version_fields_of)
  show "hardfork_version_from (version_of m h r) = hardfork_version_of m h"
    by (rule hardfork_version_from_of)
  have lt: "unat m < 2 ^ 8" "unat h < 2 ^ 8" "unat r < 2 ^ 16" "unat m' < 2 ^ 8" "unat h' < 2 ^ 8" "unat r' < 2 ^ 16"
    using unsigned_less [of m] unsigned_less [of h] unsigned_less [of r]
      unsigned_less [of m'] unsigned_less [of h'] unsigned_less [of r'] by simp_all
  show "(version_of m h r < version_of m' h' r') =
     (m < m' \<or> m = m' \<and> h < h' \<or> m = m' \<and> h = h' \<and> r < r')"
    unfolding word_less_nat_alt word_unat_eq_iff unat_version_of
    using lt by (intro lex3) simp_all
qed

end
