(* ===== verification/ChainDb.thy ===== *)
theory ChainDb
  imports Config Chainbase_Undo
begin

text \<open>
  The object types of libproducer (\<open>global_property_object.hpp\<close>,
  \<open>producer_object.hpp\<close>, \<open>producer_objects.hpp\<close>) and the database of the chain
  controller: the six indices that \<open>initialize_indexes\<close> adds, with the operations of
  \<open>chainbase::database\<close> that run over all of them. The database is an instance of the
  undoable states, from the instance for one index.
\<close>

section \<open>Objects\<close>

type_synonym time_point_sec = u32
type_synonym ShareType = u64 \<comment> \<open>\<open>int64_t\<close>, read with \<open>sint\<close>\<close>

record process_hardfork_object =
  hardfork_timepoint :: time_point_sec

record global_property_object =
  active_producers :: "address list" \<comment> \<open>an array of length \<open>TotalProducersPerRound\<close>\<close>
  last_hardfork :: nat
  current_hardfork_version :: ver
  next_hardfork :: ver
  next_hardfork_time :: time_point_sec

record dynamic_global_property_object =
  head_block_number :: u32
  head_block_id :: h256
  dgp_time :: time_point_sec
  current_absolute_slot :: u64
  recent_slots_filled :: u64
  last_irreversible_block_num :: u32
  total_pow :: u64
  num_pow_witnesses :: u32

record producer_object =
  owner :: address
  last_aslot :: u64
  total_missed :: u64
  last_confirmed_block_num :: u32
  pow_worker :: u64
  running_version :: ver
  hardfork_ver_vote :: ver
  hardfork_time_vote :: time_point_sec

record race_state =
  speed :: ShareType
  position :: u128
  positionUpdateTime :: u128
  projectedFinishTime :: u128

record ProducerVotesObject =
  ownerName :: address
  race :: race_state

record ProducerScheduleObject =
  currentRaceTime :: u128

text \<open>The default member initialisers, which run before the constructor lambda.\<close>

definition hf_default :: process_hardfork_object where
  "hf_default = \<lparr>hardfork_timepoint = 0\<rparr>"

definition gpo_default :: global_property_object where
  "gpo_default = \<lparr>active_producers = replicate TotalProducersPerRound 0, last_hardfork = 0,
     current_hardfork_version = 0, next_hardfork = 0, next_hardfork_time = 0\<rparr>"

definition dgpo_default :: dynamic_global_property_object where
  "dgpo_default = \<lparr>head_block_number = 0, head_block_id = 0, dgp_time = 0, current_absolute_slot = 0,
     recent_slots_filled = 0, last_irreversible_block_num = 0, total_pow = 0, num_pow_witnesses = 0\<rparr>"

definition producer_default :: producer_object where
  "producer_default = \<lparr>owner = 0, last_aslot = 0, total_missed = 0, last_confirmed_block_num = 0,
     pow_worker = 0, running_version = 0, hardfork_ver_vote = 0, hardfork_time_vote = 0\<rparr>"

definition pvo_default :: ProducerVotesObject where
  "pvo_default = \<lparr>ownerName = 0,
     race = \<lparr>speed = 0, position = 0, positionUpdateTime = 0, projectedFinishTime = - 1\<rparr>\<rparr>"

definition pso_default :: ProducerScheduleObject where
  "pso_default = \<lparr>currentRaceTime = 0\<rparr>"

text \<open>
  The unique secondary indices: \<open>byOwnerName\<close>, \<open>by_owner\<close> and \<open>by_time\<close>. The keys
  of \<open>byProjectedRaceFinishTime\<close> and \<open>by_key\<close> hold the id and never clash.
\<close>

definition no_clash :: "'v \<Rightarrow> 'v \<Rightarrow> bool" where "no_clash v w \<longleftrightarrow> False"

definition pvo_clash :: "ProducerVotesObject \<Rightarrow> ProducerVotesObject \<Rightarrow> bool" where
  "pvo_clash v w \<longleftrightarrow> ownerName v = ownerName w"

definition prod_clash :: "producer_object \<Rightarrow> producer_object \<Rightarrow> bool" where
  "prod_clash v w \<longleftrightarrow> owner v = owner w"

definition hf_clash :: "process_hardfork_object \<Rightarrow> process_hardfork_object \<Rightarrow> bool" where
  "hf_clash v w \<longleftrightarrow> hardfork_timepoint v = hardfork_timepoint w"

lemmas clash_defs = no_clash_def pvo_clash_def prod_clash_def hf_clash_def


section \<open>The database\<close>

text \<open>The index list, in the order of \<open>initialize_indexes\<close>.\<close>

record chaindb =
  db_gpo :: "global_property_object gindex"
  db_dgpo :: "dynamic_global_property_object gindex"
  db_pvo :: "ProducerVotesObject gindex"
  db_pso :: "ProducerScheduleObject gindex"
  db_prod :: "producer_object gindex"
  db_hf :: "process_hardfork_object gindex"

definition initialize_indexes :: chaindb where
  "initialize_indexes = \<lparr>db_gpo = gindex_init, db_dgpo = gindex_init, db_pvo = gindex_init,
     db_pso = gindex_init, db_prod = gindex_init, db_hf = gindex_init\<rparr>"

type_synonym 'a dbE = "(exn, chaindb, 'a) exc"

definition on_gpo :: "(exn, global_property_object gindex, 'a) exc \<Rightarrow> 'a dbE" where
  "on_gpo = zoomE db_gpo db_gpo_update"
definition on_dgpo :: "(exn, dynamic_global_property_object gindex, 'a) exc \<Rightarrow> 'a dbE" where
  "on_dgpo = zoomE db_dgpo db_dgpo_update"
definition on_pvo :: "(exn, ProducerVotesObject gindex, 'a) exc \<Rightarrow> 'a dbE" where
  "on_pvo = zoomE db_pvo db_pvo_update"
definition on_pso :: "(exn, ProducerScheduleObject gindex, 'a) exc \<Rightarrow> 'a dbE" where
  "on_pso = zoomE db_pso db_pso_update"
definition on_prod :: "(exn, producer_object gindex, 'a) exc \<Rightarrow> 'a dbE" where
  "on_prod = zoomE db_prod db_prod_update"
definition on_hf :: "(exn, process_hardfork_object gindex, 'a) exc \<Rightarrow> 'a dbE" where
  "on_hf = zoomE db_hf db_hf_update"

lemmas on_defs = on_gpo_def on_dgpo_def on_pvo_def on_pso_def on_prod_def on_hf_def

definition db_undo :: "unit dbE" where
  "db_undo =
     thenE (on_gpo (undo no_clash)) (thenE (on_dgpo (undo no_clash)) (thenE (on_pvo (undo pvo_clash))
    (thenE (on_pso (undo no_clash)) (thenE (on_prod (undo prod_clash)) (on_hf (undo hf_clash))))))"

definition db_squash :: "chaindb \<Rightarrow> chaindb" where
  "db_squash d = \<lparr>db_gpo = squash (db_gpo d), db_dgpo = squash (db_dgpo d), db_pvo = squash (db_pvo d),
     db_pso = squash (db_pso d), db_prod = squash (db_prod d), db_hf = squash (db_hf d)\<rparr>"

definition db_commit :: "int \<Rightarrow> chaindb \<Rightarrow> chaindb" where
  "db_commit r d = \<lparr>db_gpo = commit r (db_gpo d), db_dgpo = commit r (db_dgpo d),
     db_pvo = commit r (db_pvo d), db_pso = commit r (db_pso d), db_prod = commit r (db_prod d),
     db_hf = commit r (db_hf d)\<rparr>"

definition db_undo_all :: "unit dbE" where
  "db_undo_all =
     thenE (on_gpo (undo_all no_clash)) (thenE (on_dgpo (undo_all no_clash))
    (thenE (on_pvo (undo_all pvo_clash)) (thenE (on_pso (undo_all no_clash))
    (thenE (on_prod (undo_all prod_clash)) (on_hf (undo_all hf_clash))))))"

definition db_start_undo_session :: "bool \<Rightarrow> int dbE" where
  "db_start_undo_session on d =
     (if on then
        bindE (on_gpo (start_undo_session on)) (\<lambda>r.
        thenE (on_dgpo (start_undo_session on)) (thenE (on_pvo (start_undo_session on))
       (thenE (on_pso (start_undo_session on)) (thenE (on_prod (start_undo_session on))
       (thenE (on_hf (start_undo_session on)) (ret r)))))) d
      else (Inr (-1), d))"

definition db_revision :: "chaindb \<Rightarrow> int" where
  "db_revision d = gx_revision (db_gpo d)"

definition db_set_revision :: "int \<Rightarrow> unit dbE" where
  "db_set_revision r =
     thenE (on_gpo (set_revision r)) (thenE (on_dgpo (set_revision r)) (thenE (on_pvo (set_revision r))
    (thenE (on_pso (set_revision r)) (thenE (on_prod (set_revision r)) (on_hf (set_revision r))))))"

text \<open>
  \<open>database::get\<close>, \<open>find\<close> and \<open>modify\<close> at the six types. The singletons have id 0,
  the default of \<open>oid\<close>; \<open>find\<close> by owner returns the id and the object.
\<close>

definition get_global_properties :: "global_property_object dbE" where
  "get_global_properties = on_gpo (gx_get 0)"

definition get_dynamic_global_properties :: "dynamic_global_property_object dbE" where
  "get_dynamic_global_properties = on_dgpo (gx_get 0)"

definition get_schedule :: "ProducerScheduleObject dbE" where
  "get_schedule = on_pso (gx_get 0)"

definition find_pvo :: "address \<Rightarrow> chaindb \<Rightarrow> (int \<times> ProducerVotesObject) option" where
  "find_pvo a d = find (\<lambda>(i, v). ownerName v = a) (gx_indices (db_pvo d))"

definition find_prod :: "address \<Rightarrow> chaindb \<Rightarrow> (int \<times> producer_object) option" where
  "find_prod a d = find (\<lambda>(i, v). owner v = a) (gx_indices (db_prod d))"

definition get_pvo :: "address \<Rightarrow> (int \<times> ProducerVotesObject) dbE" where
  "get_pvo a = bindE (getE (find_pvo a)) (theE OutOfRange)"

definition get_producer :: "address \<Rightarrow> (int \<times> producer_object) dbE" where
  "get_producer a = bindE (getE (find_prod a)) (theE OutOfRange)"

definition modify_gpo :: "(global_property_object \<Rightarrow> global_property_object) \<Rightarrow> unit dbE" where
  "modify_gpo f = on_gpo (modify no_clash 0 (\<lambda>v. (f v, None)))"

definition modify_dgpo :: "(dynamic_global_property_object \<Rightarrow> dynamic_global_property_object) \<Rightarrow> unit dbE" where
  "modify_dgpo f = on_dgpo (modify no_clash 0 (\<lambda>v. (f v, None)))"

definition modify_pso :: "(ProducerScheduleObject \<Rightarrow> ProducerScheduleObject) \<Rightarrow> unit dbE" where
  "modify_pso f = on_pso (modify no_clash 0 (\<lambda>v. (f v, None)))"

definition modify_prod :: "int \<Rightarrow> (producer_object \<Rightarrow> producer_object) \<Rightarrow> unit dbE" where
  "modify_prod i f = on_prod (modify prod_clash i (\<lambda>v. (f v, None)))"

definition modify_pvo :: "int \<Rightarrow> (ProducerVotesObject \<Rightarrow> ProducerVotesObject \<times> exn option) \<Rightarrow> unit dbE" where
  "modify_pvo i f = on_pvo (modify pvo_clash i f)"


section \<open>The database is undoable\<close>

text \<open>
  A database computation changes one index at a time; each keeps the tracking relation of
  its index and leaves the others alone.
\<close>

definition db_ok :: "chaindb \<Rightarrow> bool" where
  "db_ok d \<longleftrightarrow> gx_ok no_clash (gx_indices (db_gpo d)) (gx_next_id (db_gpo d)) \<and>
     gx_ok no_clash (gx_indices (db_dgpo d)) (gx_next_id (db_dgpo d)) \<and>
     gx_ok pvo_clash (gx_indices (db_pvo d)) (gx_next_id (db_pvo d)) \<and>
     gx_ok no_clash (gx_indices (db_pso d)) (gx_next_id (db_pso d)) \<and>
     gx_ok prod_clash (gx_indices (db_prod d)) (gx_next_id (db_prod d)) \<and>
     gx_ok hf_clash (gx_indices (db_hf d)) (gx_next_id (db_hf d))"

definition db_tracking :: "chaindb \<Rightarrow> chaindb \<Rightarrow> bool" where
  "db_tracking b d \<longleftrightarrow> gx_tracking no_clash (db_gpo b) (db_gpo d) \<and>
     gx_tracking no_clash (db_dgpo b) (db_dgpo d) \<and> gx_tracking pvo_clash (db_pvo b) (db_pvo d) \<and>
     gx_tracking no_clash (db_pso b) (db_pso d) \<and> gx_tracking prod_clash (db_prod b) (db_prod d) \<and>
     gx_tracking hf_clash (db_hf b) (db_hf d)"

lemma clash_sym [simp]:
  "no_clash u v = no_clash v u" "pvo_clash x y = pvo_clash y x" "prod_clash p q = prod_clash q p"
  "hf_clash h k = hf_clash k h"
  by (auto simp: clash_defs)

lemma on_tracking:
  "keeps (gx_tracking no_clash (db_gpo b)) m1 \<Longrightarrow> keeps (db_tracking b) (on_gpo m1)"
  "keeps (gx_tracking no_clash (db_dgpo b)) m2 \<Longrightarrow> keeps (db_tracking b) (on_dgpo m2)"
  "keeps (gx_tracking pvo_clash (db_pvo b)) m3 \<Longrightarrow> keeps (db_tracking b) (on_pvo m3)"
  "keeps (gx_tracking no_clash (db_pso b)) m4 \<Longrightarrow> keeps (db_tracking b) (on_pso m4)"
  "keeps (gx_tracking prod_clash (db_prod b)) m5 \<Longrightarrow> keeps (db_tracking b) (on_prod m5)"
  "keeps (gx_tracking hf_clash (db_hf b)) m6 \<Longrightarrow> keeps (db_tracking b) (on_hf m6)"
  by (auto simp: keeps_def on_defs zoomE_def db_tracking_def split: prod.split)


lemma no_clash_keys [simp]: "keeps_keys no_clash m"
  by (simp add: keeps_keys_def same_keys_def no_clash_def)

lemma pvo_clash_keys: "(\<And>v. ownerName (fst (m v)) = ownerName v) \<Longrightarrow> keeps_keys pvo_clash m"
  by (auto simp: keeps_keys_def same_keys_def pvo_clash_def)

lemma prod_clash_keys: "(\<And>v. owner (fst (m v)) = owner v) \<Longrightarrow> keeps_keys prod_clash m"
  by (auto simp: keeps_keys_def same_keys_def prod_clash_def)

lemma db_get_tracking [keeps_intro]:
  "keeps (db_tracking b) get_global_properties" "keeps (db_tracking b) get_dynamic_global_properties"
  "keeps (db_tracking b) get_schedule" "keeps (db_tracking b) (get_pvo a)" "keeps (db_tracking b) (get_producer a)"
  unfolding get_global_properties_def get_dynamic_global_properties_def get_schedule_def get_pvo_def
    get_producer_def gx_get_def
  by (intro on_tracking keeps_intro)+

lemma db_modify_tracking [keeps_intro]:
  "keeps (db_tracking b) (modify_gpo f1)" "keeps (db_tracking b) (modify_dgpo f2)"
  "keeps (db_tracking b) (modify_pso f3)"
  "(\<And>v. owner (f4 v) = owner v) \<Longrightarrow> keeps (db_tracking b) (modify_prod i f4)"
  "(\<And>v. ownerName (fst (f5 v)) = ownerName v) \<Longrightarrow> keeps (db_tracking b) (modify_pvo i f5)"
  unfolding modify_gpo_def modify_dgpo_def modify_pso_def modify_prod_def modify_pvo_def
  by (intro on_tracking gx_op_tracking; simp add: pvo_clash_keys prod_clash_keys)+

lemma db_create_tracking [keeps_intro]:
  "keeps (db_tracking b) (on_pvo (emplace pvo_clash c1))" "keeps (db_tracking b) (on_prod (emplace prod_clash c2))"
  "keeps (db_tracking b) (on_hf (emplace hf_clash c3))" "keeps (db_tracking b) (on_pvo (remove i))"
  by (intro on_tracking gx_op_tracking; simp)+

lemma db_start_eq:
  "db_start_undo_session True d = (Inr (gx_revision (db_gpo d) + 1),
     \<lparr>db_gpo = snd (start_undo_session True (db_gpo d)),
      db_dgpo = snd (start_undo_session True (db_dgpo d)),
      db_pvo = snd (start_undo_session True (db_pvo d)),
      db_pso = snd (start_undo_session True (db_pso d)),
      db_prod = snd (start_undo_session True (db_prod d)),
      db_hf = snd (start_undo_session True (db_hf d))\<rparr>)"
  by (cases d) (simp add: db_start_undo_session_def on_defs exc_defs start_undo_session_def Let_def)

lemma db_start_tracking: "db_ok d \<Longrightarrow> db_tracking d (snd (db_start_undo_session True d))"
  by (simp add: db_ok_def db_tracking_def db_start_eq start_tracking)

lemma db_undo_tracking:
  assumes "db_tracking b d"
  shows "db_undo d = (Inr (), b)"
proof -
  have "undo no_clash (db_gpo d) = (Inr (), db_gpo b)" "undo no_clash (db_dgpo d) = (Inr (), db_dgpo b)"
    "undo pvo_clash (db_pvo d) = (Inr (), db_pvo b)" "undo no_clash (db_pso d) = (Inr (), db_pso b)"
    "undo prod_clash (db_prod d) = (Inr (), db_prod b)" "undo hf_clash (db_hf d) = (Inr (), db_hf b)"
    using assms by (auto simp: db_tracking_def intro: undo_tracking)
  then show ?thesis
    by (simp add: db_undo_def on_defs exc_defs chaindb.equality)
qed

interpretation cdb: undoable "\<lambda>d. snd (db_start_undo_session True d)" db_undo db_ok db_tracking
  by unfold_locales (rule db_start_tracking db_undo_tracking; assumption)+

text \<open>\<open>session\<close>, as the code uses it: started, destroyed by an exception or pushed.\<close>

definition with_session :: "'a dbE \<Rightarrow> 'a dbE" where
  "with_session = transact (\<lambda>d. snd (db_start_undo_session True d)) db_undo"


section \<open>Contents\<close>

text \<open>
  What an operation that succeeds does to the objects, apart from the undo log: the shared
  vocabulary of the functional lemmas on the components that use the database.
\<close>

abbreviation gpos :: "chaindb \<Rightarrow> (int, global_property_object) omap" where "gpos d \<equiv> gx_indices (db_gpo d)"
abbreviation dgpos :: "chaindb \<Rightarrow> (int, dynamic_global_property_object) omap" where "dgpos d \<equiv> gx_indices (db_dgpo d)"
abbreviation pvos :: "chaindb \<Rightarrow> (int, ProducerVotesObject) omap" where "pvos d \<equiv> gx_indices (db_pvo d)"
abbreviation psos :: "chaindb \<Rightarrow> (int, ProducerScheduleObject) omap" where "psos d \<equiv> gx_indices (db_pso d)"
abbreviation prods :: "chaindb \<Rightarrow> (int, producer_object) omap" where "prods d \<equiv> gx_indices (db_prod d)"
abbreviation hfs :: "chaindb \<Rightarrow> (int, process_hardfork_object) omap" where "hfs d \<equiv> gx_indices (db_hf d)"

definition gx_put :: "int \<Rightarrow> 'v \<Rightarrow> 'v \<Rightarrow> 'v gindex \<Rightarrow> 'v gindex" where
  "gx_put i v w g = (on_modify i v g)\<lparr>gx_indices := om_put i w (gx_indices g)\<rparr>"

lemma upd_head_sel [simp]:
  "gx_indices (upd_head f g) = gx_indices g" "gx_next_id (upd_head f g) = gx_next_id g"
  "gx_revision (upd_head f g) = gx_revision g" "length (gx_stack (upd_head f g)) = length (gx_stack g)"
  by (auto simp: upd_head_def split: list.splits)

lemma gx_put_sel [simp]:
  "gx_indices (gx_put i v w g) = om_put i w (gx_indices g)"
  "gx_next_id (gx_put i v w g) = gx_next_id g" "gx_revision (gx_put i v w g) = gx_revision g"
  by (simp_all add: gx_put_def on_modify_def)

lemma modify_run:
  assumes "gx_ok clash (gx_indices g) (gx_next_id g)" "om_find (gx_indices g) i = Some v"
    "m v = (w, None)" "same_keys clash v w"
  shows "modify clash i m g = (Inr (), gx_put i v w g)"
proof -
  have "fits clash i w (gx_indices g)"
    using assms by (intro uniq_fits [of _ _ _ v]) (auto simp: gx_ok_def)
  with assms(2,3) show ?thesis
    by (simp add: modify_def gx_put_def on_modify_def Let_def)
qed

lemma modify_run_throw:
  assumes "om_find (gx_indices g) i = Some v" "m v = (w, Some e)"
  shows "modify clash i m g = (Inl e, gx_put i v w g)"
  using assms by (simp add: modify_def gx_put_def on_modify_def Let_def)

lemma gx_ok_put:
  "gx_ok clash m n \<Longrightarrow> om_find m i = Some v \<Longrightarrow> same_keys clash v w \<Longrightarrow> gx_ok clash (om_put i w m) n"
  by (auto simp: gx_ok_def uniq_put split: if_splits)

lemma same_keys_clash [simp]:
  "same_keys no_clash u u'" "same_keys pvo_clash v v' \<longleftrightarrow> ownerName v = ownerName v'"
  "same_keys prod_clash p p' \<longleftrightarrow> owner p = owner p'"
  by (auto simp: same_keys_def clash_defs)

lemma db_okD:
  assumes "db_ok d"
  shows "gx_ok no_clash (gpos d) (gx_next_id (db_gpo d))" "gx_ok no_clash (dgpos d) (gx_next_id (db_dgpo d))"
    "gx_ok pvo_clash (pvos d) (gx_next_id (db_pvo d))" "gx_ok no_clash (psos d) (gx_next_id (db_pso d))"
    "gx_ok prod_clash (prods d) (gx_next_id (db_prod d))" "gx_ok hf_clash (hfs d) (gx_next_id (db_hf d))"
  using assms by (auto simp: db_ok_def)

lemma modify_gpo_run:
  "db_ok d \<Longrightarrow> om_find (gpos d) 0 = Some v \<Longrightarrow>
   modify_gpo f d = (Inr (), d\<lparr>db_gpo := gx_put 0 v (f v) (db_gpo d)\<rparr>)"
  by (simp add: modify_gpo_def on_gpo_def zoomE_def db_okD modify_run [of no_clash "db_gpo d" 0 v])

lemma modify_dgpo_run:
  "db_ok d \<Longrightarrow> om_find (dgpos d) 0 = Some v \<Longrightarrow>
   modify_dgpo f d = (Inr (), d\<lparr>db_dgpo := gx_put 0 v (f v) (db_dgpo d)\<rparr>)"
  by (simp add: modify_dgpo_def on_dgpo_def zoomE_def db_okD modify_run [of no_clash "db_dgpo d" 0 v])

lemma modify_pso_run:
  "db_ok d \<Longrightarrow> om_find (psos d) 0 = Some v \<Longrightarrow>
   modify_pso f d = (Inr (), d\<lparr>db_pso := gx_put 0 v (f v) (db_pso d)\<rparr>)"
  by (simp add: modify_pso_def on_pso_def zoomE_def db_okD modify_run [of no_clash "db_pso d" 0 v])

lemma modify_prod_run:
  "db_ok d \<Longrightarrow> om_find (prods d) i = Some v \<Longrightarrow> owner (f v) = owner v \<Longrightarrow>
   modify_prod i f d = (Inr (), d\<lparr>db_prod := gx_put i v (f v) (db_prod d)\<rparr>)"
  by (simp add: modify_prod_def on_prod_def zoomE_def db_okD modify_run [of prod_clash "db_prod d" i v])

lemma modify_pvo_run:
  "db_ok d \<Longrightarrow> om_find (pvos d) i = Some v \<Longrightarrow> f v = (w, None) \<Longrightarrow> ownerName w = ownerName v \<Longrightarrow>
   modify_pvo i f d = (Inr (), d\<lparr>db_pvo := gx_put i v w (db_pvo d)\<rparr>)"
  by (simp add: modify_pvo_def on_pvo_def zoomE_def db_okD modify_run [of pvo_clash "db_pvo d" i v])

lemma modify_pvo_throw:
  "om_find (pvos d) i = Some v \<Longrightarrow> f v = (w, Some e) \<Longrightarrow>
   modify_pvo i f d = (Inl e, d\<lparr>db_pvo := gx_put i v w (db_pvo d)\<rparr>)"
  by (simp add: modify_pvo_def on_pvo_def zoomE_def modify_run_throw [of "db_pvo d" i v])

lemma db_ok_put:
  "db_ok d \<Longrightarrow> om_find (gpos d) 0 = Some v1 \<Longrightarrow> db_ok (d\<lparr>db_gpo := gx_put 0 v1 w1 (db_gpo d)\<rparr>)"
  "db_ok d \<Longrightarrow> om_find (dgpos d) 0 = Some v2 \<Longrightarrow> db_ok (d\<lparr>db_dgpo := gx_put 0 v2 w2 (db_dgpo d)\<rparr>)"
  "db_ok d \<Longrightarrow> om_find (psos d) 0 = Some v3 \<Longrightarrow> db_ok (d\<lparr>db_pso := gx_put 0 v3 w3 (db_pso d)\<rparr>)"
  "db_ok d \<Longrightarrow> om_find (prods d) i = Some v4 \<Longrightarrow> owner w4 = owner v4 \<Longrightarrow>
     db_ok (d\<lparr>db_prod := gx_put i v4 w4 (db_prod d)\<rparr>)"
  "db_ok d \<Longrightarrow> om_find (pvos d) i = Some v5 \<Longrightarrow> ownerName w5 = ownerName v5 \<Longrightarrow>
     db_ok (d\<lparr>db_pvo := gx_put i v5 w5 (db_pvo d)\<rparr>)"
  by (auto simp: db_ok_def intro: gx_ok_put)

lemma get_run [simp]:
  "om_find (gpos d) 0 = Some v1 \<Longrightarrow> get_global_properties d = (Inr v1, d)"
  "om_find (dgpos d) 0 = Some v2 \<Longrightarrow> get_dynamic_global_properties d = (Inr v2, d)"
  "om_find (psos d) 0 = Some v3 \<Longrightarrow> get_schedule d = (Inr v3, d)"
  by (simp_all add: get_global_properties_def get_dynamic_global_properties_def get_schedule_def on_defs
    zoomE_def gx_get_def gx_find_def theE_def)

lemma get_owner_run [simp]:
  "find_pvo a d = Some iv \<Longrightarrow> get_pvo a d = (Inr iv, d)"
  "find_prod a d = Some jp \<Longrightarrow> get_producer a d = (Inr jp, d)"
  by (simp_all add: get_pvo_def get_producer_def theE_def)

lemma find_key_None: "find (\<lambda>(i, v). k v = a) m = None \<longleftrightarrow> a \<notin> k ` snd ` set m"
  by (induction m) auto

lemma find_key_SomeD: "find (\<lambda>(i, v). k v = a) m = Some (i, v) \<Longrightarrow> (i, v) \<in> set m \<and> k v = a"
  by (induction m) (auto split: if_splits)

lemma find_key_iff:
  assumes ok: "gx_ok clash m n" and key: "\<And>v w. clash v w = (k v = k w)"
  shows "find (\<lambda>(i, v). k v = a) m = Some (i, v) \<longleftrightarrow> om_find m i = Some v \<and> k v = a"
proof
  assume "find (\<lambda>(i, v). k v = a) m = Some (i, v)"
  with ok show "om_find m i = Some v \<and> k v = a"
    by (auto dest: find_key_SomeD simp: om_find_in_set gx_ok_def)
next
  assume iv: "om_find m i = Some v \<and> k v = a"
  then have "a \<in> k ` snd ` set m" by (force dest: om_find_SomeD)
  then obtain j w where jw: "find (\<lambda>(i, v). k v = a) m = Some (j, w)"
    using find_key_None [of k a m] by (cases "find (\<lambda>(i, v). k v = a) m") auto
  with ok have w: "om_find m j = Some w" "k w = a"
    by (auto dest: find_key_SomeD simp: om_find_in_set gx_ok_def)
  with iv ok have "i = j"
    unfolding gx_ok_def uniq_def key by blast
  with w iv jw show "find (\<lambda>(i, v). k v = a) m = Some (i, v)" by simp
qed

lemma find_pvo_iff: "db_ok d \<Longrightarrow> find_pvo a d = Some (i, v) \<longleftrightarrow> om_find (pvos d) i = Some v \<and> ownerName v = a"
  unfolding find_pvo_def by (rule find_key_iff [OF db_okD(3) pvo_clash_def])

lemma find_prod_iff: "db_ok d \<Longrightarrow> find_prod a d = Some (i, v) \<longleftrightarrow> om_find (prods d) i = Some v \<and> owner v = a"
  unfolding find_prod_def by (rule find_key_iff [OF db_okD(5) prod_clash_def])

lemma find_pvo_None: "find_pvo a d = None \<longleftrightarrow> a \<notin> ownerName ` snd ` set (pvos d)"
  by (simp add: find_pvo_def find_key_None)

lemma find_prod_None: "find_prod a d = None \<longleftrightarrow> a \<notin> owner ` snd ` set (prods d)"
  by (simp add: find_prod_def find_key_None)

lemma distinct_key:
  assumes ok: "gx_ok clash m n" and key: "\<And>v w. clash v w = (k v = k w)"
  shows "distinct (map (k \<circ> snd) m)"
proof -
  have d: "distinct m" using ok by (auto simp: gx_ok_def distinct_map dest: om_wf_distinct)
  have "inj_on (k \<circ> snd) (set m)"
  proof (rule inj_onI)
    fix x y assume "x \<in> set m" "y \<in> set m" "(k \<circ> snd) x = (k \<circ> snd) y"
    moreover obtain i v j w where "x = (i, v)" "y = (j, w)" by (cases x, cases y)
    ultimately have iv: "om_find m i = Some v" "om_find m j = Some w" "k v = k w" "x = (i, v)" "y = (j, w)"
      using ok by (auto simp: om_find_in_set gx_ok_def)
    with ok have "i = j" unfolding gx_ok_def uniq_def key by blast
    with iv show "x = y" by simp
  qed
  with d show ?thesis by (simp add: distinct_map)
qed

end
