(* ===== verification/ProducerSchedule.thy ===== *)
theory ProducerSchedule
  imports ChainDb
begin

text \<open>
  The virtual race and the choice of the next round of producers
  (\<open>producer_objects.hpp\<close>, \<open>producer_objects.cpp\<close>).

  The iteration orders of the indices are sorted lists of the objects. The loops of the
  code modify the objects they iterate over; because a POW worker that leaves the queue
  moves in front of the iterator, and because starting a lap twice at the same race time is
  starting it once, each loop visits the elements of the order it started with.
\<close>

section \<open>The virtual race\<close>

definition raceUpdate :: "ShareType \<Rightarrow> u128 \<Rightarrow> u128 \<Rightarrow> race_state \<Rightarrow> race_state \<times> exn option" where
  "raceUpdate currentSpeed currentPosition now r =
     (let r = r\<lparr>speed := currentSpeed, position := currentPosition,
                positionUpdateTime := now\<rparr>;
          distanceRemaining = ProducerRaceLapLength - position r;
          projectedTimeToFinish =
            (if sint (speed r) > 0 then distanceRemaining div scast (speed r) else - 1)
      in if now > (- 1) - projectedTimeToFinish then (r, Some OverflowError)
         else (r\<lparr>projectedFinishTime := now + projectedTimeToFinish\<rparr>, None))"

definition pvo_race ::
    "(race_state \<Rightarrow> race_state \<times> exn option) \<Rightarrow> ProducerVotesObject \<Rightarrow> ProducerVotesObject \<times> exn option" where
  "pvo_race f v = (case f (race v) of (r, e) \<Rightarrow> (v\<lparr>race := r\<rparr>, e))"

definition updateVotes ::
    "ShareType \<Rightarrow> u128 \<Rightarrow> ProducerVotesObject \<Rightarrow> ProducerVotesObject \<times> exn option" where
  "updateVotes deltaVotes raceTime = pvo_race (\<lambda>r.
     let timeSinceLastUpdate = raceTime - positionUpdateTime r;
         newPosition = position r + scast (speed r) * timeSinceLastUpdate;
         newSpeed = speed r + deltaVotes
     in raceUpdate newSpeed newPosition raceTime r)"

definition startNewRaceLap :: "u128 \<Rightarrow> ProducerVotesObject \<Rightarrow> ProducerVotesObject \<times> exn option" where
  "startNewRaceLap raceTime = pvo_race (\<lambda>r. raceUpdate (speed r) 0 raceTime r)"


section \<open>Index orders\<close>

text \<open>\<open>byVotes\<close>: greatest votes first, and the younger object among equals.\<close>

definition by_votes :: "chaindb \<Rightarrow> (int \<times> ProducerVotesObject) list" where
  "by_votes d = rev (sort_key (\<lambda>(_, v). sint (speed (race v))) (pvos d))"

definition by_finish :: "chaindb \<Rightarrow> (int \<times> ProducerVotesObject) list" where
  "by_finish d = sort_key (\<lambda>(_, v). projectedFinishTime (race v)) (pvos d)"

text \<open>\<open>by_pow\<close> from \<open>upper_bound(0)\<close>: the queue of POW workers.\<close>

definition by_pow :: "chaindb \<Rightarrow> (int \<times> producer_object) list" where
  "by_pow d = sort_key (\<lambda>(_, p). pow_worker p) (filter (\<lambda>(_, p). 0 < pow_worker p) (prods d))"


section \<open>The next round\<close>

definition resetProducerRace :: "unit dbE" where
  "resetProducerRace =
     bindE (getE by_votes) (\<lambda>all.
     thenE (forE all (\<lambda>(i, _). modify_pvo i (startNewRaceLap 0)))
           (modify_pso (\<lambda>p. p\<lparr>currentRaceTime := 0\<rparr>)))"

text \<open>
  Every producer pushed to the round is put into \<open>processedProducers\<close> at once, and
  \<open>iActive\<close> counts the pushes: the set is the set of the round, the counter its length.
\<close>

fun runnerup_loop :: "address list \<Rightarrow> address list \<Rightarrow> nat \<Rightarrow> address list \<times> nat" where
  "runnerup_loop [] round runerCount = (round, runerCount)"
| "runnerup_loop (a # names) round runerCount =
     (if \<not> runerCount < DPOSRunnerupProducersPerRound then (round, runerCount)
      else if a \<in> set round then runnerup_loop names round runerCount
      else runnerup_loop names (round @ [a]) (runerCount + 1))"

definition select_dpos :: "chaindb \<Rightarrow> dynamic_global_property_object \<Rightarrow> address list \<times> nat" where
  "select_dpos d gprops =
     (if num_pow_witnesses gprops = 0 \<or> unat (head_block_number gprops) > StartMinerVotingBlock
      then runnerup_loop (map (ownerName \<circ> snd) (by_finish d))
             (map (ownerName \<circ> snd) (take DPOSVotedProducersPerRound (by_votes d))) 0
      else ([], 0))"

text \<open>A worker leaves the POW queue.\<close>

definition leave_pow :: "int \<Rightarrow> unit dbE" where
  "leave_pow i =
     thenE (modify_prod i (\<lambda>prod. prod\<lparr>pow_worker := 0\<rparr>))
           (modify_dgpo (\<lambda>obj. obj\<lparr>num_pow_witnesses := num_pow_witnesses obj - 1\<rparr>))"

definition evict_pow :: "dynamic_global_property_object \<Rightarrow> unit dbE" where
  "evict_pow gprops =
     (if unat (num_pow_witnesses gprops) > TotalProducersPerRound
      then bindE (getE by_pow) (\<lambda>q. case q of [] \<Rightarrow> ret () | (i, _) # _ \<Rightarrow> leave_pow i)
      else ret ())"

fun pow_loop :: "(int \<times> producer_object) list \<Rightarrow> nat \<Rightarrow> address list \<Rightarrow> nat \<Rightarrow> (address list \<times> nat) dbE" where
  "pow_loop [] limit round powCount = ret (round, powCount)"
| "pow_loop ((i, p) # ps) limit round powCount =
     (if \<not> powCount < limit then ret (round, powCount)
      else if owner p \<in> set round then pow_loop ps limit round powCount
      else thenE (leave_pow i)
          (bindE (getE (find_pvo (owner p))) (\<lambda>dpos.
             if dpos = None then pow_loop ps limit (round @ [owner p]) (powCount + 1)
             else pow_loop ps limit round powCount)))"

definition update_race :: "address \<Rightarrow> unit dbE" where
  "update_race lastRunnerUpName =
     bindE (get_pvo lastRunnerUpName) (\<lambda>(i, lastRunnerUp).
     bindE (getE by_finish) (\<lambda>finish.
       let newRaceTime = projectedFinishTime (race lastRunnerUp);
           lapCompleters = takeWhile (\<lambda>(j, _). j \<noteq> i) finish @ [(i, lastRunnerUp)]
       in catchE
            (if length lapCompleters < length finish \<and> newRaceTime < - 1
             then thenE (forE lapCompleters (\<lambda>(j, _). modify_pvo j (startNewRaceLap newRaceTime)))
                        (modify_pso (\<lambda>pso. pso\<lparr>currentRaceTime := newRaceTime\<rparr>))
             else resetProducerRace)
            (\<lambda>_. resetProducerRace)))"

definition calculateNextRound :: "address list dbE" where
  "calculateNextRound =
     bindE (getE by_votes) (\<lambda>votes.
     thenE (throwIf (votes = []) NoEnoughProducers)
    (bindE get_dynamic_global_properties (\<lambda>gprops.
     bindE (getE (\<lambda>d. select_dpos d gprops)) (\<lambda>(selected, runerCount).
     thenE (evict_pow gprops)
    (bindE (getE by_pow) (\<lambda>queue.
     bindE (pow_loop queue
              (if unat (head_block_number gprops) > StartMinerVotingBlock then POWProducersPerRound
               else TotalProducersPerRound - length selected) selected 0) (\<lambda>(picked, _).
       let round = picked @ replicate (TotalProducersPerRound - length picked) 0
       in if runerCount = 0 then ret round
          else thenE (update_race (last selected)) (ret round))))))))"


section \<open>The race\<close>

text \<open>
  \<open>race_ok r now\<close>: at race time \<open>now\<close> the producer has not passed the finish line,
  and moving at its speed until its projected finish time keeps it on the track, so the
  128-bit position cannot wrap around. Without votes the finish time is the end of time.
\<close>

definition race_ok :: "race_state \<Rightarrow> u128 \<Rightarrow> bool" where
  "race_ok r now \<longleftrightarrow> positionUpdateTime r \<le> now \<and> now \<le> projectedFinishTime r \<and>
     (sint (speed r) > 0 \<longrightarrow>
        uint (position r) + sint (speed r) * (uint (projectedFinishTime r) - uint (positionUpdateTime r))
          \<le> 2 ^ 128 - 1) \<and>
     (sint (speed r) \<le> 0 \<longrightarrow> positionUpdateTime r = 0)"

lemma uint_scast_pos: "0 < sint (s :: ShareType) \<Longrightarrow> uint (scast s :: u128) = sint s"
proof -
  assume "0 < sint s"
  moreover have "sint s < 2 ^ 63" using sint_lt [of s] by simp
  ultimately have "take_bit 128 (sint s) = sint s" by (intro take_bit_int_eq_self) simp_all
  moreover have "uint (scast s :: u128) = take_bit 128 (sint s)"
    unfolding scast_eq unsigned_of_int by simp
  ultimately show ?thesis by (rule trans [rotated])
qed

lemma uint_max: "uint (- 1 :: u128) = 2 ^ 128 - 1"
  by (simp add: unsigned_minus_1_eq_mask mask_eq_exp_minus_1)

lemma uint_lap_minus: "uint (- 1 - (p :: u128)) = 2 ^ 128 - 1 - uint p"
proof -
  have "uint p \<le> uint (- 1 :: u128)" by (simp flip: word_le_def)
  then show ?thesis
    unfolding uint_sub_if' by (simp add: uint_max)
qed

lemma raceUpdate_cases:
  obtains (ok) t where "raceUpdate s p now r = (r\<lparr>speed := s, position := p, positionUpdateTime := now,
        projectedFinishTime := now + t\<rparr>, None)"
      "uint (now + t) = uint now + uint t" "sint s \<le> 0 \<longrightarrow> now = 0 \<and> t = - 1"
      "0 < sint s \<longrightarrow> uint t = (2 ^ 128 - 1 - uint p) div sint s"
  | (overflow) "raceUpdate s p now r = (r\<lparr>speed := s, position := p, positionUpdateTime := now\<rparr>, Some OverflowError)"
      "sint s \<le> 0 \<longrightarrow> now \<noteq> 0"
proof -
  define t where "t = (if sint s > 0 then (- 1 - p) div scast s else (- 1 :: u128))"
  have t: "0 < sint s \<longrightarrow> uint t = (2 ^ 128 - 1 - uint p) div sint s" "sint s \<le> 0 \<longrightarrow> t = - 1"
    by (simp_all add: t_def uint_div uint_scast_pos uint_lap_minus)
  let ?r = "r\<lparr>speed := s, position := p, positionUpdateTime := now\<rparr>"
  have sel: "speed ?r = s" "position ?r = p" by simp_all
  have eq: "raceUpdate s p now r =
      (if now > - 1 - t then (?r, Some OverflowError) else (?r\<lparr>projectedFinishTime := now + t\<rparr>, None))"
    unfolding raceUpdate_def ProducerRaceLapLength_def Let_def t_def sel ..
  show thesis
  proof (cases "now > - 1 - t")
    case True
    then have "sint s \<le> 0 \<longrightarrow> now \<noteq> 0" using t(2) by auto
    with True show thesis by (intro overflow) (simp_all only: eq if_True)
  next
    case False
    then have "uint now \<le> 2 ^ 128 - 1 - uint t" by (simp add: word_le_def uint_lap_minus not_less)
    then have "uint (now + t) = uint now + uint t" unfolding uint_plus_if_size by (simp add: word_size)
    moreover have "sint s \<le> 0 \<longrightarrow> now = 0" using False t(2) by (auto simp: not_less)
    moreover have "raceUpdate s p now r = (?r\<lparr>projectedFinishTime := now + t\<rparr>, None)"
      using False by (simp only: eq if_False)
    ultimately show thesis using t by (intro ok [of t]) simp_all
  qed
qed

lemma lap_div_le: "0 < s \<Longrightarrow> p + s * ((m - p) div s) \<le> (m :: int)"
  using pos_mod_sign [of s "m - p"] minus_mod_eq_mult_div [of "m - p" s] by linarith

lemma raceUpdate_ok:
  assumes "raceUpdate s p now r = (r', None)"
  shows "race_ok r' now" "speed r' = s" "position r' = p" "positionUpdateTime r' = now"
proof -
  obtain t where r': "r' = r\<lparr>speed := s, position := p, positionUpdateTime := now, projectedFinishTime := now + t\<rparr>"
    and t: "uint (now + t) = uint now + uint t" "sint s \<le> 0 \<longrightarrow> now = 0 \<and> t = - 1"
      "0 < sint s \<longrightarrow> uint t = (2 ^ 128 - 1 - uint p) div sint s"
    using assms by (cases rule: raceUpdate_cases [of s p now r]) auto
  have "0 < sint s \<Longrightarrow> uint p + sint s * uint t \<le> 2 ^ 128 - 1"
    using t(3) lap_div_le [of "sint s" "uint p" "2 ^ 128 - 1"] by simp
  moreover have "now \<le> now + t" using t(1) uint_nonnegative [of t] by (simp add: word_le_def)
  ultimately show "race_ok r' now" using t(1,2) by (auto simp: race_ok_def r')
  show "speed r' = s" "position r' = p" "positionUpdateTime r' = now" by (simp_all add: r')
qed

lemma uint_mult_take: "uint (x * y) = take_bit 128 (uint x * uint y)" for x y :: u128
  unfolding uint_word_arith_bintrs by simp

lemma race_ok_position:
  assumes "race_ok r now" "0 < sint (speed r)"
  shows "uint (position r + scast (speed r) * (now - positionUpdateTime r)) =
     uint (position r) + sint (speed r) * (uint now - uint (positionUpdateTime r))"
proof -
  have n: "uint (now - positionUpdateTime r) = uint now - uint (positionUpdateTime r)"
    using assms(1) unfolding uint_sub_if' by (simp add: race_ok_def word_le_def)
  let ?d = "sint (speed r) * (uint now - uint (positionUpdateTime r))"
  have "?d \<le> sint (speed r) * (uint (projectedFinishTime r) - uint (positionUpdateTime r))"
    using assms by (intro mult_left_mono) (simp_all add: race_ok_def word_le_def)
  moreover have "uint (position r) +
      sint (speed r) * (uint (projectedFinishTime r) - uint (positionUpdateTime r)) \<le> 2 ^ 128 - 1"
    using assms unfolding race_ok_def by blast
  ultimately have b: "uint (position r) + ?d \<le> 2 ^ 128 - 1" by linarith
  have nn: "0 \<le> uint (position r)" "0 \<le> ?d"
    using assms by (simp_all add: race_ok_def word_le_def)
  have "uint (scast (speed r) * (now - positionUpdateTime r)) = ?d"
    unfolding uint_mult_take uint_scast_pos [OF assms(2)] n
    using b nn by (intro take_bit_int_eq_self) linarith+
  then show ?thesis
    unfolding uint_plus_if_size word_size using b by simp
qed

text \<open>
  C26 (virtual race arithmetic): a vote change moves the producer exactly as far as it has
  run since the last update, with no wrap around of the 128-bit position, and projects the
  last race time at which the producer has not yet passed the end of the lap.
\<close>

theorem updateVotes_exact:
  assumes "race_ok (race v) now" "0 < sint (speed (race v))" "updateVotes delta now v = (w, None)"
  shows "uint (position (race w)) = uint (position (race v)) +
            sint (speed (race v)) * (uint now - uint (positionUpdateTime (race v))) \<and>
         speed (race w) = speed (race v) + delta \<and> race_ok (race w) now"
proof -
  let ?pos = "position (race v) + scast (speed (race v)) * (now - positionUpdateTime (race v))"
  have "raceUpdate (speed (race v) + delta) ?pos now (race v) = (race w, None)"
    using assms(3) by (auto simp: updateVotes_def pvo_race_def Let_def split: prod.splits)
  from raceUpdate_ok [OF this] race_ok_position [OF assms(1,2)] show ?thesis by simp
qed

definition wit_pvo :: ProducerVotesObject where
  "wit_pvo = \<lparr>ownerName = 7, race = \<lparr>speed = 100, position = 500, positionUpdateTime = 10,
     projectedFinishTime = 3000\<rparr>\<rparr>"

theorem updateVotes_exact_witness:
  "let w = fst (updateVotes 50 20 wit_pvo)
   in uint (position (race w)) = 1500 \<and> speed (race w) = 150 \<and> race_ok (race w) 20"
proof -
  have ok: "race_ok (race wit_pvo) 20" "0 < sint (speed (race wit_pvo))"
    by (simp_all add: wit_pvo_def race_ok_def)
  have "updateVotes 50 20 wit_pvo = (fst (updateVotes 50 20 wit_pvo), None)"
    by (simp add: wit_pvo_def updateVotes_def pvo_race_def raceUpdate_def ProducerRaceLapLength_def)
  from updateVotes_exact [OF ok this] show ?thesis by (simp add: wit_pvo_def)
qed

text \<open>
  C31: a producer without votes starts a lap only at race time zero; at any later race time
  \<open>startNewRaceLap\<close> throws, so an object for a newly seen candidate cannot be created
  once the race has moved.
\<close>

theorem lap_without_votes:
  assumes "sint (speed (race v)) \<le> 0"
  shows "snd (startNewRaceLap now v) = (if now = 0 then None else Some OverflowError)"
proof (cases rule: raceUpdate_cases [of "speed (race v)" 0 now "race v"])
  case (ok t)
  with assms show ?thesis by (simp add: startNewRaceLap_def pvo_race_def)
next
  case overflow
  with assms show ?thesis by (simp add: startNewRaceLap_def pvo_race_def)
qed

theorem lap_without_votes_witness: "snd (startNewRaceLap 1 pvo_default) = Some OverflowError"
  using lap_without_votes [of pvo_default 1] by (simp add: pvo_default_def)

end
