(* ===== verification/NextRound.thy ===== *)
theory NextRound
  imports ProducerSchedule
begin

text \<open>
  What \<open>calculateNextRound\<close> computes: an abstract description of the round, and the
  proof that the database code implements it on every state with a candidate, keeping the
  book-keeping of the POW queue and the invariant of the virtual race.
\<close>

section \<open>Specification\<close>

definition dpos_started :: "dynamic_global_property_object \<Rightarrow> bool" where
  "dpos_started g \<longleftrightarrow> num_pow_witnesses g = 0 \<or> unat (head_block_number g) > StartMinerVotingBlock"

definition spec_top :: "chaindb \<Rightarrow> dynamic_global_property_object \<Rightarrow> address list" where
  "spec_top d g = (if dpos_started g then take DPOSVotedProducersPerRound (map (ownerName \<circ> snd) (by_votes d)) else [])"

definition spec_runner :: "chaindb \<Rightarrow> dynamic_global_property_object \<Rightarrow> address list" where
  "spec_runner d g =
     (if dpos_started g then take DPOSRunnerupProducersPerRound
        (filter (\<lambda>a. a \<notin> set (spec_top d g)) (map (ownerName \<circ> snd) (by_finish d))) else [])"

definition spec_queue :: "chaindb \<Rightarrow> dynamic_global_property_object \<Rightarrow> address list" where
  "spec_queue d g = (if unat (num_pow_witnesses g) > TotalProducersPerRound then tl else id)
     (map (owner \<circ> snd) (by_pow d))"

definition spec_workers :: "chaindb \<Rightarrow> dynamic_global_property_object \<Rightarrow> address list" where
  "spec_workers d g =
     take (if unat (head_block_number g) > StartMinerVotingBlock then POWProducersPerRound
           else TotalProducersPerRound - length (spec_top d g @ spec_runner d g))
       (filter (\<lambda>a. a \<notin> set (spec_top d g @ spec_runner d g) \<and> find_pvo a d = None) (spec_queue d g))"

definition spec_round :: "chaindb \<Rightarrow> dynamic_global_property_object \<Rightarrow> address list" where
  "spec_round d g =
     (let r = spec_top d g @ spec_runner d g @ spec_workers d g
      in r @ replicate (TotalProducersPerRound - length r) 0)"


section \<open>DPOS producers\<close>

lemma runnerup_loop_full: "runnerup_loop names round (Suc 0) = (round, Suc 0)"
  by (cases names) (simp_all add: config_defs)

lemma runnerup_loop_eq:
  "runnerup_loop names round 0 =
     (let r = take 1 (filter (\<lambda>a. a \<notin> set round) names) in (round @ r, length r))"
  by (induction names) (simp_all add: config_defs runnerup_loop_full Let_def)

lemma select_dpos_eq: "select_dpos d g = (spec_top d g @ spec_runner d g, length (spec_runner d g))"
  by (simp add: select_dpos_def spec_top_def spec_runner_def dpos_started_def runnerup_loop_eq
    take_map config_defs Let_def)

lemma set_spec_runner: "set (spec_runner d g) \<subseteq> ownerName ` snd ` set (pvos d) - set (spec_top d g)"
  by (force simp: spec_runner_def by_finish_def dest!: in_set_takeD)

lemma set_spec_top: "set (spec_top d g) \<subseteq> ownerName ` snd ` set (pvos d)"
  by (force simp: spec_top_def by_votes_def dest!: in_set_takeD)

lemma set_spec_workers: "set (spec_workers d g) \<subseteq> owner ` snd ` set (by_pow d)"
proof -
  have "set (spec_workers d g) \<subseteq> set (spec_queue d g)" by (auto simp: spec_workers_def dest!: in_set_takeD)
  also have "\<dots> \<subseteq> set (map (owner \<circ> snd) (by_pow d))"
    by (cases "by_pow d") (auto simp: spec_queue_def)
  finally show ?thesis by (simp add: image_comp)
qed

lemma last_selected: "spec_runner d g \<noteq> [] \<Longrightarrow> last (spec_top d g @ spec_runner d g) \<in> set (spec_runner d g)"
  by simp

lemma set_by_votes [simp]: "set (by_votes d) = set (pvos d)"
  by (simp add: by_votes_def)

lemma set_by_finish [simp]: "set (by_finish d) = set (pvos d)"
  by (simp add: by_finish_def)

lemma set_by_pow: "set (by_pow d) = {(i, p) \<in> set (prods d). pow_worker p \<noteq> 0}"
  by (auto simp: by_pow_def word_gt_0)

lemma distinct_by_finish: "db_ok d \<Longrightarrow> distinct (map (ownerName \<circ> snd) (by_finish d))"
proof -
  assume "db_ok d"
  then have "distinct (map (ownerName \<circ> snd) (pvos d))"
    by (intro distinct_key [OF db_okD(3) pvo_clash_def])
  moreover have "mset (map (ownerName \<circ> snd) (by_finish d)) = mset (map (ownerName \<circ> snd) (pvos d))"
    by (simp add: by_finish_def mset_map)
  ultimately show ?thesis using mset_eq_imp_distinct_iff by blast
qed

lemma distinct_by_votes: "db_ok d \<Longrightarrow> distinct (map (ownerName \<circ> snd) (by_votes d))"
proof -
  assume "db_ok d"
  then have "distinct (map (ownerName \<circ> snd) (pvos d))"
    by (intro distinct_key [OF db_okD(3) pvo_clash_def])
  moreover have "mset (map (ownerName \<circ> snd) (by_votes d)) = mset (map (ownerName \<circ> snd) (pvos d))"
    by (simp add: by_votes_def mset_map)
  ultimately show ?thesis using mset_eq_imp_distinct_iff by blast
qed

lemma distinct_by_pow: "db_ok d \<Longrightarrow> distinct (map (owner \<circ> snd) (by_pow d)) \<and> distinct (map fst (by_pow d))"
proof
  assume ok: "db_ok d"
  have m: "mset (map f (by_pow d)) = mset (map f (filter (\<lambda>(_, p). 0 < pow_worker p) (prods d)))" for f :: "_ \<Rightarrow> 'x"
    by (simp add: by_pow_def mset_map)
  have "distinct (map (owner \<circ> snd) (prods d))" by (rule distinct_key [OF db_okD(5) [OF ok] prod_clash_def])
  then have "distinct (map (owner \<circ> snd) (filter (\<lambda>(_, p). 0 < pow_worker p) (prods d)))" by (rule distinct_map_filter)
  then show "distinct (map (owner \<circ> snd) (by_pow d))" using m mset_eq_imp_distinct_iff by blast
  have "distinct (map fst (prods d))" using db_okD(5) [OF ok] by (simp add: gx_ok_def om_wf_distinct)
  then have "distinct (map fst (filter (\<lambda>(_, p). 0 < pow_worker p) (prods d)))" by (rule distinct_map_filter)
  then show "distinct (map fst (by_pow d))" using m mset_eq_imp_distinct_iff by blast
qed


section \<open>The POW queue\<close>

text \<open>
  \<open>num_pow_witnesses\<close> counts the producers in the queue; positions in the queue are
  numbers already given out by \<open>total_pow\<close> and are not shared.
\<close>

definition pow_queue :: "chaindb \<Rightarrow> int set" where
  "pow_queue d = {i. \<exists>p. om_find (prods d) i = Some p \<and> pow_worker p \<noteq> 0}"

definition pow_inv :: "chaindb \<Rightarrow> bool" where
  "pow_inv d \<longleftrightarrow> (\<exists>g. om_find (dgpos d) 0 = Some g \<and> unat (num_pow_witnesses g) = card (pow_queue d) \<and>
     (\<forall>i p. om_find (prods d) i = Some p \<longrightarrow> pow_worker p \<le> total_pow g) \<and>
     (\<forall>i p j q. om_find (prods d) i = Some p \<longrightarrow> om_find (prods d) j = Some q \<longrightarrow>
        pow_worker p = pow_worker q \<longrightarrow> pow_worker p \<noteq> 0 \<longrightarrow> i = j))"

lemma finite_pow_queue [simp]: "finite (pow_queue d)"
  by (rule finite_subset [of _ "fst ` set (prods d)"]) (auto simp: pow_queue_def om_find_key)

text \<open>The components that taking workers from the queue leaves alone.\<close>

definition same_rest :: "chaindb \<Rightarrow> chaindb \<Rightarrow> bool" where
  "same_rest d d' \<longleftrightarrow> db_pvo d' = db_pvo d \<and> db_pso d' = db_pso d \<and> db_gpo d' = db_gpo d \<and> db_hf d' = db_hf d"

lemma same_rest_refl [simp]: "same_rest d d"
  by (simp add: same_rest_def)

lemma same_rest_trans: "same_rest a b \<Longrightarrow> same_rest b c \<Longrightarrow> same_rest a c"
  by (simp add: same_rest_def)

lemma same_rest_find [simp]: "same_rest d d' \<Longrightarrow> find_pvo a d' = find_pvo a d"
  by (simp add: same_rest_def find_pvo_def)

lemma leave_pow_run:
  assumes ok: "db_ok d" and inv: "pow_inv d" and p: "om_find (prods d) i = Some p" "pow_worker p \<noteq> 0"
  shows "\<exists>d'. leave_pow i d = (Inr (), d') \<and> db_ok d' \<and> pow_inv d' \<and> same_rest d d' \<and>
     prods d' = om_put i (p\<lparr>pow_worker := 0\<rparr>) (prods d)"
proof -
  from inv obtain g where g: "om_find (dgpos d) 0 = Some g" "unat (num_pow_witnesses g) = card (pow_queue d)"
    "\<And>i p. om_find (prods d) i = Some p \<Longrightarrow> pow_worker p \<le> total_pow g"
    "\<And>i p j q. om_find (prods d) i = Some p \<Longrightarrow> om_find (prods d) j = Some q \<Longrightarrow>
        pow_worker p = pow_worker q \<Longrightarrow> pow_worker p \<noteq> 0 \<Longrightarrow> i = j"
    unfolding pow_inv_def by blast
  let ?d1 = "d\<lparr>db_prod := gx_put i p (p\<lparr>pow_worker := 0\<rparr>) (db_prod d)\<rparr>"
  let ?g' = "g\<lparr>num_pow_witnesses := num_pow_witnesses g - 1\<rparr>"
  let ?d2 = "?d1\<lparr>db_dgpo := gx_put 0 g ?g' (db_dgpo ?d1)\<rparr>"
  have ok1: "db_ok ?d1" using ok p by (intro db_ok_put(4)) simp_all
  have ok2: "db_ok ?d2" using ok1 g(1) by (intro db_ok_put(2)) simp_all
  have run: "leave_pow i d = (Inr (), ?d2)"
    unfolding leave_pow_def thenE_def bindE_def
    using modify_prod_run [OF ok p(1), of "\<lambda>prod. prod\<lparr>pow_worker := 0\<rparr>"]
      modify_dgpo_run [OF ok1, of g "\<lambda>obj. obj\<lparr>num_pow_witnesses := num_pow_witnesses obj - 1\<rparr>"] g(1) by simp
  have q: "pow_queue ?d2 = pow_queue d - {i}" by (auto simp: pow_queue_def)
  have "i \<in> pow_queue d" using p by (simp add: pow_queue_def)
  then have c: "card (pow_queue ?d2) = card (pow_queue d) - 1" "card (pow_queue d) \<noteq> 0"
    unfolding q by (auto simp: card_gt_0_iff)
  then have "unat (num_pow_witnesses g - 1) = card (pow_queue ?d2)"
    using g(2) by (metis unat_minus_one unat_0)
  then have "pow_inv ?d2" unfolding pow_inv_def
    using g(3,4) by (intro exI [of _ ?g']) (auto split: if_splits)
  with run ok2 show ?thesis by (auto simp: same_rest_def)
qed

text \<open>The loop takes the first eligible workers of the queue, up to its limit.\<close>

lemma pow_loop_run:
  assumes "db_ok d" "pow_inv d" "distinct (map fst ps)" "distinct (map (owner \<circ> snd) ps)"
    "\<And>i p. (i, p) \<in> set ps \<Longrightarrow> om_find (prods d) i = Some p \<and> pow_worker p \<noteq> 0"
  shows "\<exists>d' n. pow_loop ps limit round cnt d =
       (Inr (round @ take (limit - cnt) (filter (\<lambda>a. a \<notin> set round \<and> find_pvo a d = None) (map (owner \<circ> snd) ps)), n), d') \<and>
     db_ok d' \<and> pow_inv d' \<and> same_rest d d'"
  using assms
proof (induction ps arbitrary: d round cnt)
  case (Cons x ps)
  obtain i p where x: "x = (i, p)" by (cases x)
  have p: "om_find (prods d) i = Some p" "pow_worker p \<noteq> 0" using Cons.prems(5) [of i p] x by auto
  show ?case
  proof (cases "cnt < limit \<and> owner p \<notin> set round")
    case False
    then show ?thesis
    proof (cases "cnt < limit")
      case True
      with False x show ?thesis
        using Cons.IH [OF Cons.prems(1,2), of round cnt] Cons.prems(3-5) by auto
    qed (use Cons.prems x in auto)
  next
    case True
    obtain d1 where d1: "leave_pow i d = (Inr (), d1)" "db_ok d1" "pow_inv d1" "same_rest d d1"
      "prods d1 = om_put i (p\<lparr>pow_worker := 0\<rparr>) (prods d)"
      using leave_pow_run [OF Cons.prems(1,2) p] by blast
    have ps: "\<And>j q. (j, q) \<in> set ps \<Longrightarrow> om_find (prods d1) j = Some q \<and> pow_worker q \<noteq> 0"
      using Cons.prems(3,5) x d1(5) by force
    have dist: "distinct (map fst ps)" "distinct (map (owner \<circ> snd) ps)" "owner p \<notin> set (map (owner \<circ> snd) ps)"
      using Cons.prems(3,4) by (auto simp: x o_def)
    have f: "filter (\<lambda>a. a \<notin> set (round @ [owner p]) \<and> find_pvo a d1 = None) (map (owner \<circ> snd) ps) =
        filter (\<lambda>a. a \<notin> set round \<and> find_pvo a d = None) (map (owner \<circ> snd) ps)"
      using dist(3) d1(4) by (intro filter_cong refl) force
    have l: "limit - cnt = Suc (limit - Suc cnt)" using True by (simp add: Suc_diff_Suc)
    show ?thesis
    proof (cases "find_pvo (owner p) d")
      case None
      obtain d' n where "pow_loop ps limit (round @ [owner p]) (cnt + 1) d1 =
          (Inr ((round @ [owner p]) @ take (limit - (cnt + 1)) (filter (\<lambda>a. a \<notin> set round \<and> find_pvo a d = None) (map (owner \<circ> snd) ps)), n), d')"
          "db_ok d'" "pow_inv d'" "same_rest d1 d'"
        using Cons.IH [OF d1(2,3) dist(1,2) ps, of "round @ [owner p]" "cnt + 1"] unfolding f by blast
      with None True x d1 l show ?thesis
        by (auto simp: thenE_def bindE_def o_def same_rest_find [OF d1(4)] same_rest_trans [OF d1(4)])
    next
      case (Some v)
      obtain d' n where "pow_loop ps limit round cnt d1 =
          (Inr (round @ take (limit - cnt) (filter (\<lambda>a. a \<notin> set round \<and> find_pvo a d = None) (map (owner \<circ> snd) ps)), n), d')"
          "db_ok d'" "pow_inv d'" "same_rest d1 d'"
        using Cons.IH [OF d1(2,3) dist(1,2) ps, of round cnt] same_rest_find [OF d1(4)] by (auto simp: o_def)
      with Some True x d1 show ?thesis
        by (auto simp: thenE_def bindE_def o_def same_rest_find [OF d1(4)] same_rest_trans [OF d1(4)])
    qed
  qed
qed simp

lemma by_pow_tl:
  assumes ok: "db_ok d" and q: "by_pow d = (i, p) # rest"
    and d': "prods d' = om_put i (p\<lparr>pow_worker := 0\<rparr>) (prods d)"
  shows "by_pow d' = rest"
proof -
  have wf: "om_wf (prods d)" using db_okD(5) [OF ok] by (simp add: gx_ok_def)
  have ip: "om_find (prods d) i = Some p" "0 < pow_worker p"
    using q set_by_pow [of d] wf by (auto simp: om_find_in_set word_gt_0)
  let ?P = "\<lambda>(_, p). 0 < pow_worker p" and ?N = "\<lambda>(j, _ :: producer_object). j \<noteq> i"
  have "om_wf (filter ?P (prods d'))" "om_wf (filter ?N (filter ?P (prods d)))"
    using wf d' by (auto intro!: om_wf_filter)
  moreover have "om_find (filter ?P (prods d')) j = om_find (filter ?N (filter ?P (prods d))) j" for j
    using wf d' ip by (auto simp: om_find_filter om_wf_filter split: option.splits)
  ultimately have "filter ?P (prods d') = filter ?N (filter ?P (prods d))" by (rule om_eqI)
  then have "by_pow d' = filter ?N (by_pow d)" by (simp add: by_pow_def filter_sort)
  also have "\<dots> = rest"
    using distinct_by_pow [OF ok] q by (force simp: filter_id_conv)
  finally show ?thesis .
qed

lemma evict_pow_run:
  assumes ok: "db_ok d" and inv: "pow_inv d"
  shows "\<exists>d'. evict_pow g d = (Inr (), d') \<and> db_ok d' \<and> pow_inv d' \<and> same_rest d d' \<and>
     map (owner \<circ> snd) (by_pow d') = spec_queue d g"
proof (cases "unat (num_pow_witnesses g) > TotalProducersPerRound")
  case big: True
  show ?thesis
  proof (cases "by_pow d")
    case Nil
    with big assms show ?thesis by (simp add: evict_pow_def spec_queue_def)
  next
    case (Cons x rest)
    obtain i p where x: "x = (i, p)" by (cases x)
    then have "(i, p) \<in> set (by_pow d)" using Cons by simp
    then have "om_find (prods d) i = Some p" "pow_worker p \<noteq> 0"
      using set_by_pow [of d] db_okD(5) [OF ok] by (auto simp: om_find_in_set gx_ok_def)
    from leave_pow_run [OF ok inv this] obtain d' where "leave_pow i d = (Inr (), d')" "db_ok d'" "pow_inv d'"
      "same_rest d d'" "prods d' = om_put i (p\<lparr>pow_worker := 0\<rparr>) (prods d)" by blast
    with by_pow_tl [OF ok] Cons x big show ?thesis by (auto simp: evict_pow_def spec_queue_def)
  qed
next
  case False
  with assms show ?thesis by (simp add: evict_pow_def spec_queue_def)
qed


section \<open>Laps\<close>

text \<open>The race of every producer is consistent with the race time of the schedule.\<close>

definition race_inv :: "chaindb \<Rightarrow> bool" where
  "race_inv d \<longleftrightarrow> (\<exists>s. om_find (psos d) 0 = Some s \<and>
     (\<forall>i v. om_find (pvos d) i = Some v \<longrightarrow> race_ok (race v) (currentRaceTime s)))"

text \<open>Starting laps changes nothing but the race positions of the producers named.\<close>

definition laps_only :: "chaindb \<Rightarrow> chaindb \<Rightarrow> bool" where
  "laps_only d d' \<longleftrightarrow> d' = d\<lparr>db_pvo := db_pvo d'\<rparr> \<and> db_ok d' \<and>
     (\<forall>j. rel_option (\<lambda>v w. ownerName w = ownerName v \<and> speed (race w) = speed (race v))
        (om_find (pvos d) j) (om_find (pvos d') j))"

lemma laps_only_refl: "db_ok d \<Longrightarrow> laps_only d d"
  by (simp add: laps_only_def option.rel_refl)

lemma laps_only_trans:
  assumes "laps_only a b" "laps_only b c"
  shows "laps_only a c"
proof -
  have "rel_option (\<lambda>v w. ownerName w = ownerName v \<and> speed (race w) = speed (race v))
        (om_find (pvos a) j) (om_find (pvos c) j)" for j
  proof -
    from assms have "rel_option (\<lambda>v w. ownerName w = ownerName v \<and> speed (race w) = speed (race v))
        (om_find (pvos a) j) (om_find (pvos b) j)"
      "rel_option (\<lambda>v w. ownerName w = ownerName v \<and> speed (race w) = speed (race v))
        (om_find (pvos b) j) (om_find (pvos c) j)" by (simp_all add: laps_only_def)
    then show ?thesis by (auto simp: option_rel_Some1 option_rel_Some2 elim!: option.rel_cases)
  qed
  moreover have "c = a\<lparr>db_pvo := db_pvo c\<rparr>"
  proof -
    from assms have "b = a\<lparr>db_pvo := db_pvo b\<rparr>" "c = b\<lparr>db_pvo := db_pvo c\<rparr>" by (simp_all add: laps_only_def)
    then show ?thesis by (metis chaindb.surjective chaindb.update_convs(3))
  qed
  ultimately show ?thesis using assms(2) by (simp add: laps_only_def)
qed

lemma lap_run:
  assumes ok: "db_ok d" and v: "om_find (pvos d) i = Some v"
  obtains (lap) d' w where "modify_pvo i (startNewRaceLap t) d = (Inr (), d')" "laps_only d d'"
      "pvos d' = om_put i w (pvos d)" "race_ok (race w) t"
  | (overflow) d' where "modify_pvo i (startNewRaceLap t) d = (Inl OverflowError, d')" "laps_only d d'" "t \<noteq> 0"
proof (cases rule: raceUpdate_cases [of "speed (race v)" 0 t "race v"])
  case (ok u)
  let ?w = "fst (startNewRaceLap t v)"
  let ?d = "d\<lparr>db_pvo := gx_put i v ?w (db_pvo d)\<rparr>"
  have s: "startNewRaceLap t v = (?w, None)" and w: "ownerName ?w = ownerName v" "speed (race ?w) = speed (race v)"
    using ok(1) by (simp_all add: startNewRaceLap_def pvo_race_def)
  have "race_ok (race ?w) t"
    using raceUpdate_ok(1) [OF ok(1)] ok(1) by (simp add: startNewRaceLap_def pvo_race_def)
  moreover have "laps_only d ?d"
    using assms w by (auto simp: laps_only_def db_ok_put option.rel_refl)
  moreover have "pvos ?d = om_put i ?w (pvos d)" by simp
  ultimately show thesis
    using modify_pvo_run [of d i v "startNewRaceLap t" ?w, OF assms s w(1)] lap by blast
next
  case overflow
  let ?w = "fst (startNewRaceLap t v)"
  let ?d = "d\<lparr>db_pvo := gx_put i v ?w (db_pvo d)\<rparr>"
  have s: "startNewRaceLap t v = (?w, Some OverflowError)" and w: "ownerName ?w = ownerName v" "speed (race ?w) = speed (race v)"
    using overflow(1) by (simp_all add: startNewRaceLap_def pvo_race_def)
  have "laps_only d ?d"
    using assms w by (auto simp: laps_only_def db_ok_put option.rel_refl)
  moreover have "t \<noteq> 0" using overflow(1) by (auto simp: raceUpdate_def Let_def split: if_splits)
  ultimately show thesis using modify_pvo_throw [of d i v "startNewRaceLap t" ?w, OF assms(2) s] by (intro that(2)) simp_all
qed

abbreviation start_laps :: "u128 \<Rightarrow> (int \<times> ProducerVotesObject) list \<Rightarrow> unit dbE" where
  "start_laps t xs \<equiv> forE xs (\<lambda>(j, _). modify_pvo j (startNewRaceLap t))"

lemma laps_run:
  assumes "db_ok d" "\<And>j v. (j, v) \<in> set xs \<Longrightarrow> om_find (pvos d) j \<noteq> None"
  obtains (laps) d' where "start_laps t xs d = (Inr (), d')" "laps_only d d'"
      "\<And>j v. om_find (pvos d') j = Some v \<Longrightarrow> j \<in> fst ` set xs \<and> race_ok (race v) t \<or>
         j \<notin> fst ` set xs \<and> om_find (pvos d) j = Some v"
  | (overflow) d' where "start_laps t xs d = (Inl OverflowError, d')" "laps_only d d'" "t \<noteq> 0"
  using assms
proof (induction xs arbitrary: d thesis)
  case Nil
  then show ?case by (auto simp: laps_only_refl)
next
  case (Cons x xs)
  obtain i u where x: "x = (i, u)" by (cases x)
  then obtain v where "om_find (pvos d) i = Some v" using Cons.prems(4) [of i u] by auto
  with Cons.prems(3) show ?case
  proof (cases rule: lap_run [where t = t])
    case (lap d1 w)
    have d1: "db_ok d1" "\<And>j v. (j, v) \<in> set xs \<Longrightarrow> om_find (pvos d1) j \<noteq> None"
      using lap(2,3) Cons.prems(4) by (auto simp: laps_only_def)
    show ?thesis
    proof (rule Cons.IH [of d1])
      fix d2 assume d2: "start_laps t xs d1 = (Inr (), d2)" "laps_only d1 d2"
        "\<And>j v. om_find (pvos d2) j = Some v \<Longrightarrow> j \<in> fst ` set xs \<and> race_ok (race v) t \<or>
           j \<notin> fst ` set xs \<and> om_find (pvos d1) j = Some v"
      show ?thesis
      proof (rule Cons.prems(1))
        show "start_laps t (x # xs) d = (Inr (), d2)" using lap(1) d2(1) by (simp add: x thenE_def bindE_def)
        show "laps_only d d2" using lap(2) d2(2) by (rule laps_only_trans)
        show "j \<in> fst ` set (x # xs) \<and> race_ok (race v) t \<or> j \<notin> fst ` set (x # xs) \<and> om_find (pvos d) j = Some v"
          if "om_find (pvos d2) j = Some v" for j v
          using d2(3) [OF that] lap(3,4) by (auto simp: x split: if_splits)
      qed
    next
      fix d2 assume "start_laps t xs d1 = (Inl OverflowError, d2)" "laps_only d1 d2" "t \<noteq> 0"
      with lap(1) show ?thesis
        by (intro Cons.prems(2) [of d2]) (auto simp: x thenE_def bindE_def intro: laps_only_trans [OF lap(2)])
    qed (use d1 in auto)
  next
    case (overflow d1)
    then show ?thesis by (intro Cons.prems(2) [of d1]) (simp_all add: x thenE_def bindE_def)
  qed
qed

text \<open>What the end of \<open>calculateNextRound\<close> may change: race positions and the race time.\<close>

definition race_step :: "chaindb \<Rightarrow> chaindb \<Rightarrow> bool" where
  "race_step d d' \<longleftrightarrow> db_ok d' \<and> race_inv d' \<and> db_prod d' = db_prod d \<and> db_dgpo d' = db_dgpo d \<and>
     db_gpo d' = db_gpo d \<and> db_hf d' = db_hf d \<and>
     (\<forall>j. rel_option (\<lambda>v w. ownerName w = ownerName v \<and> speed (race w) = speed (race v))
        (om_find (pvos d) j) (om_find (pvos d') j))"

lemma race_time_run:
  assumes l: "laps_only d d1" and s: "om_find (psos d) 0 = Some s"
    and r: "\<And>i v. om_find (pvos d1) i = Some v \<Longrightarrow> race_ok (race v) t"
  shows "\<exists>d'. modify_pso (\<lambda>p. p\<lparr>currentRaceTime := t\<rparr>) d1 = (Inr (), d') \<and> race_step d d'"
proof -
  have d1: "d1 = d\<lparr>db_pvo := db_pvo d1\<rparr>" "db_ok d1" using l by (simp_all add: laps_only_def)
  have sel: "psos d1 = psos d" "db_prod d1 = db_prod d" "db_dgpo d1 = db_dgpo d" "db_gpo d1 = db_gpo d" "db_hf d1 = db_hf d"
    by (subst d1(1); simp)+
  let ?d = "d1\<lparr>db_pso := gx_put 0 s (s\<lparr>currentRaceTime := t\<rparr>) (db_pso d1)\<rparr>"
  have "modify_pso (\<lambda>p. p\<lparr>currentRaceTime := t\<rparr>) d1 = (Inr (), ?d)"
    using modify_pso_run [OF d1(2), of s] s sel by simp
  moreover have "db_ok ?d" using d1(2) s sel by (intro db_ok_put(3)) simp_all
  moreover have "race_inv ?d" using r by (simp add: race_inv_def)
  ultimately show ?thesis using l sel by (simp add: race_step_def laps_only_def)
qed

lemma resetProducerRace_run:
  assumes l: "laps_only d d1" and s: "om_find (psos d) 0 = Some s"
  shows "\<exists>d'. resetProducerRace d1 = (Inr (), d') \<and> race_step d d'"
proof -
  have ok: "db_ok d1" using l by (simp add: laps_only_def)
  have mem: "om_find (pvos d1) j \<noteq> None" if "(j, v) \<in> set (by_votes d1)" for j v
    using that by (simp add: om_find_None) (force intro: rev_image_eqI)
  show ?thesis
  proof (rule laps_run [OF ok, of "by_votes d1" 0])
    fix d2 assume laps: "start_laps 0 (by_votes d1) d1 = (Inr (), d2)" "laps_only d1 d2"
      "\<And>j v. om_find (pvos d2) j = Some v \<Longrightarrow> j \<in> fst ` set (by_votes d1) \<and> race_ok (race v) 0 \<or>
         j \<notin> fst ` set (by_votes d1) \<and> om_find (pvos d1) j = Some v"
    have "race_ok (race v) 0" if "om_find (pvos d2) i = Some v" for i v
      using laps(3) [OF that] om_find_SomeD [of "pvos d1" i v] by (force simp: image_iff)
    from race_time_run [OF laps_only_trans [OF l laps(2)] s this] laps(1) show ?thesis
      by (auto simp: resetProducerRace_def thenE_def bindE_def)
  qed (use mem in simp_all)
qed


lemma by_finish_prefix:
  assumes "by_finish d = ys @ (i, v) # zs" "(j, w) \<in> set zs"
  shows "projectedFinishTime (race v) \<le> projectedFinishTime (race w)"
proof -
  have "sorted (map (\<lambda>(_, v). projectedFinishTime (race v)) (by_finish d))"
    by (simp add: by_finish_def)
  with assms show ?thesis by (force simp: sorted_append)
qed

lemma race_ok_later: "race_ok r now \<Longrightarrow> now \<le> t \<Longrightarrow> t \<le> projectedFinishTime r \<Longrightarrow> race_ok r t"
  by (auto simp: race_ok_def)

lemma update_race_run:
  assumes ok: "db_ok d" and inv: "race_inv d" and u: "find_pvo a d = Some (i, u)"
  shows "\<exists>d'. update_race a d = (Inr (), d') \<and> race_step d d'"
proof -
  from inv obtain s where s: "om_find (psos d) 0 = Some s"
    and r: "\<And>i v. om_find (pvos d) i = Some v \<Longrightarrow> race_ok (race v) (currentRaceTime s)"
    unfolding race_inv_def by blast
  have iu: "om_find (pvos d) i = Some u" using u ok by (simp add: find_pvo_iff)
  have wf: "om_wf (pvos d)" using db_okD(3) [OF ok] by (simp add: gx_ok_def)
  let ?t = "projectedFinishTime (race u)"
  let ?c = "takeWhile (\<lambda>(j, _). j \<noteq> i) (by_finish d) @ [(i, u)]"
  have mem: "(j, v) \<in> set (by_finish d) \<longleftrightarrow> om_find (pvos d) j = Some v" for j v
    using wf by (simp add: om_find_in_set)
  have c: "om_find (pvos d) j \<noteq> None" if "(j, v) \<in> set ?c" for j v
    using that mem iu by (auto dest: set_takeWhileD)
  have fin: "?t \<le> projectedFinishTime (race v)" if "om_find (pvos d) j = Some v" "j \<notin> fst ` set ?c" for j v
  proof -
    have "(i, u) \<in> set (by_finish d)" using iu mem by simp
    then obtain z zs where z: "dropWhile (\<lambda>(j, _). j \<noteq> i) (by_finish d) = z # zs"
      by (cases "dropWhile (\<lambda>(j, _). j \<noteq> i) (by_finish d)") (auto simp: dropWhile_eq_Nil_conv)
    then have split: "by_finish d = takeWhile (\<lambda>(j, _). j \<noteq> i) (by_finish d) @ z # zs"
      by (metis takeWhile_dropWhile_id)
    have "z \<in> set (by_finish d)" by (subst split) simp
    moreover have "fst z = i" using hd_dropWhile [of "\<lambda>(j, _). j \<noteq> i" "by_finish d"] z by (auto split: prod.splits)
    ultimately have "z = (i, u)" using mem [of "fst z" "snd z"] iu by (cases z) auto
    moreover have "(j, v) \<in> set (by_finish d)" using that(1) mem by simp
    then have "(j, v) \<in> set zs"
      using that(2) \<open>z = (i, u)\<close> by (subst (asm) split) force
    ultimately show ?thesis using split by_finish_prefix by metis
  qed
  have step: "\<exists>d'. catchE (if length ?c < length (by_finish d) \<and> ?t < - 1
       then thenE (start_laps ?t ?c) (modify_pso (\<lambda>pso. pso\<lparr>currentRaceTime := ?t\<rparr>))
       else resetProducerRace) (\<lambda>_. resetProducerRace) d = (Inr (), d') \<and> race_step d d'"
  proof (cases "length ?c < length (by_finish d) \<and> ?t < - 1")
    case False
    with resetProducerRace_run [OF laps_only_refl [OF ok] s] show ?thesis by (auto simp: catchE_def)
  next
    case True
    show ?thesis
    proof (rule laps_run [OF ok, of ?c ?t])
      fix d1 assume laps: "start_laps ?t ?c d = (Inr (), d1)" "laps_only d d1"
        "\<And>j v. om_find (pvos d1) j = Some v \<Longrightarrow> j \<in> fst ` set ?c \<and> race_ok (race v) ?t \<or>
           j \<notin> fst ` set ?c \<and> om_find (pvos d) j = Some v"
      have rok: "race_ok (race v) ?t" if "om_find (pvos d1) j = Some v" for j v
        using laps(3) [OF that] fin [of j v] r [of j v] r [OF iu] race_ok_later [of "race v"]
        by (auto simp: race_ok_def)
      obtain d2 where "modify_pso (\<lambda>pso. pso\<lparr>currentRaceTime := ?t\<rparr>) d1 = (Inr (), d2)" "race_step d d2"
        using race_time_run [OF laps(2) s, of ?t] rok by blast
      with laps(1) True show ?thesis
        by (auto simp: catchE_def thenE_def bindE_def)
    next
      fix d1 assume "start_laps ?t ?c d = (Inl OverflowError, d1)" "laps_only d d1"
      with resetProducerRace_run [OF _ s] True show ?thesis
        by (auto simp: catchE_def thenE_def bindE_def)
    qed (use c in simp)
  qed
  with u show ?thesis by (simp add: update_race_def bindE_def Let_def)
qed


section \<open>The round\<close>

definition sched_ok :: "chaindb \<Rightarrow> bool" where
  "sched_ok d \<longleftrightarrow> db_ok d \<and> pow_inv d \<and> race_inv d \<and> pvos d \<noteq> []"

lemma race_step_trans:
  "same_rest d d1 \<Longrightarrow> pow_inv d1 \<Longrightarrow> race_step d1 d' \<Longrightarrow> pow_inv d'"
  by (simp add: race_step_def pow_inv_def pow_queue_def)

lemma calculateNextRound_run:
  assumes "sched_ok d" and g: "om_find (dgpos d) 0 = Some g"
  shows "\<exists>d'. calculateNextRound d = (Inr (spec_round d g), d') \<and> db_ok d' \<and> pow_inv d' \<and> race_inv d' \<and>
     db_gpo d' = db_gpo d \<and> db_hf d' = db_hf d \<and>
     (\<forall>j. rel_option (\<lambda>v w. ownerName w = ownerName v \<and> speed (race w) = speed (race v))
        (om_find (pvos d) j) (om_find (pvos d') j))"
proof -
  have ok: "db_ok d" "pow_inv d" "race_inv d" and ne: "by_votes d \<noteq> []"
    using assms(1) by (auto simp: sched_ok_def by_votes_def dest: arg_cong [of _ _ set])
  obtain d1 where d1: "evict_pow g d = (Inr (), d1)" "db_ok d1" "pow_inv d1" "same_rest d d1"
    "map (owner \<circ> snd) (by_pow d1) = spec_queue d g"
    using evict_pow_run [OF ok(1,2)] by blast
  let ?sel = "spec_top d g @ spec_runner d g"
  let ?limit = "if unat (head_block_number g) > StartMinerVotingBlock then POWProducersPerRound
       else TotalProducersPerRound - length ?sel"
  have q: "\<And>i p. (i, p) \<in> set (by_pow d1) \<Longrightarrow> om_find (prods d1) i = Some p \<and> pow_worker p \<noteq> 0"
    using set_by_pow [of d1] db_okD(5) [OF d1(2)] by (auto simp: om_find_in_set gx_ok_def)
  obtain d2 n where d2: "pow_loop (by_pow d1) ?limit ?sel 0 d1 = (Inr (?sel @ spec_workers d g, n), d2)"
    "db_ok d2" "pow_inv d2" "same_rest d1 d2"
    using pow_loop_run [OF d1(2,3), of "by_pow d1" ?limit ?sel 0] q distinct_by_pow [OF d1(2)] d1(4,5)
    by (auto simp: spec_workers_def)
  have rest: "same_rest d d2" using d1(4) d2(4) by (rule same_rest_trans)
  then have inv2: "race_inv d2" using ok(3) by (simp add: race_inv_def same_rest_def)
  have eval: "calculateNextRound d =
      (if spec_runner d g = [] then ret (spec_round d g) d2
       else thenE (update_race (last ?sel)) (ret (spec_round d g)) d2)"
    using ne g d1(1) d2(1)
    by (simp add: calculateNextRound_def thenE_def throwIf_def bindE_def select_dpos_eq spec_round_def Let_def)
  show ?thesis
  proof (cases "spec_runner d g = []")
    case True
    with eval d2 inv2 rest show ?thesis by (simp add: same_rest_def option.rel_refl)
  next
    case False
    then have "find_pvo (last ?sel) d2 \<noteq> None"
      unfolding same_rest_find [OF rest] find_pvo_None
      using last_selected [of d g] set_spec_runner [of d g] by blast
    then obtain i u where "find_pvo (last ?sel) d2 = Some (i, u)" by auto
    from update_race_run [OF d2(2) inv2 this] obtain d3 where
      d3: "update_race (last ?sel) d2 = (Inr (), d3)" "race_step d2 d3" by blast
    with False eval have "calculateNextRound d = (Inr (spec_round d g), d3)" by (simp add: thenE_def bindE_def)
    with d3(2) race_step_trans [OF rest d2(3) d3(2)] rest show ?thesis
      by (simp add: race_step_def same_rest_def)
  qed
qed


lemma length_spec:
  "length (spec_top d g) \<le> 16" "length (spec_runner d g) \<le> 1"
  "length (spec_top d g @ spec_runner d g @ spec_workers d g) \<le> 21"
proof -
  show "length (spec_top d g) \<le> 16" "length (spec_runner d g) \<le> 1"
    by (simp_all add: spec_top_def spec_runner_def config_defs)
  then show "length (spec_top d g @ spec_runner d g @ spec_workers d g) \<le> 21"
    by (auto simp: spec_workers_def config_defs)
qed

lemma distinct_spec:
  assumes "db_ok d"
  shows "distinct (spec_top d g @ spec_runner d g @ spec_workers d g)"
proof -
  have "distinct (spec_top d g)" "distinct (spec_runner d g)"
    using distinct_by_votes [OF assms] distinct_by_finish [OF assms]
    by (simp_all add: spec_top_def spec_runner_def distinct_take)
  moreover have "distinct (spec_queue d g)"
    using distinct_by_pow [OF assms] by (simp add: spec_queue_def distinct_tl)
  then have "distinct (spec_workers d g)" by (simp add: spec_workers_def distinct_take)
  moreover have "set (spec_workers d g) \<inter> set (spec_top d g @ spec_runner d g) = {}"
    by (auto simp: spec_workers_def dest!: in_set_takeD)
  ultimately show ?thesis using set_spec_runner [of d g] by auto
qed

lemma filter_replicate_null: "filter (\<lambda>a. a \<noteq> 0) (replicate n (0::address)) = []"
  by (induction n) auto

text \<open>A state with 18 candidates and one worker in the POW queue.\<close>

definition wit_candidate :: "nat \<Rightarrow> ProducerVotesObject" where
  "wit_candidate n = \<lparr>ownerName = of_nat (n + 1), race = \<lparr>speed = of_nat (n + 1), position = 0,
     positionUpdateTime = 0, projectedFinishTime = (- 1) div of_nat (n + 1)\<rparr>\<rparr>"

definition wit_dgpo :: dynamic_global_property_object where
  "wit_dgpo = dgpo_default\<lparr>head_block_number := 105, total_pow := 5, num_pow_witnesses := 1\<rparr>"

definition wit_db :: chaindb where
  "wit_db = \<lparr>db_gpo = gindex_init, db_dgpo = gindex_init\<lparr>gx_indices := [(0, wit_dgpo)], gx_next_id := 1\<rparr>,
     db_pvo = gindex_init\<lparr>gx_indices := map (\<lambda>n. (int n, wit_candidate n)) [0..<18], gx_next_id := 18\<rparr>,
     db_pso = gindex_init\<lparr>gx_indices := [(0, pso_default)], gx_next_id := 1\<rparr>,
     db_prod = gindex_init\<lparr>gx_indices := [(0, producer_default\<lparr>owner := 100, pow_worker := 5\<rparr>)], gx_next_id := 1\<rparr>,
     db_hf = gindex_init\<rparr>"

lemma wit_candidate_race: "n < 18 \<Longrightarrow> race_ok (race (wit_candidate n)) 0"
  unfolding race_ok_def wit_candidate_def
  by (simp add: numeral_eq_Suc less_Suc_eq) (elim disjE; simp add: uint_div uint_max)

lemma wit_pvos: "om_find (pvos wit_db) i = Some v \<Longrightarrow> \<exists>n < 18. i = int n \<and> v = wit_candidate n"
  by (drule om_find_SomeD) (auto simp: wit_db_def)

lemma wit_candidate_owner: "m < 18 \<Longrightarrow> n < 18 \<Longrightarrow> ownerName (wit_candidate m) = ownerName (wit_candidate n) \<Longrightarrow> m = n"
  unfolding wit_candidate_def
  by (simp only: ProducerVotesObject.simps word_of_nat_eq_iff)
     (simp add: take_bit_nat_eq_self)

lemma wit_sched_ok: "sched_ok wit_db"
proof -
  have "om_wf (pvos wit_db)" by (simp add: wit_db_def om_wf_def upt_rec)
  moreover have "uniq pvo_clash (pvos wit_db)"
    unfolding uniq_def pvo_clash_def using wit_pvos wit_candidate_owner by blast
  moreover have "\<forall>i. om_find (pvos wit_db) i \<noteq> None \<longrightarrow> i < 18"
    using wit_pvos by fastforce
  ultimately have "gx_ok pvo_clash (pvos wit_db) (gx_next_id (db_pvo wit_db))"
    by (simp add: gx_ok_def wit_db_def)
  then have "db_ok wit_db"
    unfolding db_ok_def
    by (auto simp: wit_db_def gindex_init_def gx_ok_def uniq_def om_find_Cons om_wf_def split: if_splits)
  moreover have "race_inv wit_db"
    unfolding race_inv_def using wit_candidate_race wit_pvos
    by (intro exI [of _ pso_default]) (fastforce simp: wit_db_def om_find_Cons pso_default_def)
  moreover have "pow_inv wit_db"
  proof -
    have "pow_queue wit_db = {0}"
      by (auto simp: pow_queue_def wit_db_def om_find_Cons split: if_splits)
    then show ?thesis unfolding pow_inv_def
      by (intro exI [of _ wit_dgpo])
         (auto simp: wit_db_def wit_dgpo_def dgpo_default_def om_find_Cons split: if_splits)
  qed
  moreover have "pvos wit_db \<noteq> []" by (simp add: wit_db_def)
  ultimately show ?thesis by (simp add: sched_ok_def)
qed

lemma wit_dgpo_find: "om_find (dgpos wit_db) 0 = Some wit_dgpo"
  by (simp add: wit_db_def om_find_Cons)

lemma wit_round: "spec_round wit_db wit_dgpo = map of_nat (rev [3..<19]) @ [2, 100, 0, 0, 0]"
  by code_simp

text \<open>
  C2 (the code computes the specified round): on every state with a candidate, the
  invariant of the POW queue and that of the race, \<open>calculateNextRound\<close> returns the
  sixteen producers with most votes, the runner-up that finishes its lap first, the first
  eligible POW workers in queue order and empty seats; it never throws, race time overflow
  included, and it keeps both invariants, every vote count and the other objects.
\<close>

theorem calculateNextRound_refines:
  assumes "sched_ok d" and "om_find (dgpos d) 0 = Some g"
  shows "\<exists>d'. calculateNextRound d = (Inr (spec_round d g), d') \<and> db_ok d' \<and> pow_inv d' \<and> race_inv d' \<and>
     db_gpo d' = db_gpo d \<and> db_hf d' = db_hf d \<and>
     (\<forall>j. rel_option (\<lambda>v w. ownerName w = ownerName v \<and> speed (race w) = speed (race v))
        (om_find (pvos d) j) (om_find (pvos d') j))"
  using assms by (rule calculateNextRound_run)

theorem calculateNextRound_refines_witness:
  "\<exists>d'. calculateNextRound wit_db = (Inr (map of_nat (rev [3..<19]) @ [2, 100, 0, 0, 0]), d') \<and> race_inv d'"
  using calculateNextRound_refines [OF wit_sched_ok wit_dgpo_find] unfolding wit_round by blast

text \<open>
  C24 (a well-formed round): a round has exactly 21 seats, no producer has two of them, and
  every producer seated is a DPOS candidate or a worker waiting in the POW queue.
\<close>

theorem next_round_wellformed:
  assumes "sched_ok d" and "calculateNextRound d = (Inr round, d')"
  shows "length round = TotalProducersPerRound \<and> distinct (filter (\<lambda>a. a \<noteq> 0) round) \<and>
     (\<forall>a. a \<in> set round \<longrightarrow> a \<noteq> 0 \<longrightarrow> find_pvo a d \<noteq> None \<or>
        (\<exists>i p. om_find (prods d) i = Some p \<and> owner p = a \<and> pow_worker p \<noteq> 0))"
proof -
  have ok: "db_ok d" using assms(1) by (simp add: sched_ok_def)
  obtain g where g: "om_find (dgpos d) 0 = Some g" using assms(1) by (auto simp: sched_ok_def pow_inv_def)
  from calculateNextRound_run [OF assms(1) g] assms(2) have r: "round = spec_round d g" by auto
  let ?r = "spec_top d g @ spec_runner d g @ spec_workers d g"
  have "distinct (filter (\<lambda>a. a \<noteq> 0) ?r)" using distinct_spec [OF ok, of g] by (rule distinct_filter)
  moreover have "filter (\<lambda>a. a \<noteq> 0) round = filter (\<lambda>a. a \<noteq> 0) ?r"
    by (simp add: r spec_round_def Let_def filter_replicate_null)
  moreover have "length round = TotalProducersPerRound"
    using length_spec(3) [of d g] by (simp add: r spec_round_def Let_def config_defs)
  moreover have "find_pvo a d \<noteq> None \<or> (\<exists>i p. om_find (prods d) i = Some p \<and> owner p = a \<and> pow_worker p \<noteq> 0)"
    if "a \<in> set round" "a \<noteq> 0" for a
  proof -
    have "a \<in> set (spec_top d g) \<or> a \<in> set (spec_runner d g) \<or> a \<in> set (spec_workers d g)"
      using that by (auto simp: r spec_round_def Let_def split: if_splits)
    moreover have "find_pvo a d \<noteq> None" if "a \<in> set (spec_top d g) \<or> a \<in> set (spec_runner d g)"
      using that set_spec_top [of d g] set_spec_runner [of d g] unfolding find_pvo_None by blast
    moreover have "\<exists>i p. om_find (prods d) i = Some p \<and> owner p = a \<and> pow_worker p \<noteq> 0"
      if wk: "a \<in> set (spec_workers d g)"
    proof -
      obtain x where "x \<in> set (by_pow d)" "a = owner (snd x)"
        using wk set_spec_workers [of d g] by blast
      with set_by_pow [of d] db_okD(5) [OF ok] show ?thesis by (cases x) (auto simp: gx_ok_def om_find_in_set)
    qed
    ultimately show ?thesis by blast
  qed
  ultimately show ?thesis by simp
qed


theorem next_round_wellformed_witness:
  "\<exists>round. fst (calculateNextRound wit_db) = Inr round \<and> length round = 21"
proof -
  obtain d' where "calculateNextRound wit_db = (Inr (spec_round wit_db wit_dgpo), d')"
    using calculateNextRound_run [OF wit_sched_ok wit_dgpo_find] by blast
  with next_round_wellformed [OF wit_sched_ok this] show ?thesis by (simp add: config_defs)
qed

lemma by_votes_prefix:
  assumes "(i, v) \<in> set (take n (by_votes d))" "(j, w) \<in> set (drop n (by_votes d))"
  shows "sint (speed (race w)) \<le> sint (speed (race v))"
proof -
  let ?k = "\<lambda>(_ :: int, v). sint (speed (race v))"
  have "sorted_wrt (\<lambda>x y. ?k x \<le> ?k y) (sort_key ?k (pvos d))"
    using sorted_sort_key [of ?k "pvos d"] unfolding sorted_map .
  then have "sorted_wrt (\<lambda>x y. ?k y \<le> ?k x) (take n (by_votes d) @ drop n (by_votes d))"
    by (simp add: by_votes_def sorted_wrt_rev)
  with assms show ?thesis unfolding sorted_wrt_append by fastforce
qed

text \<open>
  C25 (votes decide): once DPOS voting has started, a candidate left out of the round has no
  more votes than any of the producers in the voted seats.
\<close>

theorem next_round_top_voted:
  assumes "sched_ok d" and "om_find (dgpos d) 0 = Some g" and "dpos_started g"
    and "calculateNextRound d = (Inr round, d')"
    and "om_find (pvos d) i = Some v" "ownerName v \<in> set (take DPOSVotedProducersPerRound round)"
    and "om_find (pvos d) j = Some w" "ownerName w \<notin> set round"
  shows "sint (speed (race w)) \<le> sint (speed (race v))"
proof -
  let ?n = DPOSVotedProducersPerRound
  have ok: "db_ok d" and wf: "om_wf (pvos d)"
    using assms(1) db_okD(3) by (auto simp: sched_ok_def gx_ok_def)
  from calculateNextRound_run [OF assms(1,2)] assms(4) have r: "round = spec_round d g" by auto
  have top: "spec_top d g = take ?n (map (ownerName \<circ> snd) (by_votes d))" using assms(3) by (simp add: spec_top_def)
  have mem: "(i, v) \<in> set (by_votes d)" "(j, w) \<in> set (by_votes d)"
    using assms(5,7) wf by (simp_all add: om_find_in_set)
  have w: "ownerName w \<notin> set (spec_top d g)" using assms(8) by (auto simp: r spec_round_def Let_def)
  have split: "set (by_votes d) = set (take ?n (by_votes d)) \<union> set (drop ?n (by_votes d))"
    unfolding set_append [symmetric] append_take_drop_id ..
  have jw: "(j, w) \<in> set (drop ?n (by_votes d))"
    using mem(2) w unfolding split top take_map by force
  then have "?n \<le> length (by_votes d)" by (cases "?n \<le> length (by_votes d)") auto
  then have "length (spec_top d g) = ?n" by (simp add: top)
  then have "ownerName v \<in> set (spec_top d g)" using assms(6) by (simp add: r spec_round_def Let_def)
  then obtain x where x: "x \<in> set (take ?n (by_votes d))" "ownerName (snd x) = ownerName v"
    unfolding top take_map by auto
  then have "x \<in> set (pvos d)" using split by auto
  then have "om_find (pvos d) (fst x) = Some (snd x)" using wf by (simp add: om_find_in_set)
  then have "find_pvo (ownerName v) d = Some (fst x, snd x)" 
    using find_pvo_iff [OF ok, of "ownerName v" "fst x" "snd x"] x(2) by blast
  moreover have "find_pvo (ownerName v) d = Some (i, v)" using ok assms(5) by (simp add: find_pvo_iff)
  ultimately have "(i, v) \<in> set (take ?n (by_votes d))" using x(1) by simp
  from this jw show ?thesis by (rule by_votes_prefix)
qed

theorem next_round_top_voted_witness: "sint (speed (race (wit_candidate 0))) \<le> sint (speed (race (wit_candidate 2)))"
proof -
  obtain d' where r: "calculateNextRound wit_db = (Inr (spec_round wit_db wit_dgpo), d')"
    using calculateNextRound_run [OF wit_sched_ok wit_dgpo_find] by blast
  have find: "om_find (pvos wit_db) 2 = Some (wit_candidate 2)" "om_find (pvos wit_db) 0 = Some (wit_candidate 0)"
    by (simp_all add: wit_db_def om_find_def upt_rec numeral_2_eq_2)
  have "dpos_started wit_dgpo" by (simp add: dpos_started_def wit_dgpo_def dgpo_default_def config_defs)
  from next_round_top_voted [OF wit_sched_ok wit_dgpo_find this r find(1) _ find(2)] show ?thesis
    unfolding wit_round by (simp add: wit_candidate_def config_defs upt_rec)
qed

end
