(* ===== verification/ChainController.thy ===== *)
theory ChainController
  imports NextRound VoteInv StateMap "HOL-Library.Product_Lexorder"
begin

text \<open>
  The chain controller (\<open>libproducer/chain_controller.cpp\<close>): initialisation, the slot
  clock, the checks of a block header, the updates a block makes to the database, the last
  irreversible block, hardforks, and the reversion of the database. What the controller
  reads of the block chain and of the machine is the argument \<open>env\<close>.
\<close>

section \<open>State\<close>

record BlockHeader =
  bh_number :: u256
  bh_timestamp :: u256
  bh_parentHash :: h256
  bh_hash :: h256
  bh_producer :: address
  bh_runningVersion :: ver
  hf_version :: ver
  hf_time :: time_point_sec

text \<open>
  \<open>stateAt\<close> is \<open>queryBlockStateCache\<close>, None while \<open>_stateDB\<close> is null; the caches of
  the state it returns change when it is read, what it shows does not. \<open>pow_order\<close> is the
  order in which \<open>_temp_pow_ops\<close>, an unordered map, is traversed.
\<close>

record chain_env =
  keccak :: "bytes \<Rightarrow> h256"
  e_pick :: pick
  stateAt :: "(h256 \<Rightarrow> State) option"
  currentHash :: h256
  info_parentHash :: h256
  numberHash :: "u32 \<Rightarrow> h256"
  verifySign :: "BlockHeader \<Rightarrow> bool"
  pow_order :: "(address \<times> POW_Operation) list \<Rightarrow> (address \<times> POW_Operation) list"

record chain_controller =
  c_db :: chaindb
  all_votes :: "(address, u64) omap"
  temp_pow_ops :: "(address, POW_Operation) omap"
  hardfork_times :: "time_point_sec list"
  hardfork_versions :: "ver list"
  c_last_irreversible_block_num :: u32
  c_last_irreversible_block_hash :: h256

type_synonym 'a ccE = "(exn, chain_controller, 'a) exc"

definition on_db :: "'a dbE \<Rightarrow> 'a ccE" where
  "on_db = zoomE c_db c_db_update"

text \<open>Exceptions of the account state, as the controller sees them.\<close>

fun from_state :: "eth_exn \<Rightarrow> exn" where
  "from_state Undefined = UndefinedBehaviour"
| "from_state LengthError = LogicError"
| "from_state _ = OtherException"

definition read_from :: "(eth_exn, 't, 'a) exc \<Rightarrow> 't \<Rightarrow> 'a ccE" where
  "read_from m t = (case fst (m t) of Inl e \<Rightarrow> throw (from_state e) | Inr x \<Rightarrow> ret x)"

definition sec :: "u256 \<Rightarrow> time_point_sec" where "sec t = ucast t"


section \<open>Slots\<close>

definition block_interval :: u32 where "block_interval = of_nat BlockIntervalSeconds"

definition head_block_time :: "time_point_sec dbE" where
  "head_block_time = bindE get_dynamic_global_properties (\<lambda>dpo. ret (dgp_time dpo))"

definition head_block_num :: "u32 dbE" where
  "head_block_num = bindE get_dynamic_global_properties (\<lambda>dpo. ret (head_block_number dpo))"

definition get_slot_time :: "u32 \<Rightarrow> time_point_sec dbE" where
  "get_slot_time slot_num =
     (if slot_num = 0 then ret 0
      else bindE get_dynamic_global_properties (\<lambda>dpo.
        if head_block_number dpo = 0 then ret (dgp_time dpo + slot_num * block_interval)
        else ret (dgp_time dpo div block_interval * block_interval + slot_num * block_interval)))"

definition get_slot_at_time :: "time_point_sec \<Rightarrow> u32 dbE" where
  "get_slot_at_time t =
     bindE (get_slot_time 1) (\<lambda>first_slot_time.
     if t < first_slot_time then ret 0 else ret ((t - first_slot_time) div block_interval + 1))"

definition get_scheduled_producer :: "u32 \<Rightarrow> address dbE" where
  "get_scheduled_producer slot_num =
     bindE get_dynamic_global_properties (\<lambda>dpo.
     bindE get_global_properties (\<lambda>gpo.
       let current_aslot = current_absolute_slot dpo + ucast slot_num
       in ret (active_producers gpo ! (unat current_aslot mod length (active_producers gpo)))))"


section \<open>Checks of the header\<close>

definition validate_block_header :: "(BlockHeader \<Rightarrow> bool) \<Rightarrow> BlockHeader \<Rightarrow> (int \<times> producer_object) dbE" where
  "validate_block_header verify bh =
     thenE (throwIf (\<not> verify bh) InvalidSignature)
    (bindE (get_slot_at_time (sec (bh_timestamp bh))) (\<lambda>slot.
     bindE (get_scheduled_producer slot) (\<lambda>scheduled_producer.
     thenE (throwIf (scheduled_producer \<noteq> bh_producer bh) InvalidProducer)
           (get_producer scheduled_producer))))"

definition process_block_header :: "BlockHeader \<Rightarrow> unit dbE" where
  "process_block_header b =
     bindE (get_producer (bh_producer b)) (\<lambda>(i, producer_obj).
     thenE (if bh_runningVersion b \<noteq> running_version producer_obj
            then modify_prod i (\<lambda>po. po\<lparr>running_version := bh_runningVersion b\<rparr>) else ret ())
    (thenE (if hf_version b \<noteq> hardfork_ver_vote producer_obj \<or> hf_time b \<noteq> hardfork_time_vote producer_obj
            then modify_prod i (\<lambda>po. po\<lparr>hardfork_ver_vote := hf_version b, hardfork_time_vote := hf_time b\<rparr>)
            else ret ())
    (bindE get_global_properties (\<lambda>gpo.
     bindE (get_producer (bh_producer b)) (\<lambda>(_, producer_obj).
     throwIf (running_version producer_obj < current_hardfork_version gpo) InvlidRuningVersion)))))"


section \<open>POW\<close>

definition get_pow_target :: "h256 dbE" where
  "get_pow_target =
     bindE get_dynamic_global_properties (\<lambda>dgp. ret (drop_bit (unat (num_pow_witnesses dgp) div 4 + 4) (- 1)))"

definition pow_addresses :: "(h256, u256 \<times> u256) omap \<Rightarrow> address list" where
  "pow_addresses powMap =
     foldl (\<lambda>tab (_, key, _). os_insert (bytes_addr (take 20 (h256_bytes key))) tab) [] powMap"

definition update_pow_perblock :: "chain_env \<Rightarrow> BlockHeader \<Rightarrow> unit ccE" where
  "update_pow_perblock env b =
     (case stateAt env of
        None \<Rightarrow> throw UndefinedBehaviour
      | Some state \<Rightarrow>
          thenE (updE (temp_pow_ops_update (\<lambda>_. [])))
         (bindE (read_from (storage_map (\<lambda>k. keccak env (h256_bytes k)) (e_pick env) POWInfoAddress)
                   (state (bh_parentHash b))) (\<lambda>powMap.
          forE (pow_addresses powMap) (\<lambda>a.
            bindE (read_from (POW_load (keccak env) a) \<lparr>m_map = powMap, m_mapChange = []\<rparr>) (\<lambda>powop.
            updE (temp_pow_ops_update (om_emplace a powop)))))))"

text \<open>One answer: its worker enters the queue, as a new producer or as one that waits again.\<close>

definition enter_pow :: "address \<Rightarrow> unit dbE" where
  "enter_pow a =
     bindE (getE (find_prod a)) (\<lambda>pow_producer.
     if (case pow_producer of None \<Rightarrow> False | Some (_, p) \<Rightarrow> pow_worker p \<noteq> 0) then ret ()
     else
       thenE (modify_dgpo (\<lambda>p. p\<lparr>total_pow := total_pow p + 1, num_pow_witnesses := num_pow_witnesses p + 1\<rparr>))
      (bindE get_dynamic_global_properties (\<lambda>dgp.
       case pow_producer of
         None \<Rightarrow> thenE (on_prod (emplace prod_clash (Inr (producer_default\<lparr>owner := a, pow_worker := total_pow dgp\<rparr>)))) (ret ())
       | Some (i, _) \<Rightarrow> modify_prod i (\<lambda>po. po\<lparr>pow_worker := total_pow dgp\<rparr>))))"

definition pow_answer :: "h256 \<Rightarrow> h256 \<Rightarrow> address \<times> POW_Operation \<Rightarrow> unit dbE" where
  "pow_answer last_block_id target entry =
     (case entry of (a, opref) \<Rightarrow>
        if block_id opref \<noteq> last_block_id then ret ()
        else if work opref \<ge> target then ret ()
        else bindE (getE (find_pvo a)) (\<lambda>dpos. if dpos \<noteq> None then ret () else enter_pow a))"

definition update_pow :: "chain_env \<Rightarrow> unit ccE" where
  "update_pow env =
     bindE (on_db get_pow_target) (\<lambda>target.
     thenE (on_db get_dynamic_global_properties)
    (bindE (getE temp_pow_ops) (\<lambda>ops.
     on_db (forE (pow_order env ops) (pow_answer (info_parentHash env) target)))))"


section \<open>Votes\<close>

definition get_votes :: "chain_env \<Rightarrow> h256 \<Rightarrow> (address, VoteInfo) omap ccE" where
  "get_votes env h =
     (case stateAt env of
        None \<Rightarrow> ret []
      | Some state \<Rightarrow> read_from (getVoteInfoMap (\<lambda>k. keccak env (h256_bytes k)) (e_pick env))
                      (state (if h = 0 then currentHash env else h)))"

definition get_producers :: "chain_env \<Rightarrow> h256 \<Rightarrow> (address, u64) omap ccE" where
  "get_producers env h =
     (case stateAt env of
        None \<Rightarrow> ret []
      | Some state \<Rightarrow> read_from (getProducerMap (\<lambda>k. keccak env (h256_bytes k)) (e_pick env))
                      (state (if h = 0 then currentHash env else h)))"

definition change_votes :: "address \<Rightarrow> u64 \<Rightarrow> unit dbE" where
  "change_votes a deltaVotes =
     bindE get_schedule (\<lambda>sched.
     bindE (get_pvo a) (\<lambda>(i, _). modify_pvo i (updateVotes deltaVotes (currentRaceTime sched))))"

definition new_candidate :: "address \<Rightarrow> unit dbE" where
  "new_candidate a =
     bindE get_schedule (\<lambda>sched.
     thenE (on_pvo (emplace pvo_clash
              (case startNewRaceLap (currentRaceTime sched) (pvo_default\<lparr>ownerName := a\<rparr>) of
                 (pvo, None) \<Rightarrow> Inr pvo | (_, Some e) \<Rightarrow> Inl e)))
    (bindE (getE (find_prod a)) (\<lambda>lp_po. case lp_po of
       None \<Rightarrow> thenE (on_prod (emplace prod_clash (Inr (producer_default\<lparr>owner := a\<rparr>)))) (ret ())
     | Some (i, po) \<Rightarrow> if pow_worker po \<noteq> 0 then leave_pow i else ret ())))"

definition check_candidate :: "address \<times> VoteInfo \<Rightarrow> unit ccE" where
  "check_candidate p =
     (case p of (a, info) \<Rightarrow>
        if \<not> m_isCandidate info then ret ()
        else bindE (getE all_votes) (\<lambda>votes. case om_find votes a of
          Some old \<Rightarrow>
            if m_receivedVote info - old = 0 then ret ()
            else thenE (on_db (change_votes a (m_receivedVote info - old)))
                       (updE (all_votes_update (om_put a (m_receivedVote info))))
        | None \<Rightarrow>
            thenE (on_db (new_candidate a)) (updE (all_votes_update (om_emplace a (m_receivedVote info))))))"

definition drop_candidate :: "address \<Rightarrow> unit ccE" where
  "drop_candidate a =
     thenE (on_db (bindE (get_pvo a) (\<lambda>(i, _). on_pvo (remove i))))
           (updE (all_votes_update (om_erase a)))"

definition update_pvomi_perblock :: "chain_env \<Rightarrow> BlockHeader \<Rightarrow> unit ccE" where
  "update_pvomi_perblock env b =
     bindE (get_votes env (bh_parentHash b)) (\<lambda>AllProducers.
     thenE (on_db get_dynamic_global_properties)
    (thenE (forE AllProducers check_candidate)
    (bindE (getE all_votes) (\<lambda>votes.
     forE (filter (\<lambda>a. om_find AllProducers a = None) (map fst votes)) drop_candidate))))"

definition init_allvotes :: "chain_env \<Rightarrow> BlockHeader \<Rightarrow> unit ccE" where
  "init_allvotes env bh =
     thenE (updE (all_votes_update (\<lambda>_. [])))
    (if bh_number bh \<le> 0 then ret ()
     else bindE (get_votes env (bh_parentHash bh)) (\<lambda>AllProducers.
       forE AllProducers (\<lambda>(a, info). updE (all_votes_update (om_emplace a (m_receivedVote info))))))"


section \<open>Properties updated by a block\<close>

definition miss_block :: "BlockHeader \<Rightarrow> u32 \<Rightarrow> unit dbE" where
  "miss_block b i =
     bindE (get_scheduled_producer (i + 1)) (\<lambda>missed_producer_name.
     if missed_producer_name = 0 then ret ()
     else bindE (get_producer missed_producer_name) (\<lambda>(k, producer_missed).
       if owner producer_missed \<noteq> bh_producer b
       then modify_prod k (\<lambda>w. w\<lparr>total_missed := total_missed w + 1\<rparr>) else ret ()))"

definition fill_slots :: "u32 \<Rightarrow> u64 \<Rightarrow> u64" where
  "fill_slots missed_blocks slots =
     (if missed_blocks < 64 then push_bit (unat missed_blocks) (push_bit 1 slots + 1) else 0)"

definition update_global_dynamic_data :: "BlockHeader \<Rightarrow> unit dbE" where
  "update_global_dynamic_data b =
     thenE get_dynamic_global_properties
    (bindE head_block_num (\<lambda>head.
     bindE (if head = 0 then ret 1 else get_slot_at_time (sec (bh_timestamp b))) (\<lambda>slot.
     let missed_blocks = slot - 1 in
     thenE (forE (map of_nat [0..<unat missed_blocks]) (miss_block b))
           (modify_dgpo (\<lambda>dgp. dgp\<lparr>
              head_block_number := ucast (bh_number b),
              head_block_id := bh_hash b,
              dgp_time := sec (bh_timestamp b),
              current_absolute_slot := current_absolute_slot dgp + ucast (missed_blocks + 1),
              recent_slots_filled := fill_slots missed_blocks (recent_slots_filled dgp)\<rparr>)))))"

definition update_signing_producer :: "int \<Rightarrow> BlockHeader \<Rightarrow> unit dbE" where
  "update_signing_producer i new_block =
     bindE get_dynamic_global_properties (\<lambda>dpo.
     bindE (get_slot_at_time (sec (bh_timestamp new_block))) (\<lambda>slot.
     modify_prod i (\<lambda>wit. wit\<lparr>last_aslot := current_absolute_slot dpo + ucast slot,
       last_confirmed_block_num := ucast (bh_number new_block)\<rparr>)))"

text \<open>
  \<open>std::nth_element\<close> puts at \<open>offset\<close> the element that sorting would put there; without
  producers the element is read past the end.
\<close>

primrec get_all_producers :: "address list \<Rightarrow> producer_object list dbE" where
  "get_all_producers [] = ret []"
| "get_all_producers (a # as) =
     (if a = 0 then get_all_producers as
      else bindE (get_producer a) (\<lambda>(_, p). bindE (get_all_producers as) (\<lambda>ps. ret (p # ps))))"

definition irreversible_num :: "producer_object list \<Rightarrow> u32" where
  "irreversible_num ps =
     sort (map last_confirmed_block_num ps) !
       ETH_PERCENT (length ps) (Percent100 - IrreversibleThresholdPercent)"

definition update_last_irreversible_block :: "chain_env \<Rightarrow> unit ccE" where
  "update_last_irreversible_block env =
     bindE (on_db get_global_properties) (\<lambda>gpo.
     bindE (on_db get_dynamic_global_properties) (\<lambda>dpo.
     bindE (on_db (get_all_producers (active_producers gpo))) (\<lambda>producer_objs.
     if producer_objs = [] then throw UndefinedBehaviour
     else
       let num = irreversible_num producer_objs in
       thenE (if num > last_irreversible_block_num dpo
              then thenE (on_db (modify_dgpo (\<lambda>d. d\<lparr>last_irreversible_block_num := num\<rparr>)))
                         (updE (\<lambda>c. c\<lparr>c_last_irreversible_block_num := num,
                                      c_last_irreversible_block_hash := numberHash env num\<rparr>))
              else ret ())
             (updE (c_db_update (db_commit (uint num)))))))"


section \<open>Rounds and hardforks\<close>

definition calculate_next_round :: "BlockHeader \<Rightarrow> address list dbE" where
  "calculate_next_round next_block =
     thenE get_schedule
    (bindE calculateNextRound (\<lambda>schedule. ret (shuffle (ucast (bh_timestamp next_block)) schedule)))"

text \<open>The flat map of the votes, largest version and time first.\<close>

fun count_vote :: "'k::linorder \<Rightarrow> ('k \<times> nat) list \<Rightarrow> ('k \<times> nat) list" where
  "count_vote k [] = [(k, 1)]"
| "count_vote k ((j, n) # m) =
     (if j > k then (j, n) # count_vote k m
      else if j = k then (j, n + 1) # m
      else (k, 1) # (j, n) # m)"

definition hardfork_ballot :: "producer_object list \<Rightarrow> ((ver \<times> time_point_sec) \<times> nat) list" where
  "hardfork_ballot ps = foldl (\<lambda>m p. count_vote (hardfork_ver_vote p, hardfork_time_vote p) m) [] ps"

definition update_hardfork_votes :: "address list \<Rightarrow> unit dbE" where
  "update_hardfork_votes actives =
     thenE get_global_properties
    (bindE (get_all_producers actives) (\<lambda>ps.
     case find (\<lambda>(_, n). n \<ge> ETI_HardforkRequiredProducers) (hardfork_ballot ps) of
       Some ((hf_ver, t), _) \<Rightarrow> modify_gpo (\<lambda>gpo. gpo\<lparr>next_hardfork := hf_ver, next_hardfork_time := t\<rparr>)
     | None \<Rightarrow> modify_gpo (\<lambda>gpo. gpo\<lparr>next_hardfork := current_hardfork_version gpo\<rparr>)))"

definition update_global_properties :: "BlockHeader \<Rightarrow> unit dbE" where
  "update_global_properties b =
     (if unat (ucast (bh_number b) :: u32) mod TotalProducersPerRound = 0
      then catchE
        (bindE (calculate_next_round b) (\<lambda>schedule.
         bindE get_global_properties (\<lambda>gpo.
         thenE (update_hardfork_votes (active_producers gpo))
               (modify_gpo (\<lambda>gpo. gpo\<lparr>active_producers := schedule\<rparr>)))))
        (\<lambda>_. ret ())
      else ret ())"

definition nthE :: "'a list \<Rightarrow> nat \<Rightarrow> (exn, 's, 'a) exc" where
  "nthE xs i = (if i < length xs then ret (xs ! i) else throw UndefinedBehaviour)"

definition apply_hardfork :: "nat \<Rightarrow> unit ccE" where
  "apply_hardfork hardfork =
     bindE (on_db get_global_properties) (\<lambda>gpo.
     thenE (throwIf (hardfork \<noteq> last_hardfork gpo + 1) HardforkApplyOutOfOrder)
    (bindE (getE hardfork_times) (\<lambda>times.
     bindE (nthE times hardfork) (\<lambda>t.
     thenE (on_db (on_hf (emplace hf_clash (Inr (hf_default\<lparr>hardfork_timepoint := t\<rparr>)))))
    (bindE (getE hardfork_versions) (\<lambda>versions.
     bindE (nthE versions hardfork) (\<lambda>v.
     on_db (modify_gpo (\<lambda>gpo. gpo\<lparr>last_hardfork := hardfork, current_hardfork_version := v\<rparr>)))))))))"

text \<open>
  The loop of \<open>process_hardforks\<close>: every iteration applies one more hardfork of the
  configuration or throws, so \<open>ETI_HardforkNum + 1\<close> iterations are enough.
\<close>

primrec hardfork_loop :: "nat \<Rightarrow> unit ccE" where
  "hardfork_loop 0 = ret ()"
| "hardfork_loop (Suc n) =
     bindE (on_db get_global_properties) (\<lambda>gpo.
     bindE (getE hardfork_versions) (\<lambda>versions.
     bindE (nthE versions (last_hardfork gpo)) (\<lambda>v.
     bindE (on_db head_block_time) (\<lambda>t.
     if v < next_hardfork gpo \<and> next_hardfork_time gpo \<le> t
     then thenE (if last_hardfork gpo < ETI_HardforkNum then apply_hardfork (last_hardfork gpo + 1)
                 else throw UnknownHardfork)
                (hardfork_loop n)
     else ret ()))))"

definition process_hardforks :: "unit ccE" where
  "process_hardforks = hardfork_loop (ETI_HardforkNum + 1)"


section \<open>Blocks\<close>

definition apply_block :: "chain_env \<Rightarrow> BlockHeader \<Rightarrow> unit ccE" where
  "apply_block env b =
     bindE (on_db (validate_block_header (verifySign env) b)) (\<lambda>(signing_producer, _).
     thenE (on_db (process_block_header b))
    (thenE (update_pow_perblock env b)
    (thenE (update_pow env)
    (thenE (update_pvomi_perblock env b)
    (thenE (on_db (update_global_dynamic_data b))
    (thenE (on_db (update_global_properties b))
    (thenE (on_db (update_signing_producer signing_producer b))
    (thenE (update_last_irreversible_block env)
           process_hardforks))))))))"

definition push_block :: "chain_env \<Rightarrow> BlockHeader \<Rightarrow> unit ccE" where
  "push_block env b =
     transact (c_db_update (\<lambda>d. snd (db_start_undo_session True d))) (on_db db_undo) (apply_block env b)"

text \<open>\<open>databaseReversion\<close> may undo for ever; None is a call that does not return.\<close>

partial_function (option) databaseReversion :: "u32 \<Rightarrow> chaindb \<Rightarrow> ((exn + unit) \<times> chaindb) option" where
  "databaseReversion firstvalid d =
     (case head_block_num d of
        (Inl e, d) \<Rightarrow> Some (Inl e, d)
      | (Inr n, d) \<Rightarrow>
          if n = firstvalid then Some (Inr (), d)
          else (case db_undo d of
            (Inl e, d) \<Rightarrow> Some (Inl e, d)
          | (Inr _, d) \<Rightarrow> databaseReversion firstvalid d))"


section \<open>Initialisation\<close>

definition ETI_GenesisTime :: time_point_sec where "ETI_GenesisTime = 0"
definition ETI_BlockchainVersion :: ver where "ETI_BlockchainVersion = version_of 0 0 0"

definition init_hardforks :: "unit ccE" where
  "init_hardforks =
     thenE (updE (\<lambda>c. c\<lparr>hardfork_times := (hardfork_times c)[0 := ETI_GenesisTime],
       hardfork_versions := (hardfork_versions c)[0 := hardfork_version_of 0 0]\<rparr>))
    (bindE (on_db get_global_properties) (\<lambda>gpo.
     thenE (throwIf (last_hardfork gpo > ETI_HardforkNum) UnknownHardfork)
    (bindE (getE hardfork_versions) (\<lambda>versions.
     bindE (nthE versions (last_hardfork gpo)) (\<lambda>v.
     throwIf (hardfork_greater v ETI_BlockchainVersion) UnknownHardfork)))))"

definition genesis_producer :: "address \<Rightarrow> unit dbE" where
  "genesis_producer a =
     (if a = 0 then ret ()
      else thenE (on_prod (emplace prod_clash (Inr (producer_default\<lparr>owner := a\<rparr>))))
          (thenE (on_pvo (emplace pvo_clash (Inr (pvo_default\<lparr>ownerName := a\<rparr>)))) (ret ())))"

definition create_genesis :: "address list \<Rightarrow> unit dbE" where
  "create_genesis initialProducers =
     (if length initialProducers > TotalProducersPerRound then throw UndefinedBehaviour
      else
        thenE (on_gpo (emplace no_clash (Inr (gpo_default\<lparr>
            active_producers := initialProducers @ drop (length initialProducers) (active_producers gpo_default),
            last_hardfork := 0,
            current_hardfork_version := hardfork_version_from (version_of 0 0 0),
            next_hardfork := hardfork_version_from (version_of 0 0 0),
            next_hardfork_time := ETI_GenesisTime\<rparr>))))
       (thenE (on_hf (emplace hf_clash (Inr (hf_default\<lparr>hardfork_timepoint := ETI_GenesisTime\<rparr>))))
       (thenE (on_dgpo (emplace no_clash (Inr (dgpo_default\<lparr>dgp_time := 1513580324, recent_slots_filled := - 1\<rparr>))))
       (thenE (on_pso (emplace no_clash (Inr pso_default)))
       (bindE get_global_properties (\<lambda>gpo. forE (active_producers gpo) genesis_producer))))))"

text \<open>A client older than the last hardfork of its chain never returns.\<close>

definition initialize_chain ::
    "chain_env \<Rightarrow> address list \<Rightarrow> chain_controller \<Rightarrow> ((exn + unit) \<times> chain_controller) option" where
  "initialize_chain env initialProducers c =
     (case (thenE (if gx_find 0 (db_gpo (c_db c)) = None then on_db (create_genesis initialProducers) else ret ())
           (thenE init_hardforks
           (bindE (on_db get_dynamic_global_properties) (\<lambda>dgp.
            updE (\<lambda>c. c\<lparr>c_last_irreversible_block_num := last_irreversible_block_num dgp,
              c_last_irreversible_block_hash := numberHash env (last_irreversible_block_num dgp)\<rparr>))))) c of
        (Inl UnknownHardfork, _) \<Rightarrow> None
      | r \<Rightarrow> Some r)"

end
