(* ===== verification/ChainTrack.thy ===== *)
theory ChainTrack
  imports ChainController
begin

text \<open>
  Every stage of \<open>apply_block\<close> changes the database only through the operations of
  \<open>chainbase::database\<close>. What those operations keep, the stages keep: once for any
  property (a locale), then for the undo log, the consistency of the indices and the
  singletons. From it follow that a block that fails leaves no trace in the database and
  what \<open>databaseReversion\<close> restores.
\<close>

section \<open>Clients of the database\<close>

lemma keeps_case_prod [keeps_intro]:
  "(\<And>a b. p = (a, b) \<Longrightarrow> keeps I (f a b)) \<Longrightarrow> keeps I (case p of (a, b) \<Rightarrow> f a b)"
  by (cases p) simp

lemma keeps_reads [keeps_intro]:
  "keeps I get_global_properties" "keeps I get_dynamic_global_properties" "keeps I get_schedule"
  "keeps I (get_pvo a)" "keeps I (get_producer a)"
  by (auto simp: keeps_def get_global_properties_def get_dynamic_global_properties_def get_schedule_def
      get_pvo_def get_producer_def gx_get_def gx_find_def on_defs exc_defs split: option.splits)

lemma keeps_get_all [keeps_intro]: "keeps I (get_all_producers as)"
  by (induction as) (simp_all only: get_all_producers.simps, (intro keeps_intro | assumption)+)

definition ctl :: "(chaindb \<Rightarrow> bool) \<Rightarrow> ver list \<Rightarrow> chain_controller \<Rightarrow> bool" where
  "ctl I hv c \<longleftrightarrow> I (c_db c) \<and> hardfork_versions c = hv"

lemma keeps_read_from: "keeps J (read_from m t)"
  by (simp add: read_from_def split: sum.split)

text \<open>\<open>apply_block\<close> up to the last irreversible block.\<close>

definition early_stages :: "chain_env \<Rightarrow> BlockHeader \<Rightarrow> unit ccE" where
  "early_stages env b =
     bindE (on_db (validate_block_header (verifySign env) b)) (\<lambda>(signing_producer, _).
     thenE (on_db (process_block_header b))
    (thenE (update_pow_perblock env b)
    (thenE (update_pow env)
    (thenE (update_pvomi_perblock env b)
    (thenE (on_db (update_global_dynamic_data b))
    (thenE (on_db (update_global_properties b))
           (on_db (update_signing_producer signing_producer b))))))))"

lemma bindE_assoc: "bindE (bindE m f) g = bindE m (\<lambda>x. bindE (f x) g)"
  by (simp add: fun_eq_iff bindE_def split: prod.split sum.split)

lemma thenE_assoc: "thenE (bindE m f) n = bindE m (\<lambda>x. thenE (f x) n)" "thenE (thenE m n) k = thenE m (thenE n k)"
  by (simp_all add: thenE_def bindE_assoc)

lemma apply_block_eq:
  "apply_block env b = thenE (early_stages env b) (thenE (update_last_irreversible_block env) process_hardforks)"
  unfolding apply_block_def early_stages_def by (simp only: thenE_assoc split_def)

text \<open>
  \<open>N\<close> is the number of the block: the stages set the head block number and the last
  confirmed block of the signing producer to it, and nothing else.
\<close>

locale db_client =
  fixes I :: "chaindb \<Rightarrow> bool" and N :: u32
  assumes gpo: "(\<And>g. last_hardfork (f1 g) = last_hardfork g) \<Longrightarrow> keeps I (modify_gpo f1)"
    and dgpo: "(\<And>g. last_irreversible_block_num (f2 g) = last_irreversible_block_num g) \<Longrightarrow>
      (\<And>g. head_block_number (f2 g) \<in> {head_block_number g, N}) \<Longrightarrow> keeps I (modify_dgpo f2)"
    and pso: "keeps I (modify_pso f3)"
    and prod: "(\<And>v. owner (f4 v) = owner v) \<Longrightarrow>
      (\<And>v. last_confirmed_block_num (f4 v) \<in> {last_confirmed_block_num v, N}) \<Longrightarrow> keeps I (modify_prod i f4)"
    and pvo: "(\<And>v. ownerName (fst (f5 v)) = ownerName v) \<Longrightarrow> keeps I (modify_pvo i f5)"
    and new_pvo: "keeps I (on_pvo (emplace pvo_clash c1))"
    and new_prod: "last_confirmed_block_num p = 0 \<Longrightarrow> keeps I (on_prod (emplace prod_clash (Inr p)))"
    and del_pvo: "keeps I (on_pvo (remove i))"
begin

lemmas ops = gpo dgpo pso prod pvo new_pvo new_prod del_pvo

lemma pvo_race_name: "ownerName (fst (pvo_race f v)) = ownerName v"
  by (simp add: pvo_race_def split: prod.split)

lemma leave: "keeps I (leave_pow i)"
  unfolding leave_pow_def by (intro keeps_intro ops; simp)

lemma slots: "keeps I (get_slot_time n)" "keeps I (get_slot_at_time t)" "keeps I (get_scheduled_producer n)"
  "keeps I head_block_num" "keeps I head_block_time"
  unfolding get_slot_at_time_def get_slot_time_def get_scheduled_producer_def head_block_num_def
    head_block_time_def Let_def
  by (intro keeps_intro)+

lemma header: "keeps I (validate_block_header f b)" "keeps I (process_block_header b)"
  unfolding validate_block_header_def process_block_header_def by (intro keeps_intro slots ops; simp)+

lemma pow_answers: "keeps I (pow_answer h t x)"
  unfolding pow_answer_def enter_pow_def by (intro keeps_intro ops; simp add: producer_default_def)

lemma votes: "keeps I (change_votes a n)" "keeps I (new_candidate a)"
  unfolding change_votes_def new_candidate_def updateVotes_def
  by (intro keeps_intro ops leave; simp add: pvo_race_name producer_default_def)+

lemma dynamic: "ucast (bh_number b) = N \<Longrightarrow> keeps I (update_global_dynamic_data b)"
  unfolding update_global_dynamic_data_def miss_block_def Let_def by (intro keeps_intro slots ops; simp)

lemma signing: "ucast (bh_number b) = N \<Longrightarrow> keeps I (update_signing_producer i b)"
  unfolding update_signing_producer_def by (intro keeps_intro slots ops; simp)

lemma reset: "keeps I resetProducerRace"
  unfolding resetProducerRace_def startNewRaceLap_def by (intro keeps_intro ops; simp add: pvo_race_name)

lemma race: "keeps I (update_race a)"
  unfolding update_race_def startNewRaceLap_def Let_def by (intro keeps_intro ops reset; simp add: pvo_race_name)

lemma pow: "keeps I (pow_loop q n r k)"
  by (induction q n r k rule: pow_loop.induct) (simp_all only: pow_loop.simps, (intro keeps_intro leave; simp)+)

lemma evict: "keeps I (evict_pow g)"
  unfolding evict_pow_def by (intro keeps_intro) (auto intro!: keeps_intro leave split: list.split)

lemma round: "keeps I calculateNextRound"
  unfolding calculateNextRound_def Let_def by (intro keeps_intro evict pow race)

lemma global: "keeps I (update_global_properties b)"
  unfolding update_global_properties_def calculate_next_round_def update_hardfork_votes_def
  by (intro keeps_intro round ops; simp)

text \<open>The stages on the controller.\<close>

lemma on_db: "keeps I m \<Longrightarrow> keeps (ctl I hv) (on_db m)"
  by (auto simp: keeps_def ctl_def on_db_def zoomE_def split: prod.split)

lemma pow_perblock: "keeps (ctl I hv) (update_pow_perblock env b)"
  unfolding update_pow_perblock_def by (intro keeps_intro keeps_updE keeps_read_from; simp add: ctl_def)

lemma pow_block: "keeps (ctl I hv) (update_pow env)"
  unfolding update_pow_def get_pow_target_def by (intro keeps_intro on_db pow_answers)

lemma votes_block: "keeps (ctl I hv) (update_pvomi_perblock env b)"
  unfolding update_pvomi_perblock_def check_candidate_def drop_candidate_def get_votes_def
  by (intro keeps_intro on_db keeps_updE keeps_read_from votes ops; simp add: ctl_def)

lemma early: "ucast (bh_number b) = N \<Longrightarrow> keeps (ctl I hv) (early_stages env b)"
  unfolding early_stages_def
  by (intro keeps_intro on_db header pow_perblock pow_block votes_block dynamic global signing)

end

interpretation trk: db_client "db_tracking b" N for b N
  by unfold_locales (intro db_modify_tracking db_create_tracking; assumption)+

lemma modify_indices:
  "gx_indices (snd (modify clash i f g)) = (case om_find (gx_indices g) i of
     None \<Rightarrow> gx_indices g
   | Some v \<Rightarrow> if snd (f v) = None \<and> \<not> Chainbase.fits clash i (fst (f v)) (gx_indices g) then om_erase i (gx_indices g)
       else om_put i (fst (f v)) (gx_indices g))"
  by (simp add: modify_def on_modify_def Let_def split: option.split prod.split)

lemma keeps_modify:
  assumes "\<And>m v. P m \<Longrightarrow> om_find m i = Some v \<Longrightarrow> P (om_put i (fst (f v)) m)" "\<And>m. P m \<Longrightarrow> P (om_erase i m)"
  shows "keeps (\<lambda>g. P (gx_indices g)) (modify clash i f)"
  unfolding keeps_def modify_indices using assms by (simp split: option.split)

lemma fits_no_clash [simp]: "Chainbase.fits no_clash i w m"
  by (auto simp: Chainbase.fits_def no_clash_def list_all_iff)

lemma keeps_modify_single:
  assumes "\<And>m v. P m \<Longrightarrow> om_find m i = Some v \<Longrightarrow> P (om_put i (fst (f v)) m)"
  shows "keeps (\<lambda>g. P (gx_indices g)) (modify no_clash i f)"
  unfolding keeps_def modify_indices using assms by (simp split: option.split)

lemma keeps_emplace:
  assumes "\<And>m n. P m \<Longrightarrow> om_find m n = None \<Longrightarrow> P (om_put n p m)"
  shows "keeps (\<lambda>g. P (gx_indices g)) (emplace clash (Inr p))"
  using assms by (auto simp: keeps_def emplace_def on_create_def Let_def)

lemma keeps_on:
  "keeps (\<lambda>g. P1 (gx_indices g)) m1 \<Longrightarrow> keeps (\<lambda>d. P1 (gpos d)) (on_gpo m1)"
  "keeps (\<lambda>g. P2 (gx_indices g)) m2 \<Longrightarrow> keeps (\<lambda>d. P2 (dgpos d)) (on_dgpo m2)"
  "keeps (\<lambda>g. P5 (gx_indices g)) m5 \<Longrightarrow> keeps (\<lambda>d. P5 (prods d)) (on_prod m5)"
  by (auto simp: keeps_def on_defs zoomE_def split: prod.split)

lemma keeps_other:
  "keeps (\<lambda>d. P1 (gpos d)) (on_dgpo m2)" "keeps (\<lambda>d. P1 (gpos d)) (on_pvo m3)" "keeps (\<lambda>d. P1 (gpos d)) (on_pso m4)"
  "keeps (\<lambda>d. P1 (gpos d)) (on_prod m5)" "keeps (\<lambda>d. P2 (dgpos d)) (on_gpo m1)" "keeps (\<lambda>d. P2 (dgpos d)) (on_pvo m3)"
  "keeps (\<lambda>d. P2 (dgpos d)) (on_pso m4)" "keeps (\<lambda>d. P2 (dgpos d)) (on_prod m5)" "keeps (\<lambda>d. P5 (prods d)) (on_gpo m1)"
  "keeps (\<lambda>d. P5 (prods d)) (on_dgpo m2)" "keeps (\<lambda>d. P5 (prods d)) (on_pvo m3)" "keeps (\<lambda>d. P5 (prods d)) (on_pso m4)"
  by (auto simp: keeps_def on_defs zoomE_def split: prod.split)

text \<open>The singletons, and the numbers the stages may not exceed.\<close>

definition known_hardfork :: "(int, global_property_object) omap \<Rightarrow> bool" where
  "known_hardfork m \<longleftrightarrow> (\<exists>g. om_find m 0 = Some g \<and> last_hardfork g \<le> ETI_HardforkNum)"

definition irreversible_at :: "u32 \<Rightarrow> (int, dynamic_global_property_object) omap \<Rightarrow> bool" where
  "irreversible_at L m \<longleftrightarrow> (\<exists>g. om_find m 0 = Some g \<and> last_irreversible_block_num g = L)"

definition head_at :: "u32 \<Rightarrow> (int, dynamic_global_property_object) omap \<Rightarrow> bool" where
  "head_at N m \<longleftrightarrow> (\<exists>g. om_find m 0 = Some g \<and> head_block_number g = N)"

definition confirmed_to :: "u32 \<Rightarrow> (int, producer_object) omap \<Rightarrow> bool" where
  "confirmed_to N m \<longleftrightarrow> (\<forall>i p. om_find m i = Some p \<longrightarrow> last_confirmed_block_num p \<le> N)"

lemmas modify_defs = modify_gpo_def modify_dgpo_def modify_pso_def modify_prod_def modify_pvo_def

interpretation hfk: db_client "\<lambda>d. known_hardfork (gpos d)" N for N
  by unfold_locales ((unfold modify_defs)?; intro keeps_on keeps_other keeps_modify_single; auto simp: known_hardfork_def)+

interpretation irr: db_client "\<lambda>d. irreversible_at L (dgpos d)" N for L N
  by unfold_locales ((unfold modify_defs)?; intro keeps_on keeps_other keeps_modify_single; auto simp: irreversible_at_def)+

interpretation hd: db_client "\<lambda>d. head_at N (dgpos d)" N for N
  by unfold_locales ((unfold modify_defs)?; intro keeps_on keeps_other keeps_modify_single; auto simp: head_at_def)+

interpretation conf: db_client "\<lambda>d. confirmed_to N (prods d)" N for N
  by unfold_locales ((unfold modify_defs)?; intro keeps_on keeps_other keeps_modify keeps_emplace; force simp: confirmed_to_def)+


section \<open>The end of a block\<close>

lemma get_all_same: "snd (get_all_producers as d) = d"
  using keeps_get_all [of "\<lambda>x. x = d" as] by (simp add: keeps_def)

lemma get_all_in:
  assumes "db_ok d"
  shows "get_all_producers as d = (Inr ps, d') \<Longrightarrow> p \<in> set ps \<Longrightarrow> \<exists>i. om_find (prods d) i = Some p"
proof (induction as arbitrary: ps)
  case (Cons a as)
  show ?case
  proof (cases "a = 0")
    case False
    obtain i q where q: "find_prod a d = Some (i, q)"
      using Cons.prems(1) False by (cases "find_prod a d") (auto simp: get_producer_def theE_def bindE_assoc)
    with False Cons.prems(1) obtain qs where qs: "get_all_producers as d = (Inr qs, d')" "ps = q # qs"
      by (auto simp: bindE_Inr [of "get_producer a" d "(i, q)" d] dest!: bindE_InrD)
    have "om_find (prods d) i = Some q" using q find_prod_iff [OF assms] by blast
    with Cons.IH [OF qs(1)] Cons.prems(2) qs(2) show ?thesis by auto
  qed (use Cons in auto)
qed simp

lemma offset_less: "0 < n \<Longrightarrow> ETH_PERCENT n (Percent100 - IrreversibleThresholdPercent) < n"
  by (simp add: ETH_PERCENT_def config_defs)

lemma irreversible_num_in: "ps \<noteq> [] \<Longrightarrow> irreversible_num ps \<in> last_confirmed_block_num ` set ps"
proof -
  assume "ps \<noteq> []"
  then have "irreversible_num ps \<in> set (sort (map last_confirmed_block_num ps))"
    unfolding irreversible_num_def by (intro nth_mem) (simp add: offset_less)
  then show ?thesis by simp
qed

lemma lib_run:
  assumes "db_ok (c_db c)" "om_find (dgpos (c_db c)) 0 = Some g"
  obtains (throws) e where "update_last_irreversible_block env c = (Inl e, c)"
  | (ok) ps c' num where "update_last_irreversible_block env c = (Inr (), c')" "ps \<noteq> []" "num = irreversible_num ps"
      "\<forall>p \<in> set ps. \<exists>i. om_find (prods (c_db c)) i = Some p"
      "c_db c' = db_commit (uint num) (if num > last_irreversible_block_num g
         then (c_db c)\<lparr>db_dgpo := gx_put 0 g (g\<lparr>last_irreversible_block_num := num\<rparr>) (db_dgpo (c_db c))\<rparr> else c_db c)"
      "hardfork_versions c' = hardfork_versions c"
      "\<exists>gp. om_find (gpos (c_db c)) 0 = Some gp \<and> get_all_producers (active_producers gp) (c_db c) = (Inr ps, c_db c)"
proof (cases "om_find (gpos (c_db c)) 0")
  case None
  then have "update_last_irreversible_block env c = (Inl OutOfRange, c)"
    by (simp add: update_last_irreversible_block_def on_db_def zoomE_def get_global_properties_def on_defs
        gx_get_def gx_find_def theE_def bindE_def)
  then show thesis by (rule throws)
next
  case (Some gp)
  obtain r d where r: "get_all_producers (active_producers gp) (c_db c) = (r, d)" by (rule prod.exhaust)
  with get_all_same [of "active_producers gp" "c_db c"] have d: "d = c_db c" by simp
  show thesis
  proof (cases r)
    case (Inl e)
    with r d Some assms have "update_last_irreversible_block env c = (Inl e, c)"
      by (simp add: update_last_irreversible_block_def on_db_def zoomE_def bindE_def)
    then show thesis by (rule throws)
  next
    case (Inr ps)
    show thesis
    proof (cases "ps = []")
      case True
      with Inr r d Some assms have "update_last_irreversible_block env c = (Inl UndefinedBehaviour, c)"
        by (simp add: update_last_irreversible_block_def on_db_def zoomE_def bindE_def)
      then show thesis by (rule throws)
    next
      case False
      have ps: "\<forall>p \<in> set ps. \<exists>i. om_find (prods (c_db c)) i = Some p"
        using get_all_in [OF assms(1) r [unfolded Inr]] by blast
      obtain c' where c': "update_last_irreversible_block env c = (Inr (), c')" "hardfork_versions c' = hardfork_versions c"
          "c_db c' = db_commit (uint (irreversible_num ps)) (if irreversible_num ps > last_irreversible_block_num g
             then (c_db c)\<lparr>db_dgpo := gx_put 0 g (g\<lparr>last_irreversible_block_num := irreversible_num ps\<rparr>) (db_dgpo (c_db c))\<rparr>
             else c_db c)"
        using False Inr r d Some assms
        by (cases "irreversible_num ps > last_irreversible_block_num g")
          (simp_all add: update_last_irreversible_block_def on_db_def zoomE_def bindE_def thenE_def modify_dgpo_run Let_def)
      have "\<exists>gp. om_find (gpos (c_db c)) 0 = Some gp \<and> get_all_producers (active_producers gp) (c_db c) = (Inr ps, c_db c)"
        using Some r Inr d by blast
      from ok [OF c'(1) False refl ps c'(3,2) this] show thesis .
    qed
  qed
qed

lemma hardforks_run:
  assumes "known_hardfork (gpos (c_db c))" "om_find (dgpos (c_db c)) 0 \<noteq> None"
    "length (hardfork_versions c) = ETI_HardforkNum + 1"
  shows "process_hardforks c = (Inr (), c) \<or> process_hardforks c = (Inl UnknownHardfork, c)"
proof -
  obtain g h where g: "om_find (gpos (c_db c)) 0 = Some g" "last_hardfork g = 0" "om_find (dgpos (c_db c)) 0 = Some h"
    using assms(1,2) by (auto simp: known_hardfork_def config_defs)
  have "0 < length (hardfork_versions c)" using assms(3) by simp
  with g have "process_hardforks c =
      (if hardfork_versions c ! 0 < next_hardfork g \<and> next_hardfork_time g \<le> dgp_time h then Inl UnknownHardfork else Inr (), c)"
    by (simp add: process_hardforks_def ETI_HardforkNum_def on_db_def zoomE_def bindE_def thenE_def
        head_block_time_def nthE_def)
  then show ?thesis by simp
qed


section \<open>Pushing a block\<close>

lemma db_tracking_ok: "db_tracking b d \<Longrightarrow> db_ok b \<and> db_ok d"
  by (auto simp: db_tracking_def db_ok_def gx_tracking_def tracks_def)

lemma start_same [simp]:
  "gpos (snd (db_start_undo_session True d)) = gpos d" "dgpos (snd (db_start_undo_session True d)) = dgpos d"
  "prods (snd (db_start_undo_session True d)) = prods d"
  by (simp_all add: db_start_eq start_undo_session_def Let_def)

lemma commit_same [simp]:
  "gx_indices (commit r g) = gx_indices g" "gx_next_id (commit r g) = gx_next_id g" "gx_revision (commit r g) = gx_revision g"
  by (simp_all add: commit_def)

lemma db_commit_same [simp]:
  "gpos (db_commit r d) = gpos d" "dgpos (db_commit r d) = dgpos d" "pvos (db_commit r d) = pvos d"
  "psos (db_commit r d) = psos d" "prods (db_commit r d) = prods d" "hfs (db_commit r d) = hfs d"
  by (simp_all add: db_commit_def)

lemma modify_dgpo_Inr: "modify_dgpo f d = (Inr (), d') \<Longrightarrow> \<exists>g. om_find (dgpos d') 0 = Some (f g)"
  by (auto simp: modify_dgpo_def on_defs zoomE_def modify_def Let_def on_modify_def split: option.splits prod.splits if_splits)

lemma dynamic_head:
  assumes "update_global_dynamic_data b d = (Inr (), d')"
  shows "head_at (ucast (bh_number b)) (dgpos d')"
proof -
  obtain f d1 where "modify_dgpo f d1 = (Inr (), d')" "\<And>g. head_block_number (f g) = ucast (bh_number b)"
    using assms unfolding update_global_dynamic_data_def Let_def
    by (auto dest!: thenE_InrD bindE_InrD)
  with modify_dgpo_Inr [of f d1 d'] show ?thesis by (auto simp: head_at_def)
qed

lemma on_db_InrD: "on_db m c = (Inr x, c') \<Longrightarrow> \<exists>d. m (c_db c) = (Inr x, d) \<and> c' = c\<lparr>c_db := d\<rparr>"
  by (auto simp: on_db_def zoomE_def split: prod.splits)

lemma early_head:
  assumes "early_stages env b c = (Inr (), c')"
  shows "head_at (ucast (bh_number b)) (dgpos (c_db c'))"
proof -
  obtain i c1 c2 c3 where 1: "on_db (update_global_dynamic_data b) c1 = (Inr (), c2)"
      "on_db (update_global_properties b) c2 = (Inr (), c3)" "on_db (update_signing_producer i b) c3 = (Inr (), c')"
    using assms unfolding early_stages_def by (auto dest!: thenE_InrD bindE_InrD)
  let ?I = "ctl (\<lambda>d. head_at (ucast (bh_number b)) (dgpos d)) (hardfork_versions c2)"
  have "?I c2" using dynamic_head 1(1) by (auto simp: ctl_def dest!: on_db_InrD)
  then have "?I c3" by (rule keepsD [OF hd.on_db [OF hd.global] _ 1(2)])
  then have "?I c'" by (rule keepsD [OF hd.on_db [OF hd.signing [OF refl]] _ 1(3)])
  then show ?thesis by (simp add: ctl_def)
qed

text \<open>A session has been started.\<close>

definition started :: "chain_controller \<Rightarrow> chain_controller" where
  "started c = c\<lparr>c_db := snd (db_start_undo_session True (c_db c))\<rparr>"

lemma push_block_eq:
  "push_block env blk c = (case apply_block env blk (started c) of
     (Inl e, c1) \<Rightarrow> (Inl e, snd (on_db db_undo c1)) | (Inr x, c1) \<Rightarrow> (Inr x, c1))"
proof -
  have "c_db_update (\<lambda>d. snd (db_start_undo_session True d)) c = started c" by (simp add: started_def)
  then show ?thesis by (simp add: push_block_def transact_def)
qed

end
