(* ===== verification/ChainReversion.thy ===== *)
theory ChainReversion
  imports ChainTrack
begin

text \<open>
  Failed blocks leave no trace in the database; after any blocks \<open>databaseReversion\<close>
  restores the database after an earlier block exactly down to the last irreversible one,
  and below it never returns.
\<close>

section \<open>One block\<close>

definition well :: "u32 \<Rightarrow> chain_controller \<Rightarrow> bool" where
  "well L c \<longleftrightarrow> known_hardfork (gpos (c_db c)) \<and> irreversible_at L (dgpos (c_db c)) \<and>
     length (hardfork_versions c) = ETI_HardforkNum + 1"

lemma early_run:
  assumes "early_stages env blk c = (r, c')" "ucast (bh_number blk) = N" "db_tracking b (c_db c)" "well L c"
  shows "db_tracking b (c_db c')" "well L c'" "confirmed_to N (prods (c_db c)) \<Longrightarrow> confirmed_to N (prods (c_db c'))"
proof -
  let ?hv = "hardfork_versions c"
  have "ctl (db_tracking b) ?hv c'" using assms(3) by (intro keepsD [OF trk.early [OF assms(2)] _ assms(1)]) (simp add: ctl_def)
  moreover have "ctl (\<lambda>d. known_hardfork (gpos d)) ?hv c'"
    using assms(4) by (intro keepsD [OF hfk.early [OF assms(2)] _ assms(1)]) (simp add: ctl_def well_def)
  moreover have "ctl (\<lambda>d. irreversible_at L (dgpos d)) ?hv c'"
    using assms(4) by (intro keepsD [OF irr.early [OF assms(2)] _ assms(1)]) (simp add: ctl_def well_def)
  ultimately show "db_tracking b (c_db c')" "well L c'" using assms(4) by (simp_all add: ctl_def well_def)
  assume "confirmed_to N (prods (c_db c))"
  then have "ctl (\<lambda>d. confirmed_to N (prods d)) ?hv c'"
    by (intro keepsD [OF conf.early [OF assms(2)] _ assms(1)]) (simp add: ctl_def)
  then show "confirmed_to N (prods (c_db c'))" by (simp add: ctl_def)
qed

lemma lib_tracked:
  assumes "update_last_irreversible_block env c = (r, c')" "db_tracking b (c_db c)" "well L c"
  shows "c' = c \<and> isl r \<or>
    (\<exists>d num. r = Inr () \<and> db_tracking b d \<and> c_db c' = db_commit (uint num) d \<and> (\<forall>N. confirmed_to N (prods (c_db c)) \<longrightarrow> num \<le> N) \<and>
       gpos d = gpos (c_db c) \<and> prods d = prods (c_db c) \<and> hardfork_versions c' = hardfork_versions c \<and>
       irreversible_at (max L num) (dgpos d) \<and> (\<forall>n. head_at n (dgpos (c_db c)) \<longrightarrow> head_at n (dgpos d)))"
proof -
  obtain g where g: "om_find (dgpos (c_db c)) 0 = Some g" "last_irreversible_block_num g = L"
    using assms(3) by (auto simp: well_def irreversible_at_def)
  have ok: "db_ok (c_db c)" using assms(2) db_tracking_ok by blast
  from ok g(1) show ?thesis
  proof (cases rule: lib_run [where env = env])
    case (throws e)
    with assms(1) have "c' = c" "r = Inl e" by simp_all
    then show ?thesis by simp
  next
    case (ok ps c2 num)
    define d where "d = (if num > L then (c_db c)\<lparr>db_dgpo := gx_put 0 g (g\<lparr>last_irreversible_block_num := num\<rparr>) (db_dgpo (c_db c))\<rparr> else c_db c)"
    have "\<forall>N. confirmed_to N (prods (c_db c)) \<longrightarrow> num \<le> N"
      using irreversible_num_in [OF ok(2)] ok(3,4) by (auto simp: confirmed_to_def)
    moreover have "db_tracking b d"
    proof (cases "num > L")
      case True
      then have "modify_dgpo (\<lambda>g. g\<lparr>last_irreversible_block_num := num\<rparr>) (c_db c) = (Inr (), d)"
        using modify_dgpo_run [OF \<open>db_ok (c_db c)\<close> g(1)] by (simp add: d_def)
      then show ?thesis by (rule keepsD [OF db_modify_tracking(2) assms(2)])
    qed (use assms(2) d_def in simp)
    moreover have "r = Inr ()" "c_db c' = db_commit (uint num) d" "hardfork_versions c' = hardfork_versions c"
      using ok(1,5,6) assms(1) g(2) by (simp_all add: d_def)
    ultimately show ?thesis
      using g by (intro disjI2 exI [of _ d] exI [of _ num])
        (auto simp: d_def irreversible_at_def head_at_def max_def not_le)
  qed
qed

lemma apply_block_run:
  assumes "apply_block env blk c = (r, c')" "ucast (bh_number blk) = N" "db_tracking b (c_db c)" "well L c"
  shows "db_tracking b (c_db c') \<and> well L c' \<and> isl r \<or>
    (\<exists>d num. r \<in> {Inr (), Inl UnknownHardfork} \<and> db_tracking b d \<and> c_db c' = db_commit (uint num) d \<and>
       (confirmed_to N (prods (c_db c)) \<longrightarrow> num \<le> N \<and> confirmed_to N (prods d)) \<and> well (max L num) c' \<and> head_at N (dgpos d))"
proof -
  obtain r1 c1 where 1: "early_stages env blk c = (r1, c1)" by (rule prod.exhaust)
  note e = early_run [OF 1 assms(2-4)]
  show ?thesis
  proof (cases r1)
    case (Inl x)
    with assms(1) 1 have "r = Inl x" "c' = c1" by (simp_all add: apply_block_eq thenE_def bindE_def)
    with e show ?thesis by simp
  next
    case (Inr u)
    obtain r2 c2 where 2: "update_last_irreversible_block env c1 = (r2, c2)" by (rule prod.exhaust)
    have eq: "(case r2 of Inl x \<Rightarrow> (Inl x, c2) | Inr _ \<Rightarrow> process_hardforks c2) = (r, c')"
      using assms(1) 1 2 Inr by (simp add: apply_block_eq thenE_def bindE_def split: sum.splits)
    have h: "head_at N (dgpos (c_db c1))" using early_head [of env blk c c1] 1 Inr assms(2) by simp
    consider (throws) "c2 = c1" "isl r2"
      | (ok) d num where "r2 = Inr ()" "db_tracking b d" "c_db c2 = db_commit (uint num) d"
          "\<forall>N. confirmed_to N (prods (c_db c1)) \<longrightarrow> num \<le> N" "gpos d = gpos (c_db c1)"
          "prods d = prods (c_db c1)" "hardfork_versions c2 = hardfork_versions c1" "irreversible_at (max L num) (dgpos d)"
          "head_at N (dgpos d)"
      using lib_tracked [OF 2 e(1,2)] h by blast
    then show ?thesis
    proof cases
      case throws
      with eq e(1,2) show ?thesis by (auto simp: isl_def)
    next
      case ok
      then have w: "well (max L num) c2" using e(2) by (simp add: well_def)
      then have "process_hardforks c2 = (Inr (), c2) \<or> process_hardforks c2 = (Inl UnknownHardfork, c2)"
        by (intro hardforks_run) (auto simp: well_def irreversible_at_def)
      with eq ok(1) have "c' = c2" "r \<in> {Inr (), Inl UnknownHardfork}" by auto
      moreover have "confirmed_to N (prods (c_db c)) \<longrightarrow> num \<le> N \<and> confirmed_to N (prods d)"
        using e(3) ok(4,6) by simp
      ultimately show ?thesis using ok w by blast
    qed
  qed
qed

lemma well_started [simp]: "well L (started c) = well L c" "prods (c_db (started c)) = prods (c_db c)"
  by (simp_all add: well_def started_def)

lemma push_block_fails:
  assumes "push_block env blk c = (Inl e, c')" "e \<noteq> UnknownHardfork" "db_ok (c_db c)" "well L c"
  shows "c_db c' = c_db c" "length (hardfork_versions c') = length (hardfork_versions c)"
proof -
  have t: "db_tracking (c_db c) (c_db (started c))" using db_start_tracking [OF assms(3)] by (simp add: started_def)
  obtain c1 where c1: "apply_block env blk (started c) = (Inl e, c1)" "c' = snd (on_db db_undo c1)"
    using assms(1) by (auto simp: push_block_eq split: prod.splits sum.splits)
  have "db_tracking (c_db c) (c_db c1)" "well L c1"
    using apply_block_run [OF c1(1) refl t, of L] assms(2,4) by auto
  then show "c_db c' = c_db c" "length (hardfork_versions c') = length (hardfork_versions c)"
    using assms(4) by (simp_all add: c1(2) on_db_def zoomE_def db_undo_tracking well_def)
qed

text \<open>
  C8. A block that is rejected leaves the database exactly as it was: whatever stage throws,
  all objects, their ids and the undo history are those before \<open>push_block\<close>. The one
  exception is \<open>UnknownHardfork\<close>, which is thrown after the history has been committed.
\<close>

theorem push_block_atomic:
  assumes "push_block env blk c = (Inl e, c')" "e \<noteq> UnknownHardfork" "db_ok (c_db c)" "well L c"
  shows "c_db c' = c_db c"
  by (rule push_block_fails(1) [OF assms])


section \<open>The history\<close>

definition revs :: "int \<Rightarrow> chaindb \<Rightarrow> bool" where
  "revs n d \<longleftrightarrow> gx_revision (db_gpo d) = n \<and> gx_revision (db_dgpo d) = n \<and> gx_revision (db_pvo d) = n \<and>
     gx_revision (db_pso d) = n \<and> gx_revision (db_prod d) = n \<and> gx_revision (db_hf d) = n"

definition bottom :: "chaindb \<Rightarrow> bool" where
  "bottom d \<longleftrightarrow> gx_stack (db_gpo d) = [] \<and> gx_stack (db_dgpo d) = [] \<and> gx_stack (db_pvo d) = [] \<and>
     gx_stack (db_pso d) = [] \<and> gx_stack (db_prod d) = [] \<and> gx_stack (db_hf d) = []"

text \<open>Each database of the list is the one before with one session undone, to the bottom.\<close>

fun hist :: "chaindb list \<Rightarrow> bool" where
  "hist [] = False"
| "hist [d] = (db_ok d \<and> bottom d)"
| "hist (d # b # ds) = (db_tracking b d \<and> hist (b # ds))"

definition below :: "int \<Rightarrow> 'v gindex \<Rightarrow> bool" where
  "below n g \<longleftrightarrow> (\<forall>u \<in> set (gx_stack g). us_revision u \<le> n)"

definition all_below :: "int \<Rightarrow> chaindb \<Rightarrow> bool" where
  "all_below n d \<longleftrightarrow> below n (db_gpo d) \<and> below n (db_dgpo d) \<and> below n (db_pvo d) \<and> below n (db_pso d) \<and>
     below n (db_prod d) \<and> below n (db_hf d)"

lemma gx_commit_tracking:
  assumes "gx_tracking clash b g" "r < gx_revision g"
  shows "gx_tracking clash (commit r b) (commit r g)"
proof -
  obtain h where h: "gx_stack g = h # gx_stack b" "us_revision h = gx_revision b + 1" "gx_revision g = gx_revision b + 1"
      "tracks clash (gx_indices b) (gx_next_id b) h (gx_indices g) (gx_next_id g)"
    using assms(1) by (auto simp: gx_tracking_def)
  have "gx_stack (commit r g) = h # gx_stack (commit r b)"
    using h(1-3) assms(2) by (simp add: commit_def dropWhile_append3)
  with h show ?thesis by (simp add: gx_tracking_def)
qed

lemma commit_below: "below r g \<Longrightarrow> gx_stack (commit r g) = []"
  by (auto simp: below_def commit_def)

lemma tracking_below: "gx_tracking clash b g \<Longrightarrow> below (gx_revision b) b \<Longrightarrow> below (gx_revision g) g"
  by (force simp: gx_tracking_def below_def)

lemma db_commit_tracking: "db_tracking b d \<Longrightarrow> revs n d \<Longrightarrow> r < n \<Longrightarrow> db_tracking (db_commit r b) (db_commit r d)"
  by (simp add: db_tracking_def db_commit_def revs_def gx_commit_tracking)

lemma revs_tracking: "db_tracking b d \<Longrightarrow> revs n d = revs (n - 1) b"
  by (auto simp: db_tracking_def revs_def gx_tracking_def)

lemma revs_commit [simp]: "revs n (db_commit r d) = revs n d"
  by (simp add: revs_def db_commit_def)

lemma db_ok_commit [simp]: "db_ok (db_commit r d) = db_ok d"
  by (simp add: db_ok_def db_commit_def)

lemma hist_below: "hist (d # ds) \<Longrightarrow> revs n d \<Longrightarrow> all_below n d"
proof (induction ds arbitrary: d n)
  case Nil
  then show ?case by (simp add: all_below_def below_def bottom_def)
next
  case (Cons b ds)
  then have t: "db_tracking b d" "revs (n - 1) b" "all_below (n - 1) b" by (auto simp: revs_tracking)
  then show ?case using Cons.prems(2) tracking_below
    unfolding db_tracking_def revs_def all_below_def by metis
qed

lemma commit_bottom: "all_below r d \<Longrightarrow> bottom (db_commit r d)"
  by (simp add: all_below_def bottom_def db_commit_def commit_below)

lemma hist_ok: "hist (d # ds) \<Longrightarrow> db_ok d"
  by (cases ds) (auto dest: db_tracking_ok)

lemma hist_commit:
  "hist ds \<Longrightarrow> \<forall>i < length ds. revs (n - int i) (ds ! i) \<Longrightarrow> r \<le> n \<Longrightarrow> hist (map (db_commit r) (take (nat (n - r) + 1) ds))"
proof (induction ds arbitrary: n rule: hist.induct)
  case (2 d)
  then show ?case by (auto simp: bottom_def db_commit_def commit_def db_ok_def)
next
  case (3 d b ds)
  have rv: "revs n d" using spec [OF "3.prems"(2), of 0] by simp
  show ?case
  proof (cases "r = n")
    case True
    with hist_below [OF "3.prems"(1) rv] hist_ok [OF "3.prems"(1)] show ?thesis by (simp add: commit_bottom)
  next
    case False
    have "\<forall>i < length (b # ds). revs (n - 1 - int i) ((b # ds) ! i)"
    proof (intro allI impI)
      fix i assume "i < length (b # ds)"
      then show "revs (n - 1 - int i) ((b # ds) ! i)" using spec [OF "3.prems"(2), of "Suc i"] by (simp add: algebra_simps)
    qed
    with 3 False have "hist (map (db_commit r) (take (nat (n - 1 - r) + 1) (b # ds)))" by auto
    moreover have "nat (n - r) = Suc (nat (n - 1 - r))" using False "3.prems"(3) by simp
    moreover have "db_tracking (db_commit r b) (db_commit r d)"
      using "3.prems"(1,3) False rv by (intro db_commit_tracking) auto
    ultimately show ?thesis by simp
  qed
qed simp


section \<open>Reversion\<close>

definition db_num :: "chaindb \<Rightarrow> u32" where
  "db_num d = (case om_find (dgpos d) 0 of Some g \<Rightarrow> head_block_number g | None \<Rightarrow> 0)"

lemma head_num_run: "om_find (dgpos d) 0 = Some g \<Longrightarrow> head_block_num d = (Inr (db_num d), d)"
  by (simp add: head_block_num_def bindE_def db_num_def)

lemma undo_bottom: "bottom d \<Longrightarrow> db_undo d = (Inr (), d)"
  by (cases d) (simp add: bottom_def db_undo_def on_defs exc_defs undo_def)

lemma reversion_diverges:
  assumes "bottom d" "om_find (dgpos d) 0 = Some g" "db_num d \<noteq> n"
  shows "databaseReversion n d = None"
proof -
  have "\<not> (n = n \<and> d = d)" if r: "databaseReversion n d = Some y" for y
  proof (rule databaseReversion.raw_induct [where P = "\<lambda>n' d' y. \<not> (n' = n \<and> d' = d)", OF _ r])
    fix rev n' d' y
    assume ih: "\<And>n' d' y. rev n' d' = Some y \<Longrightarrow> \<not> (n' = n \<and> d' = d)"
      and body: "(case head_block_num d' of (Inl e, d) \<Rightarrow> Some (Inl e, d)
        | (Inr k, d) \<Rightarrow> if k = n' then Some (Inr (), d)
            else (case db_undo d of (Inl e, d) \<Rightarrow> Some (Inl e, d) | (Inr x, d) \<Rightarrow> rev n' d)) = Some y"
    show "\<not> (n' = n \<and> d' = d)"
    proof
      assume "n' = n \<and> d' = d"
      with body assms have "rev n d = Some y" by (simp add: head_num_run undo_bottom)
      from ih [OF this] show False by simp
    qed
  qed
  then show ?thesis by (cases "databaseReversion n d") auto
qed

lemma reversion_hist:
  "hist ds \<Longrightarrow> \<forall>x \<in> set ds. om_find (dgpos x) 0 \<noteq> None \<Longrightarrow>
   databaseReversion n (hd ds) = map_option (\<lambda>x. (Inr (), x)) (find (\<lambda>x. db_num x = n) ds)"
proof (induction ds rule: hist.induct)
  case (2 d)
  then obtain g where g: "om_find (dgpos d) 0 = Some g" by auto
  show ?case
  proof (cases "db_num d = n")
    case True
    then show ?thesis by (subst databaseReversion.simps) (simp add: head_num_run [OF g])
  next
    case False
    with 2(1) reversion_diverges [OF _ g False] show ?thesis by simp
  qed
next
  case (3 d b ds)
  then obtain g where g: "om_find (dgpos d) 0 = Some g" by auto
  have "databaseReversion n d = (if db_num d = n then Some (Inr (), d) else databaseReversion n b)"
    using db_undo_tracking [of b d] "3.prems"(1) by (subst databaseReversion.simps) (simp add: head_num_run [OF g])
  with 3 show ?case by simp
qed simp

text \<open>
  A node that starts with an empty history, and then pushes blocks, rejects blocks and
  reverts the database. \<open>hs\<close> lists the database after every block on the current branch,
  the newest first, and \<open>lo\<close> is the largest irreversible block number that any block of any
  branch has set.
\<close>

definition contents where
  "contents d = (gpos d, dgpos d, pvos d, psos d, prods d, hfs d)"

definition db_lib :: "chaindb \<Rightarrow> u32" where
  "db_lib d = (case om_find (dgpos d) 0 of Some g \<Rightarrow> last_irreversible_block_num g | None \<Rightarrow> 0)"

definition fresh :: "chain_controller \<Rightarrow> bool" where
  "fresh c \<longleftrightarrow> db_ok (c_db c) \<and> bottom (c_db c) \<and> revs (uint (db_num (c_db c))) (c_db c) \<and>
     well (db_lib (c_db c)) c \<and> db_lib (c_db c) \<le> db_num (c_db c) \<and> confirmed_to (db_num (c_db c)) (prods (c_db c))"

inductive node :: "chain_controller \<Rightarrow> u32 \<Rightarrow> chaindb list \<Rightarrow> bool" where
  start: "fresh c \<Longrightarrow> node c (db_num (c_db c)) [c_db c]"
| push: "node c lo hs \<Longrightarrow> push_block env blk c = (Inr (), c') \<Longrightarrow>
    unat (ucast (bh_number blk) :: u32) = Suc (unat (db_num (c_db c))) \<Longrightarrow>
    node c' (max lo (db_lib (c_db c'))) (c_db c' # hs)"
| reject: "node c lo hs \<Longrightarrow> push_block env blk c = (Inl e, c') \<Longrightarrow> e \<noteq> UnknownHardfork \<Longrightarrow> node c' lo hs"
| revert: "node c lo hs \<Longrightarrow> databaseReversion n (c_db c) = Some (Inr (), d) \<Longrightarrow>
    node (c\<lparr>c_db := d\<rparr>) lo (drop (unat (db_num (c_db c)) - unat n) hs)"

text \<open>What the node keeps: the history of the database reaches from the head down to \<open>lo\<close>.\<close>

definition snap :: "u32 \<Rightarrow> chaindb \<Rightarrow> bool" where
  "snap lo d \<longleftrightarrow> revs (uint (db_num d)) d \<and> known_hardfork (gpos d) \<and> irreversible_at (db_lib d) (dgpos d) \<and>
     db_lib d \<le> lo \<and> confirmed_to (db_num d) (prods d)"

definition node_inv :: "chain_controller \<Rightarrow> u32 \<Rightarrow> chaindb list \<Rightarrow> bool" where
  "node_inv c lo hs \<longleftrightarrow> (\<exists>ds. hist ds \<and> hd ds = c_db c \<and> (\<forall>d \<in> set ds. snap lo d) \<and>
     map (\<lambda>d. unat (db_num d)) ds = rev [unat lo..<Suc (unat (db_num (c_db c)))] \<and>
     map contents ds = map contents (take (length ds) hs)) \<and> length (hardfork_versions c) = ETI_HardforkNum + 1"

lemma contents_commit [simp]: "contents (db_commit r d) = contents d" "db_num (db_commit r d) = db_num d"
  "db_lib (db_commit r d) = db_lib d"
  by (simp_all add: contents_def db_num_def db_lib_def)

lemma snap_commit [simp]: "snap lo (db_commit r d) = snap lo d"
  by (simp add: snap_def)

lemma snap_mono: "snap lo d \<Longrightarrow> lo \<le> lo' \<Longrightarrow> snap lo' d"
  by (auto simp: snap_def)

lemma irreversible_at_lib: "irreversible_at L (dgpos d) \<Longrightarrow> db_lib d = L"
  by (auto simp: irreversible_at_def db_lib_def)

lemma head_at_num: "head_at N (dgpos d) \<Longrightarrow> db_num d = N"
  by (auto simp: head_at_def db_num_def)

lemma prune_nums: "m \<le> N \<Longrightarrow> take (Suc (N - m)) (rev [l..<Suc N]) = rev [max l m..<Suc N]"
  by (simp add: take_rev max_def del: upt_Suc)

lemma nums_nth:
  assumes "map f ds = rev [l..<Suc h]" "i < length ds"
  shows "f (ds ! i) = h - i"
proof -
  have "length ds = Suc h - l" using arg_cong [OF assms(1), of length] by (simp del: upt_Suc)
  with assms(2) have "rev [l..<Suc h] ! i = h - i" by (simp add: rev_nth del: upt_Suc)
  with arg_cong [OF assms(1), of "\<lambda>xs. xs ! i"] assms(2) show ?thesis by simp
qed

lemma find_num:
  assumes "map (\<lambda>d. unat (db_num d)) ds = rev [l..<Suc h]"
  shows "find (\<lambda>x. db_num x = n) ds = (if l \<le> unat n \<and> unat n \<le> h then Some (ds ! (h - unat n)) else None)"
proof -
  have len: "length ds = Suc h - l" using arg_cong [OF assms, of length] by (simp del: upt_Suc)
  note nth = nums_nth [OF assms]
  show ?thesis
  proof (cases "l \<le> unat n \<and> unat n \<le> h")
    case True
    then have i: "h - unat n < length ds" using len by linarith
    have "db_num (ds ! (h - unat n)) = n" using nth [OF i] True by (simp add: word_unat_eq_iff)
    moreover have "db_num (ds ! j) \<noteq> n" if "j < h - unat n" for j
      using nth [of j] that i by auto
    ultimately show ?thesis using True i by (auto simp: find_Some_iff)
  next
    case False
    have "db_num x \<noteq> n" if x: "x \<in> set ds" for x
    proof -
      obtain i where "x = ds ! i" "i < length ds" using x by (auto simp: in_set_conv_nth)
      with nth [of i] len False show ?thesis by auto
    qed
    with False show ?thesis by (auto simp: find_None_iff)
  qed
qed

lemma node_inv_reversion:
  assumes "node_inv c lo hs"
  obtains ds where "hist ds" "hd ds = c_db c" "\<forall>d \<in> set ds. snap lo d" "lo \<le> db_num (c_db c)"
    "map (\<lambda>d. unat (db_num d)) ds = rev [unat lo..<Suc (unat (db_num (c_db c)))]"
    "map contents ds = map contents (take (length ds) hs)"
    "\<forall>n. databaseReversion n (c_db c) = (if lo \<le> n \<and> n \<le> db_num (c_db c)
       then Some (Inr (), ds ! (unat (db_num (c_db c)) - unat n)) else None)"
proof -
  obtain ds where ds: "hist ds" "hd ds = c_db c" "\<forall>d \<in> set ds. snap lo d"
    "map (\<lambda>d. unat (db_num d)) ds = rev [unat lo..<Suc (unat (db_num (c_db c)))]"
    "map contents ds = map contents (take (length ds) hs)"
    using assms by (auto simp: node_inv_def simp del: upt_Suc)
  have "ds \<noteq> []" using ds(1) by auto
  with arg_cong [OF ds(4), of length] have "lo \<le> db_num (c_db c)"
    by (cases ds) (auto simp: word_le_nat_alt simp del: upt_Suc)
  moreover have "\<forall>d \<in> set ds. om_find (dgpos d) 0 \<noteq> None"
    using ds(3) by (auto simp: snap_def irreversible_at_def)
  ultimately show thesis
    using reversion_hist [OF ds(1)] ds find_num [OF ds(4)] by (intro that [of ds]) (simp_all add: word_le_nat_alt del: upt_Suc)
qed

lemma push_ok:
  assumes "push_block env blk c = (Inr (), c')" "db_ok (c_db c)" "well L c" "ucast (bh_number blk) = N"
    "confirmed_to N (prods (c_db c))"
  obtains d num where "db_tracking (c_db c) d" "c_db c' = db_commit (uint num) d" "num \<le> N" "confirmed_to N (prods d)"
    "well (max L num) c'" "head_at N (dgpos d)"
proof -
  have t: "db_tracking (c_db c) (c_db (started c))" using db_start_tracking [OF assms(2)] by (simp add: started_def)
  have "apply_block env blk (started c) = (Inr (), c')"
    using assms(1) by (auto simp: push_block_eq split: prod.splits sum.splits)
  from apply_block_run [OF this assms(4) t, of L] assms(3,5) that show thesis by auto
qed

lemma node_push:
  assumes inv: "node_inv c lo hs" and push: "push_block env blk c = (Inr (), c')"
    and next_num: "unat (ucast (bh_number blk) :: u32) = Suc (unat (db_num (c_db c)))"
  shows "node_inv c' (max lo (db_lib (c_db c'))) (c_db c' # hs)"
proof -
  obtain ds where ds: "hist ds" "hd ds = c_db c" "\<forall>d \<in> set ds. snap lo d" "lo \<le> db_num (c_db c)"
    "map (\<lambda>d. unat (db_num d)) ds = rev [unat lo..<Suc (unat (db_num (c_db c)))]"
    "map contents ds = map contents (take (length ds) hs)"
    by (rule node_inv_reversion [OF inv])
  obtain rest where rest: "ds = c_db c # rest" using ds(1,2) by (cases ds) auto
  define N where "N = (ucast (bh_number blk) :: u32)"
  have N: "unat N = Suc (unat (db_num (c_db c)))" using next_num by (simp add: N_def)
  have s: "snap lo (c_db c)" using ds(3) rest by simp
  then have w: "well (db_lib (c_db c)) c" "db_lib (c_db c) \<le> lo"
    using inv by (auto simp: snap_def well_def node_inv_def)
  have "confirmed_to N (prods (c_db c))"
    using s N unfolding snap_def confirmed_to_def word_le_nat_alt by (metis le_SucI)
  then obtain d num where d: "db_tracking (c_db c) d" "c_db c' = db_commit (uint num) d" "num \<le> N" "confirmed_to N (prods d)"
      "well (max (db_lib (c_db c)) num) c'" "head_at N (dgpos d)"
    by (rule push_ok [OF push hist_ok [OF ds(1) [unfolded rest]] w(1) N_def [symmetric]])
  have lib: "db_lib d = max (db_lib (c_db c)) num" "db_num d = N"
    using d(2,5,6) by (auto simp: well_def irreversible_at_lib head_at_num)
  define lo' where "lo' = max lo num"
  have lo': "max lo (db_lib (c_db c')) = lo'" using w(2) by (simp add: d(2) lib lo'_def max.assoc [symmetric])
  define k where "k = Suc (unat N - unat num)"
  let ?ds = "map (db_commit (uint num)) (take k (d # ds))"
  have nums: "map (\<lambda>d. unat (db_num d)) (d # ds) = rev [unat lo..<Suc (unat N)]"
    using ds(4,5) N by (simp add: lib(2) word_le_nat_alt)
  have uN: "uint N - 1 = uint (db_num (c_db c))" unfolding uint_nat using N by simp
  have "revs (uint N) d" using revs_tracking [OF d(1), of "uint N"] s uN by (simp add: snap_def)
  then have sd: "snap lo' d"
    using d(2,4,5) lib w(2) by (auto simp: snap_def well_def lo'_def max_def)
  have snaps: "\<forall>x \<in> set (d # ds). snap lo' x" using sd ds(3) by (auto intro: snap_mono simp: lo'_def)
  have "revs (uint N - int i) ((d # ds) ! i)" if i: "i < length (d # ds)" for i
  proof -
    have "revs (int (unat (db_num ((d # ds) ! i)))) ((d # ds) ! i)"
      using snaps nth_mem [OF i] unfolding snap_def uint_nat by blast
    moreover have "unat (db_num ((d # ds) ! i)) = unat N - i" by (rule nums_nth [OF nums i])
    moreover have "i \<le> unat N" using i arg_cong [OF nums, of length] by (simp del: upt_Suc)
    ultimately show ?thesis unfolding uint_nat by simp
  qed
  then have "hist (map (db_commit (uint num)) (take (nat (uint N - uint num) + 1) (d # ds)))"
    using d(1,3) ds(1) rest by (intro hist_commit) (simp_all add: word_le_def)
  moreover have "nat (uint N - uint num) + 1 = k" unfolding uint_nat k_def by arith
  ultimately have h: "hist ?ds" by (simp only:)
  have "map (\<lambda>d. unat (db_num d)) ?ds = take k (rev [unat lo..<Suc (unat N)])"
    by (simp add: take_map [symmetric] nums [symmetric] o_def del: upt_Suc)
  also have "\<dots> = rev [max (unat lo) (unat num)..<Suc (unat N)]"
    unfolding k_def by (rule prune_nums) (use d(3) in \<open>simp add: word_le_nat_alt\<close>)
  also have "max (unat lo) (unat num) = unat lo'" by (simp add: lo'_def max_def word_le_nat_alt)
  finally have n: "map (\<lambda>d. unat (db_num d)) ?ds = rev [unat lo'..<Suc (unat (db_num (c_db c')))]"
    by (simp add: d(2) lib(2) del: upt_Suc)
  have "map contents ?ds = map contents (take (length ?ds) (c_db c' # hs))"
    using ds(6) by (simp add: k_def d(2) take_map [symmetric] o_def min.commute)
  moreover have "\<forall>x \<in> set ?ds. snap lo' x" using snaps set_take_subset [of k "d # ds"] by auto
  moreover have "hd ?ds = c_db c'" by (simp add: k_def d(2))
  ultimately show ?thesis
    using h n d(5) unfolding node_inv_def lo' well_def by blast
qed

lemma hist_drop: "hist ds \<Longrightarrow> i < length ds \<Longrightarrow> hist (drop i ds)"
proof (induction ds arbitrary: i rule: hist.induct)
  case (3 d b ds)
  then show ?case by (cases i) auto
qed auto

lemma node_revert:
  assumes inv: "node_inv c lo hs" and r: "databaseReversion n (c_db c) = Some (Inr (), d)"
  shows "node_inv (c\<lparr>c_db := d\<rparr>) lo (drop (unat (db_num (c_db c)) - unat n) hs)"
proof -
  obtain ds where ds: "hist ds" "hd ds = c_db c" "\<forall>d \<in> set ds. snap lo d" "lo \<le> db_num (c_db c)"
    "map (\<lambda>d. unat (db_num d)) ds = rev [unat lo..<Suc (unat (db_num (c_db c)))]"
    "map contents ds = map contents (take (length ds) hs)"
    "\<forall>n. databaseReversion n (c_db c) = (if lo \<le> n \<and> n \<le> db_num (c_db c)
       then Some (Inr (), ds ! (unat (db_num (c_db c)) - unat n)) else None)"
    by (rule node_inv_reversion [OF inv])
  define i where "i = unat (db_num (c_db c)) - unat n"
  have n: "unat lo \<le> unat n" "unat n \<le> unat (db_num (c_db c))" and d: "d = ds ! i"
    using r spec [OF ds(7), of n] by (auto simp: i_def word_le_nat_alt split: if_splits)
  have i: "i < length ds" using arg_cong [OF ds(5), of length] n unfolding i_def by (simp del: upt_Suc)
  have "unat (db_num d) = unat n" using nums_nth [OF ds(5) i] n by (simp add: d i_def)
  moreover have "map (\<lambda>d. unat (db_num d)) (drop i ds) = rev [unat lo..<Suc (unat n)]"
    using arg_cong [OF ds(5), of "drop i"] n i by (simp add: drop_map drop_rev i_def del: upt_Suc)
  moreover have "map contents (drop i ds) = map contents (take (length (drop i ds)) (drop i hs))"
    using arg_cong [OF ds(6), of "drop i"] by (simp only: drop_map drop_take length_drop)
  moreover have "hd (drop i ds) = d" using i by (simp add: d hd_drop_conv_nth)
  moreover have "\<forall>x \<in> set (drop i ds). snap lo x" using ds(3) by (auto dest: in_set_dropD)
  moreover have "length (hardfork_versions c) = ETI_HardforkNum + 1" using inv by (simp add: node_inv_def)
  ultimately show ?thesis
    using hist_drop [OF ds(1) i] unfolding node_inv_def i_def [symmetric]
    by (intro conjI exI [of _ "drop i ds"]) (simp_all del: upt_Suc)
qed

lemma node_invariant: "node c lo hs \<Longrightarrow> node_inv c lo hs"
proof (induction rule: node.induct)
  case (start c)
  then show ?case
    by (auto simp: fresh_def node_inv_def snap_def well_def irreversible_at_def intro!: exI [of _ "[c_db c]"])
next
  case (push c lo hs env blk c')
  then show ?case by (intro node_push)
next
  case (reject c lo hs env blk e c')
  obtain ds where ds: "hist ds" "hd ds = c_db c" "\<forall>d \<in> set ds. snap lo d"
    using reject.IH unfolding node_inv_def by blast
  then obtain rest where rest: "ds = c_db c # rest" by (cases ds) auto
  have "well (db_lib (c_db c)) c" using ds(3) rest reject.IH by (auto simp: snap_def well_def node_inv_def)
  note push_block_fails [OF reject.hyps(2,3) hist_ok [OF ds(1) [unfolded rest]] this]
  then show ?case using reject.IH by (simp add: node_inv_def)
next
  case (revert c lo hs n d)
  then show ?case by (intro node_revert)
qed


end
