(* ===== verification/ChainGenesis.thy ===== *)
theory ChainGenesis
  imports ChainReversion
begin

text \<open>
  \<open>initialize_chain\<close> on a new database: the state it creates is well-formed in every sense
  the other theorems ask for.
\<close>

definition level0 :: "('v \<Rightarrow> 'v \<Rightarrow> bool) \<Rightarrow> 'v gindex \<Rightarrow> bool" where
  "level0 clash g \<longleftrightarrow> gx_ok clash (gx_indices g) (gx_next_id g) \<and> gx_stack g = [] \<and> gx_revision g = 0"

lemma emplace_level0:
  assumes "\<And>u v. clash u v = clash v u"
  shows "keeps (level0 clash) (emplace clash c)"
proof (rule keepsI)
  fix g r g' assume g: "level0 clash g" "emplace clash c g = (r, g')"
  show "level0 clash g'"
  proof (cases "g' = g")
    case False
    with g(2) obtain v where v: "g' = on_create (gx_next_id g) (g\<lparr>gx_indices := om_put (gx_next_id g) v (gx_indices g), gx_next_id := gx_next_id g + 1\<rparr>)"
      "Chainbase.fits clash (gx_next_id g) v (gx_indices g)"
      by (auto simp: emplace_def Let_def split: sum.splits if_splits)
    with g(1) assms show ?thesis
      by (force simp: level0_def on_create_def upd_head_def gx_ok_def uniq_put_fresh split: if_splits)
  qed (use g in simp)
qed

definition base_level :: "chaindb \<Rightarrow> bool" where
  "base_level d \<longleftrightarrow> level0 no_clash (db_gpo d) \<and> level0 no_clash (db_dgpo d) \<and> level0 pvo_clash (db_pvo d) \<and>
     level0 no_clash (db_pso d) \<and> level0 prod_clash (db_prod d) \<and> level0 hf_clash (db_hf d)"

lemma base_levelD: "base_level d \<Longrightarrow> db_ok d \<and> bottom d \<and> revs 0 d"
  by (simp add: base_level_def level0_def db_ok_def bottom_def revs_def)

lemma base_level_on:
  "keeps (level0 prod_clash) m \<Longrightarrow> keeps base_level (on_prod m)" "keeps (level0 pvo_clash) m' \<Longrightarrow> keeps base_level (on_pvo m')"
  by (auto simp: keeps_def base_level_def on_defs zoomE_def split: prod.splits)

lemma base_level_create:
  "keeps base_level (on_prod (emplace prod_clash c1))" "keeps base_level (on_pvo (emplace pvo_clash c2))"
  by (intro base_level_on emplace_level0 clash_sym)+

text \<open>The objects the genesis loop starts from and does not touch, and those it creates.\<close>

definition idle :: "chaindb \<Rightarrow> bool" where
  "idle d \<longleftrightarrow> base_level d \<and> (\<exists>g. om_find (gpos d) 0 = Some g \<and> last_hardfork g = 0 \<and> length (active_producers g) = TotalProducersPerRound) \<and>
     (\<exists>g. om_find (dgpos d) 0 = Some g \<and> head_block_number g = 0 \<and> last_irreversible_block_num g = 0 \<and> num_pow_witnesses g = 0) \<and>
     om_find (psos d) 0 = Some pso_default \<and>
     (\<forall>i p. om_find (prods d) i = Some p \<longrightarrow> pow_worker p = 0 \<and> last_confirmed_block_num p = 0) \<and>
     (\<forall>i v. om_find (pvos d) i = Some v \<longrightarrow> race v = race pvo_default)"

lemma idle_genesis_producer: "keeps idle (genesis_producer a)"
proof -
  have "keeps idle (on_prod (emplace prod_clash (Inr (producer_default\<lparr>owner := a\<rparr>))))"
  proof (rule keepsI)
    fix d r d' assume d: "idle d" "on_prod (emplace prod_clash (Inr (producer_default\<lparr>owner := a\<rparr>))) d = (r, d')"
    then have l: "base_level d'" using keepsD [OF base_level_create(1)] by (auto simp: idle_def)
    have n: "om_find (prods d') i = Some p \<Longrightarrow> om_find (prods d) i = Some p \<or> p = producer_default\<lparr>owner := a\<rparr>" for i p
      using d(2) by (auto simp: on_defs zoomE_def emplace_def on_create_def Let_def split: if_splits)
    have "gpos d' = gpos d" "dgpos d' = dgpos d" "psos d' = psos d" "pvos d' = pvos d"
      using d(2) by (auto simp: on_defs zoomE_def split: prod.splits)
    with l d(1) show "idle d'" by (auto simp: idle_def producer_default_def dest!: n)
  qed
  moreover have "keeps idle (on_pvo (emplace pvo_clash (Inr (pvo_default\<lparr>ownerName := a\<rparr>))))"
  proof (rule keepsI)
    fix d r d' assume d: "idle d" "on_pvo (emplace pvo_clash (Inr (pvo_default\<lparr>ownerName := a\<rparr>))) d = (r, d')"
    then have l: "base_level d'" using keepsD [OF base_level_create(2)] by (auto simp: idle_def)
    have n: "om_find (pvos d') i = Some v \<Longrightarrow> om_find (pvos d) i = Some v \<or> v = pvo_default\<lparr>ownerName := a\<rparr>" for i v
      using d(2) by (auto simp: on_defs zoomE_def emplace_def on_create_def Let_def split: if_splits)
    have "gpos d' = gpos d" "dgpos d' = dgpos d" "psos d' = psos d" "prods d' = prods d"
      using d(2) by (auto simp: on_defs zoomE_def split: prod.splits)
    with l d(1) show "idle d'" by (auto simp: idle_def dest!: n)
  qed
  ultimately show ?thesis unfolding genesis_producer_def by (intro keeps_intro)
qed

text \<open>The first emplacement into an empty index cannot fail.\<close>

lemma emplace_init:
  "emplace clash (Inr v) gindex_init = (Inr 0, gindex_init\<lparr>gx_indices := [(0, v)], gx_next_id := 1\<rparr>)"
  by (simp add: emplace_def gindex_init_def on_create_def upd_head_def Chainbase.fits_def)

lemma level0_init: "level0 clash gindex_init" "level0 clash (gindex_init\<lparr>gx_indices := [(0, v)], gx_next_id := 1\<rparr>)"
  by (auto simp: level0_def gindex_init_def gx_ok_def om_wf_def uniq_def om_find_def split: if_splits)

lemma create_genesis_run:
  assumes "create_genesis ps initialize_indexes = (Inr (), d)"
  shows "idle d"
proof -
  let ?one = "\<lambda>v. gindex_init\<lparr>gx_indices := [(0, v)], gx_next_id := 1\<rparr>"
  define g where "g = gpo_default\<lparr>active_producers := ps @ drop (length ps) (active_producers gpo_default),
    last_hardfork := 0, current_hardfork_version := hardfork_version_from (version_of 0 0 0),
    next_hardfork := hardfork_version_from (version_of 0 0 0), next_hardfork_time := ETI_GenesisTime\<rparr>"
  define d0 where "d0 = initialize_indexes\<lparr>db_gpo := ?one g, db_hf := ?one (hf_default\<lparr>hardfork_timepoint := ETI_GenesisTime\<rparr>),
    db_dgpo := ?one (dgpo_default\<lparr>dgp_time := 1513580324, recent_slots_filled := - 1\<rparr>), db_pso := ?one pso_default\<rparr>"
  have len: "length ps \<le> TotalProducersPerRound" using assms by (auto simp: create_genesis_def throw_def split: if_splits)
  have "forE (active_producers g) genesis_producer d0 = (Inr (), d)"
    using assms len
    by (simp add: create_genesis_def on_defs zoomE_def thenE_def bindE_def emplace_init initialize_indexes_def d0_def g_def
        om_find_def)
  moreover have "idle d0"
  proof -
    have "base_level d0" by (simp add: d0_def base_level_def initialize_indexes_def level0_init)
    with len show ?thesis
      by (auto simp: idle_def d0_def initialize_indexes_def g_def gpo_default_def dgpo_default_def gindex_init_def om_find_def)
  qed
  ultimately show ?thesis
    using keepsD [OF keeps_forE [of "active_producers g" idle genesis_producer, OF idle_genesis_producer]] by blast
qed

lemma initialize_chain_run:
  assumes "c_db c0 = initialize_indexes" "initialize_chain env ps c0 = Some (Inr (), c)"
  shows "idle (c_db c) \<and> length (hardfork_versions c) = length (hardfork_versions c0)"
proof -
  have "gx_find 0 (db_gpo (c_db c0)) = None" using assms(1) by (simp add: initialize_indexes_def gindex_init_def gx_find_def)
  with assms(2) obtain d where d: "create_genesis ps (c_db c0) = (Inr (), d)"
    and "(thenE init_hardforks (bindE (on_db get_dynamic_global_properties) (\<lambda>dgp.
            updE (\<lambda>c. c\<lparr>c_last_irreversible_block_num := last_irreversible_block_num dgp,
              c_last_irreversible_block_hash := numberHash env (last_irreversible_block_num dgp)\<rparr>)))) (c0\<lparr>c_db := d\<rparr>) = (Inr (), c)"
    by (auto simp: initialize_chain_def thenE_def bindE_def on_db_def zoomE_def split: prod.splits sum.splits exn.splits)
  moreover have "idle d" using create_genesis_run d assms(1) by simp
  ultimately show ?thesis
    by (auto simp: init_hardforks_def thenE_def bindE_def on_db_def zoomE_def updE_def throwIf_def nthE_def getE_def ret_def throw_def idle_def
        split: prod.splits sum.splits if_splits)
qed

lemma idle_invariants:
  assumes "idle d"
  shows "pow_inv d" "race_inv d" "db_num d = 0" "db_lib d = 0" "known_hardfork (gpos d)" "irreversible_at 0 (dgpos d)"
    "confirmed_to 0 (prods d)"
proof -
  have q: "pow_queue d = {}" using assms by (auto simp: idle_def pow_queue_def)
  show "pow_inv d" using assms q by (auto simp: idle_def pow_inv_def)
  show "race_inv d" using assms by (auto simp: idle_def race_inv_def race_ok_def pvo_default_def pso_default_def)
  show "db_num d = 0" "db_lib d = 0" "known_hardfork (gpos d)" "irreversible_at 0 (dgpos d)" "confirmed_to 0 (prods d)"
    using assms by (auto simp: idle_def db_num_def db_lib_def known_hardfork_def irreversible_at_def confirmed_to_def)
qed

lemma genesis_facts:
  assumes "c_db c0 = initialize_indexes" "length (hardfork_versions c0) = ETI_HardforkNum + 1"
    "initialize_chain env ps c0 = Some (Inr (), c)"
  shows "idle (c_db c)" "fresh c"
proof -
  note run = initialize_chain_run [OF assms(1,3)]
  then show i: "idle (c_db c)" ..
  then have "base_level (c_db c)" by (simp add: idle_def)
  with run idle_invariants [OF i] base_levelD assms(2) show "fresh c" by (auto simp: fresh_def well_def)
qed


end
