(* ===== verification/ChainSlots.thy ===== *)
theory ChainSlots
  imports ChainTrack
begin

text \<open>
  The slot clock and the schedule, the threshold of the last irreversible block, the count
  of hardfork votes and who may produce a block.
\<close>

section \<open>The clock\<close>

text \<open>The time of slot zero, from which the slots are counted.\<close>

definition slot_base :: "dynamic_global_property_object \<Rightarrow> nat" where
  "slot_base g = (if head_block_number g = 0 then unat (dgp_time g) else unat (dgp_time g) div BlockIntervalSeconds * BlockIntervalSeconds)"

lemma unat_u32_add: "unat a + unat b < 2 ^ 32 \<Longrightarrow> unat (a + b) = unat a + unat b" for a b :: u32
  by (simp add: unat_word_ariths)

lemma unat_u32_mult: "unat a * unat b < 2 ^ 32 \<Longrightarrow> unat (a * b) = unat a * unat b" for a b :: u32
  by (simp add: unat_word_ariths)

lemma unat_interval [simp]: "unat block_interval = 3"
  by (simp add: block_interval_def config_defs)

lemma slot_time_run:
  assumes "om_find (dgpos d) 0 = Some g" "slot \<noteq> 0" "slot_base g + unat slot * 3 < 2 ^ 32"
  obtains t where "get_slot_time slot d = (Inr t, d)" "unat t = slot_base g + unat slot * 3"
proof -
  have s: "unat (slot * block_interval) = unat slot * 3" using assms(3) by (subst unat_u32_mult) simp_all
  have b: "unat (dgp_time g div block_interval * block_interval) = unat (dgp_time g) div 3 * 3"
  proof (subst unat_u32_mult)
    show "unat (dgp_time g div block_interval) * unat block_interval < 2 ^ 32"
      using unsigned_less [of "dgp_time g", where 'a = nat] by (simp add: unat_div)
  qed (simp add: unat_div)
  have r: "get_slot_time slot d = (Inr ((if head_block_number g = 0 then dgp_time g
      else dgp_time g div block_interval * block_interval) + slot * block_interval), d)"
    using assms(1,2) by (simp add: get_slot_time_def bindE_def)
  have "unat ((if head_block_number g = 0 then dgp_time g else dgp_time g div block_interval * block_interval)
      + slot * block_interval) = slot_base g + unat slot * 3"
    using assms(3) by (subst unat_u32_add) (auto simp: s b slot_base_def config_defs)
  with r that show thesis by blast
qed

lemma slot_at_run:
  assumes "om_find (dgpos d) 0 = Some g" "slot_base g + 3 < 2 ^ 32"
  obtains s where "get_slot_at_time t d = (Inr s, d)" "unat s = (unat t - slot_base g) div 3"
proof -
  obtain f where f: "get_slot_time 1 d = (Inr f, d)" "unat f = slot_base g + 3"
    using slot_time_run [OF assms(1), of 1] assms(2) by auto
  show thesis
  proof (cases "t < f")
    case True
    then have "(unat t - slot_base g) div 3 = 0" using f(2) by (simp add: word_less_nat_alt)
    moreover have "get_slot_at_time t d = (Inr 0, d)" using f(1) True by (simp add: get_slot_at_time_def bindE_def)
    ultimately show thesis by (intro that [of 0]) simp_all
  next
    case False
    then have le: "unat f \<le> unat t" by (simp add: word_le_nat_alt not_less)
    then have d: "unat ((t - f) div block_interval) = (unat t - unat f) div 3"
      by (simp add: unat_div unat_sub_if')
    have "unat t < 2 ^ 32" using unsigned_less [of t, where 'a = nat] by simp
    then have "unat ((t - f) div block_interval + 1) = (unat t - unat f) div 3 + 1"
      by (subst unat_u32_add) (simp_all add: d)
    also have "\<dots> = (unat t - unat f + 3) div 3" by (rule div_add_self2 [symmetric]) simp
    also have "unat t - unat f + 3 = unat t - slot_base g" using le f(2) by linarith
    finally show thesis
      using f(1) False by (intro that [of "(t - f) div block_interval + 1"]) (simp_all add: get_slot_at_time_def bindE_def)
  qed
qed

text \<open>
  C20. The slot clock: the slot at the time of slot \<open>n\<close> is \<open>n\<close>, and every time from the
  first slot on lies in the interval of three seconds that starts with its slot.
\<close>

theorem slot_clock:
  assumes "om_find (dgpos d) 0 = Some g" "slot \<noteq> 0" "slot_base g + unat slot * 3 < 2 ^ 32" "slot_base g + 3 \<le> unat t"
  shows "fst (bindE (get_slot_time slot) get_slot_at_time d) = Inr slot \<and>
    (\<exists>s u. get_slot_at_time t d = (Inr s, d) \<and> get_slot_time s d = (Inr u, d) \<and> u \<le> t \<and> unat t < unat u + BlockIntervalSeconds)"
proof -
  have "1 \<le> unat slot" using assms(2) by (metis Suc_leI One_nat_def unat_gt_0)
  then have b: "slot_base g + 3 < 2 ^ 32" using assms(3) by linarith
  obtain t' where t': "get_slot_time slot d = (Inr t', d)" "unat t' = slot_base g + unat slot * 3"
    by (rule slot_time_run [OF assms(1-3)])
  obtain s' where s': "get_slot_at_time t' d = (Inr s', d)" "unat s' = (unat t' - slot_base g) div 3"
    by (rule slot_at_run [OF assms(1) b])
  have 1: "s' = slot" using s'(2) t'(2) by (simp add: word_unat_eq_iff)
  obtain s where s: "get_slot_at_time t d = (Inr s, d)" "unat s = (unat t - slot_base g) div 3"
    by (rule slot_at_run [OF assms(1) b])
  have "unat t < 2 ^ 32" using unsigned_less [of t, where 'a = nat] by simp
  moreover have "unat s \<noteq> 0" using s(2) assms(4) by simp
  ultimately have "s \<noteq> 0" "slot_base g + unat s * 3 < 2 ^ 32" using s(2) assms(4) by (auto simp: unsigned_eq_0_iff)
  then obtain u where u: "get_slot_time s d = (Inr u, d)" "unat u = slot_base g + unat s * 3"
    by (rule slot_time_run [OF assms(1)])
  have "u \<le> t" "unat t < unat u + 3" using u(2) s(2) assms(4) by (simp_all add: word_le_nat_alt)
  with 1 t'(1) s'(1) s(1) u(1) show ?thesis by (auto simp: bindE_def config_defs)
qed


section \<open>The schedule\<close>

lemma mset_rotate: "mset (rotate n xs) = mset xs"
proof (induction n)
  case (Suc n)
  have "mset (rotate1 ys) = mset ys" for ys :: "'a list" by (cases ys) simp_all
  with Suc show ?case by simp
qed simp

lemma scheduled_run:
  assumes "om_find (gpos d) 0 = Some gp" "om_find (dgpos d) 0 = Some g"
    "unat (current_absolute_slot g) + unat slot < 2 ^ 64"
  shows "get_scheduled_producer slot d = (Inr (active_producers gp !
    ((unat (current_absolute_slot g) + unat slot) mod length (active_producers gp))), d)"
proof -
  have u: "unat (ucast slot :: u64) = unat slot" by (simp add: unsigned_ucast_eq take_bit_nat_eq_self unsigned_less [THEN less_trans])
  then have "unat (current_absolute_slot g + ucast slot) = unat (current_absolute_slot g) + unat slot"
    using assms(3) by (subst unat_word_ariths(1)) (simp add: u)
  then show ?thesis using assms(1,2) by (simp add: get_scheduled_producer_def bindE_def Let_def)
qed

text \<open>
  C15. In any 21 slots in a row every seat of the round is scheduled exactly once, so no active
  producer waits longer than a round for its slot.
\<close>

theorem schedule_fair:
  assumes "om_find (gpos d) 0 = Some gp" "om_find (dgpos d) 0 = Some g" "length (active_producers gp) = TotalProducersPerRound"
    "unat slot + TotalProducersPerRound < 2 ^ 32" "unat (current_absolute_slot g) + 2 ^ 32 < 2 ^ 64"
  shows "\<exists>names. map (\<lambda>i. fst (get_scheduled_producer (slot + of_nat i) d)) [0..<TotalProducersPerRound] = map Inr names \<and>
    mset names = mset (active_producers gp)"
proof -
  let ?xs = "active_producers gp" and ?k = "unat (current_absolute_slot g) + unat slot"
  have "fst (get_scheduled_producer (slot + of_nat i) d) = Inr (rotate ?k ?xs ! i)" if i: "i < TotalProducersPerRound" for i
  proof -
    have "unat (of_nat i :: u32) = i" using i by (simp add: config_defs unat_of_nat take_bit_nat_eq_self)
    then have s: "unat (slot + of_nat i) = unat slot + i"
      using i assms(4) by (subst unat_u32_add) simp_all
    have "get_scheduled_producer (slot + of_nat i) d = (Inr (?xs ! ((?k + i) mod length ?xs)), d)"
      using scheduled_run [OF assms(1,2), of "slot + of_nat i"] i assms(4,5) by (simp add: s add.assoc)
    then show ?thesis using i assms(3) by (simp add: nth_rotate)
  qed
  then have "map (\<lambda>i. fst (get_scheduled_producer (slot + of_nat i) d)) [0..<TotalProducersPerRound] = map Inr (rotate ?k ?xs)"
    by (intro nth_equalityI) (simp_all add: assms(3))
  moreover have "mset (rotate ?k ?xs) = mset ?xs" by (rule mset_rotate)
  ultimately show ?thesis by blast
qed


section \<open>Irreversible blocks\<close>

lemma sorted_count_ge: "sorted s \<Longrightarrow> k < length s \<Longrightarrow> length s - k \<le> length (filter (\<lambda>x. s ! k \<le> x) s)"
proof -
  assume s: "sorted s" "k < length s"
  have "\<forall>x \<in> set (drop k s). s ! k \<le> x"
  proof
    fix x assume "x \<in> set (drop k s)"
    then obtain j where "j < length s - k" "x = s ! (k + j)" by (auto simp: in_set_conv_nth)
    with s show "s ! k \<le> x" by (simp add: sorted_nth_mono)
  qed
  then have "filter (\<lambda>x. s ! k \<le> x) (drop k s) = drop k s" by (simp add: filter_id_conv)
  moreover have "length (filter (\<lambda>x. s ! k \<le> x) s) =
      length (filter (\<lambda>x. s ! k \<le> x) (take k s)) + length (filter (\<lambda>x. s ! k \<le> x) (drop k s))"
    by (metis append_take_drop_id filter_append length_append)
  ultimately show ?thesis by simp
qed

lemma sorted_count_gt: "sorted s \<Longrightarrow> k < length s \<Longrightarrow> s ! k < m \<Longrightarrow> length (filter (\<lambda>x. m \<le> x) s) \<le> length s - Suc k"
proof -
  assume s: "sorted s" "k < length s" "s ! k < m"
  have "\<forall>x \<in> set (take (Suc k) s). \<not> m \<le> x"
  proof
    fix x assume "x \<in> set (take (Suc k) s)"
    then obtain j where "j < Suc k" "x = s ! j" using s(2) by (auto simp: in_set_conv_nth)
    with s sorted_nth_mono [of s j k] show "\<not> m \<le> x" by auto
  qed
  then have "filter (\<lambda>x. m \<le> x) (take (Suc k) s) = []" by (simp add: filter_empty_conv)
  moreover have "length (filter (\<lambda>x. m \<le> x) s) =
      length (filter (\<lambda>x. m \<le> x) (take (Suc k) s)) + length (filter (\<lambda>x. m \<le> x) (drop (Suc k) s))"
    by (metis append_take_drop_id filter_append length_append)
  moreover have "length (filter (\<lambda>x. m \<le> x) (drop (Suc k) s)) \<le> length s - Suc k"
    by (rule order.trans [OF length_filter_le]) simp
  ultimately show ?thesis by simp
qed

definition confirming :: "u32 \<Rightarrow> producer_object list \<Rightarrow> nat" where
  "confirming n ps = length (filter (\<lambda>p. n \<le> last_confirmed_block_num p) ps)"

lemma confirming_sort: "confirming n ps = length (filter (\<lambda>x. n \<le> x) (sort (map last_confirmed_block_num ps)))"
proof -
  have "length (filter (\<lambda>x. n \<le> x) (sort (map last_confirmed_block_num ps))) =
      size (filter_mset (\<lambda>x. n \<le> x) (mset (sort (map last_confirmed_block_num ps))))"
    by (simp only: size_mset mset_filter [symmetric])
  also have "\<dots> = length (filter (\<lambda>x. n \<le> x) (map last_confirmed_block_num ps))"
    by (simp only: mset_sort size_mset mset_filter [symmetric])
  finally show ?thesis by (simp add: confirming_def filter_map o_def)
qed

lemma irreversible_num_70:
  assumes "ps \<noteq> []"
  shows "IrreversibleThresholdPercent * length ps \<le> Percent100 * confirming (irreversible_num ps) ps"
    "irreversible_num ps < m \<Longrightarrow> Percent100 * confirming m ps < IrreversibleThresholdPercent * length ps"
proof -
  let ?s = "sort (map last_confirmed_block_num ps)" and ?k = "ETH_PERCENT (length ps) (Percent100 - IrreversibleThresholdPercent)"
  have k: "?k < length ?s" using assms by (simp add: offset_less)
  have kk: "10000 * ?k \<le> 3000 * length ps" "3000 * length ps < 10000 * Suc ?k"
    by (simp_all add: ETH_PERCENT_def config_defs)
  have "length ps - ?k \<le> confirming (irreversible_num ps) ps"
    using sorted_count_ge [OF sorted_sort k] by (simp add: confirming_sort irreversible_num_def)
  with kk show "IrreversibleThresholdPercent * length ps \<le> Percent100 * confirming (irreversible_num ps) ps"
    by (simp add: config_defs)
  assume "irreversible_num ps < m"
  then have "confirming m ps \<le> length ps - Suc ?k"
    using sorted_count_gt [OF sorted_sort k, of m] by (simp add: confirming_sort irreversible_num_def)
  with kk k show "Percent100 * confirming m ps < IrreversibleThresholdPercent * length ps" by (simp add: config_defs)
qed

text \<open>
  C14. The last irreversible block: the number is the largest one that at least 70 percent of the
  active producers have confirmed, and the recorded number only moves forward to it.
\<close>

theorem irreversible_block_70:
  assumes "db_ok (c_db c)" "om_find (dgpos (c_db c)) 0 = Some g" "update_last_irreversible_block env c = (Inr (), c')"
  shows "\<exists>gp ps num. om_find (gpos (c_db c)) 0 = Some gp \<and> get_all_producers (active_producers gp) (c_db c) = (Inr ps, c_db c) \<and>
    om_find (dgpos (c_db c')) 0 = Some (g\<lparr>last_irreversible_block_num := max (last_irreversible_block_num g) num\<rparr>) \<and>
    IrreversibleThresholdPercent * length ps \<le> Percent100 * confirming num ps \<and>
    (\<forall>m > num. Percent100 * confirming m ps < IrreversibleThresholdPercent * length ps)"
  using assms(1,2)
proof (cases rule: lib_run [where env = env])
  case (throws e)
  with assms(3) show ?thesis by simp
next
  case (ok ps c2 num)
  have "c2 = c'" using ok(1) assms(3) by simp
  then have "om_find (dgpos (c_db c')) 0 = Some (g\<lparr>last_irreversible_block_num := max (last_irreversible_block_num g) num\<rparr>)"
    using ok(5) assms(2) by (auto simp: max_def not_less)
  moreover obtain gp where "om_find (gpos (c_db c)) 0 = Some gp" "get_all_producers (active_producers gp) (c_db c) = (Inr ps, c_db c)"
    using ok(7) by blast
  ultimately show ?thesis
    using irreversible_num_70 [OF ok(2)] unfolding ok(3) by blast
qed


section \<open>Hardfork votes\<close>

definition hf_vote :: "producer_object \<Rightarrow> ver \<times> time_point_sec" where
  "hf_vote p = (hardfork_ver_vote p, hardfork_time_vote p)"

text \<open>A ballot: keys in falling order, each with the number of times it was counted.\<close>

definition ballot_of :: "'k::linorder list \<Rightarrow> ('k \<times> nat) list \<Rightarrow> bool" where
  "ballot_of ks m \<longleftrightarrow> sorted_wrt (>) (map fst m) \<and> fst ` set m = set ks \<and> (\<forall>k n. (k, n) \<in> set m \<longrightarrow> n = count_list ks k)"

lemma count_vote_keys: "fst ` set (count_vote k m) = insert k (fst ` set m)"
  by (induction k m rule: count_vote.induct) auto

lemma count_vote_sorted: "sorted_wrt (>) (map fst m) \<Longrightarrow> sorted_wrt (>) (map fst (count_vote k m))"
proof (induction k m rule: count_vote.induct)
  case (2 k j n m)
  have "(a, b) \<in> set (count_vote k m) \<Longrightarrow> a = k \<or> a \<in> fst ` set m" for a b
    using count_vote_keys [of k m] by (metis fst_conv image_eqI insertE)
  with 2 show ?case by fastforce
qed simp

lemma count_vote_in:
  "sorted_wrt (>) (map fst m) \<Longrightarrow> (j, n) \<in> set (count_vote k m) \<Longrightarrow>
   if j = k then (\<exists>n'. (k, n') \<in> set m \<and> n = Suc n') \<or> (k \<notin> fst ` set m \<and> n = 1) else (j, n) \<in> set m"
  by (induction k m rule: count_vote.induct) (force split: if_splits)+

lemma ballot_count: "ballot_of ks m \<Longrightarrow> ballot_of (ks @ [k]) (count_vote k m)"
proof -
  assume b: "ballot_of ks m"
  have "n = count_list (ks @ [k]) j" if "(j, n) \<in> set (count_vote k m)" for j n
  proof (cases "j = k")
    case True
    with count_vote_in [OF _ that] b have "(\<exists>n'. (k, n') \<in> set m \<and> n = Suc n') \<or> (k \<notin> set ks \<and> n = 1)"
      by (auto simp: ballot_of_def)
    with b True show ?thesis by (auto simp: ballot_of_def count_notin)
  next
    case False
    with count_vote_in [OF _ that] b show ?thesis by (auto simp: ballot_of_def)
  qed
  with b show ?thesis by (auto simp: ballot_of_def count_vote_sorted count_vote_keys)
qed

lemma ballot_fold: "ballot_of ks m \<Longrightarrow> ballot_of (ks @ map f ps) (foldl (\<lambda>m p. count_vote (f p) m) m ps)"
proof (induction ps arbitrary: ks m)
  case (Cons p ps)
  from Cons.IH [OF ballot_count [OF Cons.prems, of "f p"]] show ?case by simp
qed simp

lemma hardfork_ballot_of: "ballot_of (map hf_vote ps) (hardfork_ballot ps)"
  using ballot_fold [of "[]" "[]" hf_vote ps] by (simp add: ballot_of_def hardfork_ballot_def hf_vote_def)

lemma ballot_find:
  assumes "ballot_of ks m"
  shows "find (\<lambda>(_, n). n \<ge> r) m =
    (if \<exists>k \<in> set ks. count_list ks k \<ge> r then let k = Max {k \<in> set ks. count_list ks k \<ge> r} in Some (k, count_list ks k) else None)"
proof (cases "find (\<lambda>(_, n). n \<ge> r) m")
  case None
  have "\<not> count_list ks k \<ge> r" if "k \<in> set ks" for k
  proof -
    obtain n where "(k, n) \<in> set m" using \<open>k \<in> set ks\<close> assms by (force simp: ballot_of_def)
    with None assms show ?thesis by (auto simp: find_None_iff ballot_of_def)
  qed
  with None show ?thesis by auto
next
  case (Some p)
  then obtain i where i: "i < length m" "r \<le> snd (m ! i)" "p = m ! i" "\<forall>j < i. \<not> r \<le> snd (m ! j)"
    by (auto simp: find_Some_iff case_prod_beta)
  obtain k n where k: "m ! i = (k, n)" by (cases "m ! i")
  with i assms have kn: "k \<in> set ks" "n = count_list ks k" "r \<le> count_list ks k"
    using nth_mem [OF i(1)] by (force simp: ballot_of_def)+
  have "j \<le> k" if j: "j \<in> set ks" "r \<le> count_list ks j" for j
  proof -
    have "j \<in> fst ` set m" using j(1) assms by (simp add: ballot_of_def)
    then obtain l where l: "l < length m" "fst (m ! l) = j" by (auto simp: in_set_conv_nth)
    then have "snd (m ! l) = count_list ks j" using assms nth_mem [OF l(1)] by (cases "m ! l") (auto simp: ballot_of_def)
    with i(4) j(2) have "i \<le> l" by (metis not_le)
    then show ?thesis
      using assms l k i(1) sorted_wrt_nth_less [of "(>)" "map fst m" i l]
      by (cases "i = l") (auto simp: ballot_of_def)
  qed
  with kn have "Max {k \<in> set ks. r \<le> count_list ks k} = k" by (intro Max_eqI) auto
  with kn i k Some show ?thesis by (auto simp: Let_def)
qed

definition good_votes :: "producer_object list \<Rightarrow> (ver \<times> time_point_sec) set" where
  "good_votes ps = {k \<in> set (map hf_vote ps). ETI_HardforkRequiredProducers \<le> count_list (map hf_vote ps) k}"

lemma hardfork_votes_run:
  assumes "db_ok d" "om_find (gpos d) 0 = Some gp" "get_all_producers actives d = (Inr ps, d)"
  obtains d' where "update_hardfork_votes actives d = (Inr (), d')" "dgpos d' = dgpos d"
    "om_find (gpos d') 0 = Some (if good_votes ps = {} then gp\<lparr>next_hardfork := current_hardfork_version gp\<rparr>
       else gp\<lparr>next_hardfork := fst (Max (good_votes ps)), next_hardfork_time := snd (Max (good_votes ps))\<rparr>)"
proof -
  let ?ks = "map hf_vote ps"
  have f: "find (\<lambda>(_, n). n \<ge> ETI_HardforkRequiredProducers) (hardfork_ballot ps) =
      (if good_votes ps = {} then None else Some (Max (good_votes ps), count_list ?ks (Max (good_votes ps))))"
  proof -
    have "(\<exists>k \<in> set ?ks. count_list ?ks k \<ge> ETI_HardforkRequiredProducers) = (good_votes ps \<noteq> {})"
      unfolding good_votes_def by blast
    then show ?thesis
      using ballot_find [OF hardfork_ballot_of [of ps], of ETI_HardforkRequiredProducers]
      by (simp only: good_votes_def [symmetric] Let_def if_not_P split: if_split) simp
  qed
  show thesis
    using assms f by (intro that [of "snd (update_hardfork_votes actives d)"])
      (auto simp: update_hardfork_votes_def thenE_def bindE_def modify_gpo_run case_prod_beta split: prod.split)
qed

text \<open>
  C21. The hardfork the next round prepares is the greatest version and time that enough active
  producers vote for; without one the next hardfork is the current version.
\<close>

theorem hardfork_votes_counted:
  assumes "db_ok d" "om_find (gpos d) 0 = Some gp" "get_all_producers actives d = (Inr ps, d)"
  shows "\<exists>d'. update_hardfork_votes actives d = (Inr (), d') \<and>
    om_find (gpos d') 0 = Some (
      let votes = map (\<lambda>p. (hardfork_ver_vote p, hardfork_time_vote p)) ps;
          good = {k \<in> set votes. ETI_HardforkRequiredProducers \<le> count_list votes k}
      in if good = {} then gp\<lparr>next_hardfork := current_hardfork_version gp\<rparr>
         else gp\<lparr>next_hardfork := fst (Max good), next_hardfork_time := snd (Max good)\<rparr>)"
proof -
  have v: "(\<lambda>p. (hardfork_ver_vote p, hardfork_time_vote p)) = hf_vote" by (simp add: fun_eq_iff hf_vote_def)
  show ?thesis unfolding v Let_def good_votes_def [symmetric] using hardfork_votes_run [OF assms] by metis
qed



section \<open>Producers\<close>

lemma slot_at_same: "dgpos d' = dgpos d \<Longrightarrow> fst (get_slot_at_time t d') = fst (get_slot_at_time t d)"
  by (cases "om_find (dgpos d) 0")
    (simp_all add: get_slot_at_time_def get_slot_time_def bindE_def get_dynamic_global_properties_def on_defs zoomE_def
      gx_get_def gx_find_def theE_def)

lemma scheduled_same: "dgpos d' = dgpos d \<Longrightarrow> gpos d' = gpos d \<Longrightarrow> fst (get_scheduled_producer s d') = fst (get_scheduled_producer s d)"
  by (cases "om_find (dgpos d) 0"; cases "om_find (gpos d) 0")
    (simp_all add: get_scheduled_producer_def bindE_def get_dynamic_global_properties_def get_global_properties_def on_defs zoomE_def
      gx_get_def gx_find_def theE_def Let_def)

lemma validated:
  assumes "validate_block_header verify b d = (Inr x, d')"
  shows "verify b \<and> (\<exists>slot. fst (get_slot_at_time (sec (bh_timestamp b)) d) = Inr slot \<and>
    fst (get_scheduled_producer slot d) = Inr (bh_producer b))"
proof -
  have k: "snd (get_slot_at_time t d) = d" "snd (get_scheduled_producer s d) = d" for t s
    using trk.slots by (simp_all add: get_slot_at_time_def get_slot_time_def get_scheduled_producer_def bindE_def
        get_dynamic_global_properties_def get_global_properties_def on_defs zoomE_def gx_get_def gx_find_def theE_def Let_def
        split: option.split prod.split sum.split)
  show ?thesis
    using assms k unfolding validate_block_header_def
    by (auto dest!: thenE_InrD bindE_InrD simp: throwIf_def split: if_splits) (metis fst_conv snd_conv)+
qed

text \<open>
  C16. Only a block with a valid signature of the producer that is scheduled for the slot of
  its timestamp is ever applied.
\<close>

theorem block_authorised:
  assumes "push_block env b c = (Inr (), c')"
  shows "verifySign env b \<and> (\<exists>slot. fst (get_slot_at_time (sec (bh_timestamp b)) (c_db c)) = Inr slot \<and>
    fst (get_scheduled_producer slot (c_db c)) = Inr (bh_producer b))"
proof -
  let ?d = "c_db (started c)"
  have "apply_block env b (started c) = (Inr (), c')"
    using assms by (auto simp: push_block_eq split: prod.splits sum.splits)
  then obtain x c1 where "on_db (validate_block_header (verifySign env) b) (started c) = (Inr x, c1)"
    unfolding apply_block_def by (blast dest: bindE_InrD)
  then obtain d1 where "validate_block_header (verifySign env) b ?d = (Inr x, d1)" by (auto dest!: on_db_InrD)
  note v = validated [OF this]
  have "dgpos ?d = dgpos (c_db c)" "gpos ?d = gpos (c_db c)" by (simp_all add: started_def)
  with v show ?thesis using slot_at_same [of ?d "c_db c"] scheduled_same [of ?d "c_db c"] by simp
qed

end
