(* ===== verification/ChainPow.thy ===== *)
theory ChainPow
  imports ChainReversion
begin

text \<open>
  The queue of workers over a whole block: \<open>num_pow_witnesses\<close> counts the producers that
  wait, their positions are distinct numbers up to \<open>total_pow\<close>, and no candidate waits.
  Most stages change none of this; entering, leaving and the two calls of the vote stage
  that create and drop candidates keep it.
\<close>

section \<open>What the stages may not change\<close>

definition pow_view :: "chaindb \<Rightarrow> (u64 \<times> u32) option \<times> (int \<Rightarrow> (address \<times> u64) option) \<times> (int \<Rightarrow> address option)" where
  "pow_view d = (map_option (\<lambda>g. (total_pow g, num_pow_witnesses g)) (om_find (dgpos d) 0),
     (\<lambda>i. map_option (\<lambda>p. (owner p, pow_worker p)) (om_find (prods d) i)), (\<lambda>i. map_option ownerName (om_find (pvos d) i)))"

definition viewing :: "chaindb \<Rightarrow> (u64 \<times> u32) option \<times> (int \<Rightarrow> (address \<times> u64) option) \<times> (int \<Rightarrow> address option) \<Rightarrow> chaindb \<Rightarrow> bool" where
  "viewing b V d \<longleftrightarrow> db_tracking b d \<and> pow_view d = V"

lemma modify_indices_ok:
  assumes "gx_ok clash (gx_indices g) n" "keeps_keys clash f"
  shows "gx_indices (snd (modify clash i f g)) = (case om_find (gx_indices g) i of
     None \<Rightarrow> gx_indices g | Some v \<Rightarrow> om_put i (fst (f v)) (gx_indices g))"
proof (cases "om_find (gx_indices g) i")
  case (Some v)
  then have "Chainbase.fits clash i (fst (f v)) (gx_indices g)"
    using assms uniq_fits [of "gx_indices g" clash i v "fst (f v)"] by (simp add: gx_ok_def keeps_keys_def)
  with Some show ?thesis by (simp add: modify_indices)
qed (simp add: modify_indices)

lemma view_modify:
  "pow_view (snd (modify_gpo f1 d)) = pow_view d"
  "pow_view (snd (modify_pso f3 d)) = pow_view d"
  "(\<And>g. total_pow (f2 g) = total_pow g \<and> num_pow_witnesses (f2 g) = num_pow_witnesses g) \<Longrightarrow>
     pow_view (snd (modify_dgpo f2 d)) = pow_view d"
  "db_ok d \<Longrightarrow> (\<And>p. owner (f4 p) = owner p \<and> pow_worker (f4 p) = pow_worker p) \<Longrightarrow> pow_view (snd (modify_prod i f4 d)) = pow_view d"
  "db_ok d \<Longrightarrow> (\<And>v. ownerName (fst (f5 v)) = ownerName v) \<Longrightarrow> pow_view (snd (modify_pvo i f5 d)) = pow_view d"
proof -
  show "pow_view (snd (modify_gpo f1 d)) = pow_view d" "pow_view (snd (modify_pso f3 d)) = pow_view d"
    by (simp_all add: pow_view_def modify_gpo_def modify_pso_def on_defs zoomE_def split: prod.split)
  show "pow_view (snd (modify_dgpo f2 d)) = pow_view d"
    if "\<And>g. total_pow (f2 g) = total_pow g \<and> num_pow_witnesses (f2 g) = num_pow_witnesses g"
    using that modify_indices [of no_clash 0 "\<lambda>v. (f2 v, None)" "db_dgpo d"]
    by (simp add: pow_view_def modify_dgpo_def on_defs zoomE_def case_prod_beta split: option.split)
  show "pow_view (snd (modify_prod i f4 d)) = pow_view d"
    if "db_ok d" "\<And>p. owner (f4 p) = owner p \<and> pow_worker (f4 p) = pow_worker p"
    using that modify_indices_ok [OF db_okD(5) [OF that(1)] prod_clash_keys, of "\<lambda>v. (f4 v, None)" i]
    by (simp add: pow_view_def modify_prod_def on_defs zoomE_def fun_eq_iff case_prod_beta split: option.split)
  show "pow_view (snd (modify_pvo i f5 d)) = pow_view d"
    if "db_ok d" "\<And>v. ownerName (fst (f5 v)) = ownerName v"
    using that modify_indices_ok [OF db_okD(3) [OF that(1)] pvo_clash_keys, of f5 i]
    by (simp add: pow_view_def modify_pvo_def on_defs zoomE_def fun_eq_iff case_prod_beta split: option.split)
qed

lemma viewingI:
  assumes "keeps (db_tracking b) m" "\<And>d. db_ok d \<Longrightarrow> pow_view (snd (m d)) = pow_view d"
  shows "keeps (viewing b V) m"
  using assms db_tracking_ok by (force simp: keeps_def viewing_def)

lemma view_ops:
  "keeps (viewing b V) (modify_gpo f1)" "keeps (viewing b V) (modify_pso f3)"
  "(\<And>g. total_pow (f2 g) = total_pow g \<and> num_pow_witnesses (f2 g) = num_pow_witnesses g) \<Longrightarrow> keeps (viewing b V) (modify_dgpo f2)"
  "(\<And>p. owner (f4 p) = owner p \<and> pow_worker (f4 p) = pow_worker p) \<Longrightarrow> keeps (viewing b V) (modify_prod i f4)"
  "(\<And>v. ownerName (fst (f5 v)) = ownerName v) \<Longrightarrow> keeps (viewing b V) (modify_pvo i f5)"
  by (intro viewingI db_modify_tracking view_modify; simp)+

lemma view_slots: "keeps (viewing b V) (get_slot_at_time t)" "keeps (viewing b V) (get_scheduled_producer n)"
  "keeps (viewing b V) head_block_num"
  unfolding get_slot_at_time_def get_slot_time_def get_scheduled_producer_def head_block_num_def Let_def
  by (intro keeps_intro)+

lemma view_header: "keeps (viewing b V) (validate_block_header f h)" "keeps (viewing b V) (process_block_header h)"
  unfolding validate_block_header_def process_block_header_def by (intro keeps_intro view_slots view_ops; simp)+

lemma view_dynamic: "keeps (viewing b V) (update_global_dynamic_data h)"
  unfolding update_global_dynamic_data_def miss_block_def Let_def by (intro keeps_intro view_slots view_ops; simp)

lemma view_signing: "keeps (viewing b V) (update_signing_producer i h)"
  unfolding update_signing_producer_def by (intro keeps_intro view_slots view_ops; simp)

lemma view_race: "keeps (viewing b V) (update_race a)"
proof -
  have n: "ownerName (fst (pvo_race f v)) = ownerName v" for f v by (simp add: pvo_race_def split: prod.split)
  have "keeps (viewing b V) resetProducerRace"
    unfolding resetProducerRace_def startNewRaceLap_def by (intro keeps_intro view_ops; simp add: n)
  then show ?thesis
    unfolding update_race_def startNewRaceLap_def Let_def by (intro keeps_intro view_ops; simp add: n)
qed

lemma view_votes: "keeps (viewing b V) (change_votes a n)"
  unfolding change_votes_def updateVotes_def
  by (intro keeps_intro view_ops) (simp add: pvo_race_def split: prod.split)


section \<open>The invariant\<close>

text \<open>Nobody waits for a seat as a worker and runs for one as a candidate.\<close>

definition exclusive :: "chaindb \<Rightarrow> bool" where
  "exclusive d \<longleftrightarrow> (\<forall>i p j v. om_find (prods d) i = Some p \<longrightarrow> om_find (pvos d) j = Some v \<longrightarrow>
     pow_worker p \<noteq> 0 \<longrightarrow> ownerName v \<noteq> owner p)"

definition workers :: "chaindb \<Rightarrow> nat \<Rightarrow> chaindb \<Rightarrow> bool" where
  "workers b n d \<longleftrightarrow> db_tracking b d \<and> pow_inv d \<and> exclusive d \<and>
     (\<forall>g. om_find (dgpos d) 0 = Some g \<longrightarrow> unat (total_pow g) \<le> n)"

lemma view_prods: "pow_view d = pow_view d' \<Longrightarrow> om_find (prods d') i = Some p' \<Longrightarrow>
  \<exists>p. om_find (prods d) i = Some p \<and> owner p = owner p' \<and> pow_worker p = pow_worker p'"
  by (auto simp: pow_view_def fun_eq_iff dest!: spec [of _ i])

lemma view_pvos: "pow_view d = pow_view d' \<Longrightarrow> om_find (pvos d') i = Some p' \<Longrightarrow>
  \<exists>p. om_find (pvos d) i = Some p \<and> ownerName p = ownerName p'"
  by (auto simp: pow_view_def fun_eq_iff dest!: spec [of _ i])

lemma view_dgpos: "pow_view d = pow_view d' \<Longrightarrow> om_find (dgpos d') 0 = Some p' \<Longrightarrow>
  \<exists>p. om_find (dgpos d) 0 = Some p \<and> total_pow p = total_pow p' \<and> num_pow_witnesses p = num_pow_witnesses p'"
  by (auto simp: pow_view_def)

lemma view_inv:
  assumes v: "pow_view d' = pow_view d" and i: "pow_inv d" "exclusive d"
  shows "pow_inv d'" "exclusive d'"
proof -
  have q: "pow_queue d' = pow_queue d"
    using view_prods [OF v] view_prods [OF v [symmetric]] unfolding pow_queue_def by fastforce
  obtain g where g: "om_find (dgpos d) 0 = Some g" "unat (num_pow_witnesses g) = card (pow_queue d)"
    "\<forall>i p. om_find (prods d) i = Some p \<longrightarrow> pow_worker p \<le> total_pow g"
    "\<forall>i p j q. om_find (prods d) i = Some p \<longrightarrow> om_find (prods d) j = Some q \<longrightarrow>
        pow_worker p = pow_worker q \<longrightarrow> pow_worker p \<noteq> 0 \<longrightarrow> i = j"
    using i(1) unfolding pow_inv_def by blast
  obtain g' where g': "om_find (dgpos d') 0 = Some g'" "total_pow g' = total_pow g" "num_pow_witnesses g' = num_pow_witnesses g"
    using view_dgpos [OF v g(1)] by blast
  show "pow_inv d'"
    unfolding pow_inv_def using g g' q view_prods [OF v [symmetric]] by (intro exI [of _ g']) (metis (no_types, lifting))
  show "exclusive d'"
    using i(2) view_prods [OF v [symmetric]] view_pvos [OF v [symmetric]] unfolding exclusive_def by metis
qed

lemma workers_view:
  assumes "workers b n d" "viewing b (pow_view d) d'"
  shows "workers b n d'"
proof -
  have v: "pow_view d' = pow_view d" "db_tracking b d'" using assms(2) by (simp_all add: viewing_def)
  have "\<forall>g. om_find (dgpos d') 0 = Some g \<longrightarrow> unat (total_pow g) \<le> n"
    using assms(1) view_dgpos [OF v(1) [symmetric]] unfolding workers_def by metis
  with view_inv [OF v(1)] v(2) assms(1) show ?thesis by (simp add: workers_def)
qed

lemma keeps_workers: "(\<And>V. keeps (viewing b V) m) \<Longrightarrow> keeps (workers b n) m"
proof (rule keepsI)
  fix d r d' assume k: "\<And>V. keeps (viewing b V) m" and d: "workers b n d" "m d = (r, d')"
  have "viewing b (pow_view d) d" using d(1) by (simp add: workers_def viewing_def)
  then have "viewing b (pow_view d) d'" by (rule keepsD [OF k _ d(2)])
  with d(1) show "workers b n d'" by (rule workers_view)
qed


section \<open>Leaving the queue\<close>

lemma leave_total: "keeps (\<lambda>d. \<forall>g. om_find (dgpos d) 0 = Some g \<longrightarrow> unat (total_pow g) \<le> n) (leave_pow i)"
proof -
  have "keeps (\<lambda>d. (\<lambda>m. \<forall>g. om_find m 0 = Some g \<longrightarrow> unat (total_pow g) \<le> n) (dgpos d)) (leave_pow i)"
    unfolding leave_pow_def modify_defs
    by (intro keeps_intro keeps_other keeps_on keeps_modify_single) auto
  then show ?thesis .
qed

lemma leave_workers:
  assumes "workers b n d" "om_find (prods d) i = Some p" "pow_worker p \<noteq> 0"
  obtains d' where "leave_pow i d = (Inr (), d')" "workers b n d'" "same_rest d d'" "prods d' = om_put i (p\<lparr>pow_worker := 0\<rparr>) (prods d)"
proof -
  have t: "db_tracking b d" and ok: "db_ok d" and inv: "pow_inv d" and x: "exclusive d"
    and le: "\<forall>g. om_find (dgpos d) 0 = Some g \<longrightarrow> unat (total_pow g) \<le> n"
    using assms(1) db_tracking_ok by (auto simp: workers_def)
  obtain d' where d': "leave_pow i d = (Inr (), d')" "pow_inv d'" "same_rest d d'" "prods d' = om_put i (p\<lparr>pow_worker := 0\<rparr>) (prods d)"
    using leave_pow_run [OF ok inv assms(2,3)] by blast
  have "db_tracking b d'" by (rule keepsD [OF trk.leave t d'(1)])
  moreover have "\<forall>g. om_find (dgpos d') 0 = Some g \<longrightarrow> unat (total_pow g) \<le> n" by (rule keepsD [OF leave_total le d'(1)])
  moreover have "exclusive d'"
    using x d'(3,4) by (auto simp: exclusive_def same_rest_def split: if_splits)
  ultimately have "workers b n d'" using d'(2) by (simp add: workers_def)
  with d' that show thesis by blast
qed

lemma evict_workers: "keeps (workers b n) (evict_pow g)"
proof (rule keepsI)
  fix d r d' assume d: "workers b n d" "evict_pow g d = (r, d')"
  show "workers b n d'"
  proof (cases "unat (num_pow_witnesses g) > TotalProducersPerRound \<and> by_pow d \<noteq> []")
    case True
    then obtain i p rest where q: "by_pow d = (i, p) # rest" by (cases "by_pow d") auto
    have "(i, p) \<in> set (by_pow d)" using q by simp
    then have "om_find (prods d) i = Some p" "pow_worker p \<noteq> 0"
      using set_by_pow [of d] d(1) db_tracking_ok db_okD(5) by (force simp: om_find_in_set gx_ok_def workers_def)+
    from leave_workers [OF d(1) this] d(2) True q show ?thesis by (auto simp: evict_pow_def)
  next
    case False
    with d show ?thesis by (auto simp: evict_pow_def split: if_splits list.splits)
  qed
qed

lemma pow_loop_workers:
  assumes "workers b n d" "distinct (map fst ps)" "\<forall>(i, p) \<in> set ps. om_find (prods d) i = Some p \<and> pow_worker p \<noteq> 0"
    "pow_loop ps limit round cnt d = (r, d')"
  shows "workers b n d'"
  using assms
proof (induction ps limit round cnt arbitrary: d rule: pow_loop.induct)
  case (2 i p ps limit round cnt)
  have p: "om_find (prods d) i = Some p" "pow_worker p \<noteq> 0" using "2.prems"(3) by auto
  consider (stop) "\<not> cnt < limit" | (skip) "cnt < limit" "owner p \<in> set round" | (go) "cnt < limit" "owner p \<notin> set round" by blast
  then show ?case
  proof cases
    case stop
    with "2.prems" show ?thesis by simp
  next
    case skip
    with "2.prems" show ?thesis using "2.IH"(1) [of d] by simp
  next
    case go
    obtain d1 where d1: "leave_pow i d = (Inr (), d1)" "workers b n d1" "prods d1 = om_put i (p\<lparr>pow_worker := 0\<rparr>) (prods d)"
      by (rule leave_workers [OF "2.prems"(1) p])
    have q: "\<forall>(j, q) \<in> set ps. om_find (prods d1) j = Some q \<and> pow_worker q \<noteq> 0"
      using "2.prems"(2,3) d1(3) by force
    have ds: "distinct (map fst ps)" using "2.prems"(2) by simp
    show ?thesis
      using "2.prems"(4) go d1(1) "2.IH"(2) [OF _ _ _ d1(2) ds q] "2.IH"(3) [OF _ _ _ d1(2) ds q]
      by (auto simp: thenE_def bindE_def split: if_splits)
  qed
qed simp

lemma round_workers: "keeps (workers b n) calculateNextRound"
proof -
  have loop: "keeps (workers b n) (bindE (getE by_pow) (\<lambda>q. bindE (pow_loop q limit round 0) f))"
    if f: "\<And>x. keeps (workers b n) (f x)" for limit round and f :: "_ \<Rightarrow> address list dbE"
  proof (rule keepsI)
    fix d r d' assume d: "workers b n d" "bindE (getE by_pow) (\<lambda>q. bindE (pow_loop q limit round 0) f) d = (r, d')"
    obtain r1 d1 where 1: "pow_loop (by_pow d) limit round 0 d = (r1, d1)" by (rule prod.exhaust)
    have ok: "db_ok d" using d(1) db_tracking_ok by (auto simp: workers_def)
    have "\<forall>(i, p) \<in> set (by_pow d). om_find (prods d) i = Some p \<and> pow_worker p \<noteq> 0"
      using set_by_pow [of d] db_okD(5) [OF ok] by (auto simp: om_find_in_set gx_ok_def)
    from pow_loop_workers [OF d(1) _ this 1] distinct_by_pow [OF ok] have w: "workers b n d1" by simp
    show "workers b n d'"
    proof (cases r1)
      case (Inl e)
      with d(2) 1 w show ?thesis by (simp add: bindE_def)
    next
      case (Inr x)
      with d(2) 1 have "f x d1 = (r, d')" by (simp add: bindE_def)
      with w show ?thesis by (rule keepsD [OF f])
    qed
  qed
  show ?thesis
    unfolding calculateNextRound_def Let_def
    by (intro keeps_intro evict_workers loop keeps_workers view_race)
qed

lemma global_workers: "keeps (workers b n) (update_global_properties h)"
  unfolding update_global_properties_def calculate_next_round_def update_hardfork_votes_def
  by (intro keeps_intro round_workers keeps_workers view_ops)


section \<open>Entering the queue\<close>

lemma queue_bound:
  assumes "om_find (dgpos d) 0 = Some g" "pow_inv d"
  shows "card (pow_queue d) \<le> unat (total_pow g)"
proof -
  have g: "\<forall>i p. om_find (prods d) i = Some p \<longrightarrow> pow_worker p \<le> total_pow g"
    "\<forall>i p j q. om_find (prods d) i = Some p \<longrightarrow> om_find (prods d) j = Some q \<longrightarrow> pow_worker p = pow_worker q \<longrightarrow> pow_worker p \<noteq> 0 \<longrightarrow> i = j"
    using assms unfolding pow_inv_def by auto
  let ?f = "\<lambda>i. unat (pow_worker (the (om_find (prods d) i)))"
  have "inj_on ?f (pow_queue d)"
    using g(2) by (auto simp: inj_on_def pow_queue_def word_unat_eq_iff [symmetric])
  moreover have "?f ` pow_queue d \<subseteq> {1..unat (total_pow g)}"
    using g(1) by (auto simp: pow_queue_def word_le_nat_alt Suc_le_eq unat_gt_0)
  ultimately show ?thesis using card_inj_on_le [of ?f "pow_queue d" "{1..unat (total_pow g)}"] by simp
qed

lemma enter_state:
  assumes "workers b n d" "n + 1 < 2 ^ 32" "db_tracking b d'" "om_find (dgpos d) 0 = Some g"
    "om_find (dgpos d') 0 = Some (g\<lparr>total_pow := total_pow g + 1, num_pow_witnesses := num_pow_witnesses g + 1\<rparr>)"
    "prods d' = om_put i p (prods d)" "pow_worker p = total_pow g + 1" "\<forall>q. om_find (prods d) i = Some q \<longrightarrow> pow_worker q = 0"
    "pvos d' = pvos d" "find_pvo (owner p) d = None"
  shows "workers b (n + 1) d'"
proof -
  have inv: "pow_inv d" "exclusive d" and le: "unat (total_pow g) \<le> n" using assms(1,4) by (auto simp: workers_def)
  have g: "unat (num_pow_witnesses g) = card (pow_queue d)" "\<forall>i p. om_find (prods d) i = Some p \<longrightarrow> pow_worker p \<le> total_pow g"
    "\<forall>i p j q. om_find (prods d) i = Some p \<longrightarrow> om_find (prods d) j = Some q \<longrightarrow> pow_worker p = pow_worker q \<longrightarrow> pow_worker p \<noteq> 0 \<longrightarrow> i = j"
    using inv(1) assms(4) unfolding pow_inv_def by auto
  have t: "unat (total_pow g + 1) = unat (total_pow g) + 1" using le assms(2) by (subst unat_add_lem [THEN iffD1]) simp_all
  have up: "pow_worker q \<noteq> total_pow g + 1" "pow_worker q \<le> total_pow g + 1" if "om_find (prods d) j = Some q" for j q
  proof -
    have "unat (pow_worker q) \<le> unat (total_pow g)" using g(2) that by (simp add: word_le_nat_alt)
    with t show "pow_worker q \<noteq> total_pow g + 1" "pow_worker q \<le> total_pow g + 1" by (auto simp: word_le_nat_alt)
  qed
  have pos: "total_pow g + 1 \<noteq> 0" using t by (metis unat_0 add_is_0 one_neq_zero)
  have "pow_queue d' = insert i (pow_queue d)" "i \<notin> pow_queue d"
    using assms(6-8) pos by (auto simp: pow_queue_def)
  then have "card (pow_queue d') = card (pow_queue d) + 1" by simp
  moreover have "unat (num_pow_witnesses g + 1) = card (pow_queue d) + 1"
    using queue_bound [OF assms(4) inv(1)] le assms(2) g(1) by (subst unat_add_lem [THEN iffD1]) simp_all
  moreover have "pow_worker q \<le> total_pow g + 1" if "om_find (prods d') j = Some q" for j q
    using that assms(6,7) up(2) by (auto split: if_splits)
  moreover have "j = k"
    if "om_find (prods d') j = Some q" "om_find (prods d') k = Some r" "pow_worker q = pow_worker r" "pow_worker q \<noteq> 0" for j q k r
    using that assms(6,7) up(1) [of j q] up(1) [of k r] g(3) by (auto split: if_splits)
  ultimately have "pow_inv d'" unfolding pow_inv_def using assms(5) by (intro exI conjI allI impI) (assumption | simp)+
  moreover have "exclusive d'"
    using inv(2) assms(6,9,10) by (fastforce simp: exclusive_def find_pvo_None image_iff dest: om_find_SomeD split: if_splits)
  ultimately show ?thesis using assms(3,5) t le by (simp add: workers_def)
qed

lemma emplace_prod_run:
  assumes "db_ok d" "find_prod (owner p) d = None"
  obtains i d' where "on_prod (emplace prod_clash (Inr p)) d = (Inr i, d')" "om_find (prods d) i = None"
    "prods d' = om_put i p (prods d)" "pvos d' = pvos d" "dgpos d' = dgpos d"
proof -
  let ?i = "gx_next_id (db_prod d)"
  have "om_find (prods d) ?i = None" using db_okD(5) [OF assms(1)] by (auto simp: gx_ok_def)
  moreover have "Chainbase.fits prod_clash ?i p (prods d)"
    using assms(2) by (force simp: Chainbase.fits_def list_all_iff prod_clash_def find_prod_None image_iff)
  ultimately show thesis
    by (intro that [of ?i "snd (on_prod (emplace prod_clash (Inr p)) d)"])
      (simp_all add: on_defs zoomE_def emplace_def on_create_def Let_def)
qed

lemma enter_workers:
  assumes "workers b n d" "n + 1 < 2 ^ 32" "find_pvo a d = None" "enter_pow a d = (r, d')"
  shows "workers b (n + 1) d'"
proof -
  have t: "db_tracking b d" and ok: "db_ok d" using assms(1) db_tracking_ok by (auto simp: workers_def)
  obtain g where g: "om_find (dgpos d) 0 = Some g" using assms(1) by (auto simp: workers_def pow_inv_def)
  have "keeps (db_tracking b) (enter_pow a)"
    unfolding enter_pow_def by (intro keeps_intro; simp)
  then have t': "db_tracking b d'" using keepsD [of "db_tracking b" "enter_pow a"] t assms(4) by blast
  let ?f = "\<lambda>p. p\<lparr>total_pow := total_pow p + 1, num_pow_witnesses := num_pow_witnesses p + 1\<rparr>"
  let ?d = "d\<lparr>db_dgpo := gx_put 0 g (?f g) (db_dgpo d)\<rparr>"
  have m: "modify_dgpo ?f d = (Inr (), ?d)" by (rule modify_dgpo_run [OF ok g])
  have ok1: "db_ok ?d" by (rule db_ok_put(2) [OF ok g])
  have same: "find_prod a ?d = find_prod a d" by (simp add: find_prod_def)
  show ?thesis
  proof (cases "find_prod a d")
    case None
    let ?p = "producer_default\<lparr>owner := a, pow_worker := total_pow (?f g)\<rparr>"
    obtain i d2 where d2: "on_prod (emplace prod_clash (Inr ?p)) ?d = (Inr i, d2)" "om_find (prods ?d) i = None"
      "prods d2 = om_put i ?p (prods ?d)" "pvos d2 = pvos ?d" "dgpos d2 = dgpos ?d"
      by (rule emplace_prod_run [OF ok1, of ?p]) (use None same in simp)
    have "enter_pow a d = (Inr (), d2)"
      using None m d2(1) by (simp add: enter_pow_def thenE_def bindE_def)
    with assms(4) have "d' = d2" by simp
    with d2 show ?thesis
      by (intro enter_state [OF assms(1,2) t' g, of i ?p]) (use assms(3) in simp_all)
  next
    case (Some ip)
    obtain i p where ip: "ip = (i, p)" by (rule prod.exhaust)
    have p: "om_find (prods d) i = Some p" "owner p = a" using Some ip find_prod_iff [OF ok] by auto
    show ?thesis
    proof (cases "pow_worker p = 0")
      case True
      let ?p = "p\<lparr>pow_worker := total_pow (?f g)\<rparr>"
      have "modify_prod i (\<lambda>po. po\<lparr>pow_worker := total_pow (?f g)\<rparr>) ?d = (Inr (), ?d\<lparr>db_prod := gx_put i p ?p (db_prod ?d)\<rparr>)"
        by (rule modify_prod_run [OF ok1]) (use p in simp_all)
      then have "enter_pow a d = (Inr (), ?d\<lparr>db_prod := gx_put i p ?p (db_prod ?d)\<rparr>)"
        using Some ip m True by (simp add: enter_pow_def thenE_def bindE_def)
      with assms(4) have "d' = ?d\<lparr>db_prod := gx_put i p ?p (db_prod ?d)\<rparr>" by simp
      with p True show ?thesis
        by (intro enter_state [OF assms(1,2) t' g, of i ?p]) (use assms(3) in simp_all)
    next
      case False
      then have "d' = d" using assms(4) Some ip by (simp add: enter_pow_def)
      with assms(1) show ?thesis by (auto simp: workers_def)
    qed
  qed
qed

lemma answer_workers:
  assumes "workers b n d" "n + 1 < 2 ^ 32" "pow_answer h t x d = (r, d')"
  shows "workers b (n + 1) d'"
proof (cases "d' = d")
  case False
  with assms(3) have "find_pvo (fst x) d = None" "enter_pow (fst x) d = (r, d')"
    by (cases x; cases "find_pvo (fst x) d"; auto simp: pow_answer_def split: if_splits)+
  with enter_workers [OF assms(1,2)] show ?thesis by blast
qed (use assms(1) in \<open>auto simp: workers_def\<close>)

lemma answers_workers:
  assumes "workers b n d" "n + length xs < 2 ^ 32" "forE xs (pow_answer h t) d = (Inr (), d')"
  shows "workers b (n + length xs) d'"
  using assms
proof (induction xs arbitrary: n d)
  case (Cons x xs)
  obtain d1 where d1: "pow_answer h t x d = (Inr (), d1)" "forE xs (pow_answer h t) d1 = (Inr (), d')"
    using Cons.prems(3) by (auto dest!: thenE_InrD)
  have "workers b (n + 1) d1" using answer_workers [OF Cons.prems(1) _ d1(1)] Cons.prems(2) by simp
  with Cons.IH [of "n + 1" d1] d1(2) Cons.prems(2) show ?case by simp
qed simp


section \<open>Candidates\<close>

lemma pow_inv_cong: "prods d' = prods d \<Longrightarrow> dgpos d' = dgpos d \<Longrightarrow> pow_inv d' = pow_inv d"
  by (simp add: pow_inv_def pow_queue_def)

lemma emplace_pvo_run:
  assumes "on_pvo (emplace pvo_clash c) d = (r, d')"
  obtains (throws) e where "r = Inl e" "d' = d"
  | (ok) i v where "r = Inr i" "c = Inr v" "pvos d' = om_put i v (pvos d)" "prods d' = prods d" "dgpos d' = dgpos d" "find_prod a d' = find_prod a d"
  using assms by (auto simp: on_defs zoomE_def emplace_def on_create_def Let_def find_prod_def split: sum.splits if_splits)

text \<open>A worker that becomes a candidate leaves the queue.\<close>

definition no_worker :: "address \<Rightarrow> unit dbE" where
  "no_worker a = bindE (getE (find_prod a)) (\<lambda>lp_po. case lp_po of
       None \<Rightarrow> thenE (on_prod (emplace prod_clash (Inr (producer_default\<lparr>owner := a\<rparr>)))) (ret ())
     | Some (i, po) \<Rightarrow> if pow_worker po \<noteq> 0 then leave_pow i else ret ())"

lemma no_worker_workers:
  assumes "db_ok d" "pow_inv d" "no_worker a d = (r, d')" "db_tracking b d'"
    "\<forall>g. om_find (dgpos d) 0 = Some g \<longrightarrow> unat (total_pow g) \<le> n"
    "\<And>i p j v. om_find (prods d) i = Some p \<Longrightarrow> om_find (pvos d) j = Some v \<Longrightarrow> pow_worker p \<noteq> 0 \<Longrightarrow> ownerName v = owner p \<Longrightarrow> owner p = a"
  shows "workers b n d'"
proof (cases "find_prod a d")
  case None
  let ?p = "producer_default\<lparr>owner := a\<rparr>"
  obtain i d2 where d2: "on_prod (emplace prod_clash (Inr ?p)) d = (Inr i, d2)" "om_find (prods d) i = None"
      "prods d2 = om_put i ?p (prods d)" "pvos d2 = pvos d" "dgpos d2 = dgpos d"
    by (rule emplace_prod_run [OF assms(1), of ?p]) (use None in simp)
  have "d' = d2" using None d2(1) assms(3) by (simp add: no_worker_def thenE_def bindE_def)
  have 0: "pow_worker ?p = 0" by (simp add: producer_default_def)
  have "owner p \<noteq> a" if "om_find (prods d) j = Some p" for j p
    using None that by (auto simp: find_prod_None image_iff dest!: om_find_SomeD)
  then have "exclusive d2"
    using assms(6) d2(2-4) 0 unfolding exclusive_def by (auto split: if_splits)
  moreover have q: "pow_queue d2 = pow_queue d" using d2(2,3) 0 by (auto simp: pow_queue_def split: if_splits)
  have "pow_inv d2"
  proof -
    obtain g where g: "om_find (dgpos d) 0 = Some g" "unat (num_pow_witnesses g) = card (pow_queue d)"
      "\<forall>i p. om_find (prods d) i = Some p \<longrightarrow> pow_worker p \<le> total_pow g"
      "\<forall>i p j q. om_find (prods d) i = Some p \<longrightarrow> om_find (prods d) j = Some q \<longrightarrow> pow_worker p = pow_worker q \<longrightarrow> pow_worker p \<noteq> 0 \<longrightarrow> i = j"
      using assms(2) unfolding pow_inv_def by blast
    have "pow_worker q \<le> total_pow g" if "om_find (prods d2) j = Some q" for j q
      using that d2(3) g(3) 0 by (auto split: if_splits)
    moreover have "j = k" if "om_find (prods d2) j = Some q" "om_find (prods d2) k = Some r" "pow_worker q = pow_worker r" "pow_worker q \<noteq> 0" for j q k r
      using that d2(3) g(4) 0 by (auto split: if_splits)
    ultimately show ?thesis
      unfolding pow_inv_def q using g(1,2) d2(5) by (intro exI conjI allI impI) (assumption | simp)+
  qed
  ultimately show ?thesis using assms(4,5) d2(5) \<open>d' = d2\<close> by (simp add: workers_def)
next
  case (Some ip)
  obtain i p where ip: "ip = (i, p)" by (rule prod.exhaust)
  have p: "om_find (prods d) i = Some p" "owner p = a" using Some ip find_prod_iff [OF assms(1)] by auto
  have u: "j = i" if "om_find (prods d) j = Some q" "owner q = a" for j q
    using that find_prod_iff [OF assms(1), of a] Some ip by (metis option.inject prod.inject)
  show ?thesis
  proof (cases "pow_worker p = 0")
    case True
    then have "d' = d" using assms(3) Some ip by (simp add: no_worker_def)
    moreover have "exclusive d" unfolding exclusive_def using assms(6) u p True by (metis option.inject)
    ultimately show ?thesis using assms(2,4,5) by (simp add: workers_def)
  next
    case False
    obtain d2 where d2: "leave_pow i d = (Inr (), d2)" "pow_inv d2" "same_rest d d2" "prods d2 = om_put i (p\<lparr>pow_worker := 0\<rparr>) (prods d)"
      using leave_pow_run [OF assms(1,2) p(1) False] by blast
    have "d' = d2" using assms(3) Some ip False d2(1) by (simp add: no_worker_def)
    moreover have "exclusive d2"
      unfolding exclusive_def using assms(6) u d2(3,4) by (auto simp: same_rest_def split: if_splits)
    moreover have "\<forall>g. om_find (dgpos d2) 0 = Some g \<longrightarrow> unat (total_pow g) \<le> n"
      by (rule keepsD [OF leave_total assms(5) d2(1)])
    ultimately show ?thesis using assms(4) d2(2) by (simp add: workers_def)
  qed
qed

lemma new_candidate_workers: "keeps (workers b n) (new_candidate a)"
proof (rule keepsI)
  fix d r d' assume d: "workers b n d" "new_candidate a d = (r, d')"
  have t: "db_tracking b d" and ok: "db_ok d" and inv: "pow_inv d" "exclusive d" using d(1) db_tracking_ok by (auto simp: workers_def)
  have t': "db_tracking b d'" by (rule keepsD [OF trk.votes(2) t d(2)])
  show "workers b n d'"
  proof (cases "om_find (psos d) 0")
    case None
    then have "d' = d" using d(2)
      by (simp add: new_candidate_def get_schedule_def on_defs zoomE_def gx_get_def gx_find_def theE_def bindE_def)
    with d(1) show ?thesis by simp
  next
    case (Some sched)
    define c where "c = (case startNewRaceLap (currentRaceTime sched) (pvo_default\<lparr>ownerName := a\<rparr>) of
      (pvo, None) \<Rightarrow> Inr pvo | (_, Some e) \<Rightarrow> Inl e)"
    have nc: "new_candidate a d = thenE (on_pvo (emplace pvo_clash c)) (no_worker a) d"
      unfolding new_candidate_def no_worker_def c_def by (simp only: bindE_Inr [of get_schedule d sched d, OF get_run(3) [OF Some]])
    obtain r1 d1 where 1: "on_pvo (emplace pvo_clash c) d = (r1, d1)" by (rule prod.exhaust)
    from 1 show ?thesis
    proof (cases rule: emplace_pvo_run [where a = a])
      case (throws e)
      with 1 d(2) have "d' = d" by (simp add: nc bindE_def thenE_def)
      with d(1) show ?thesis by simp
    next
      case (ok i v)
      have v: "ownerName v = a"
        using ok(2) by (auto simp: c_def startNewRaceLap_def pvo_race_def split: prod.splits option.splits)
      have t1: "db_tracking b d1" by (rule keepsD [OF db_create_tracking(1) t 1])
      then have ok1: "db_ok d1" using db_tracking_ok by blast
      have "no_worker a d1 = (r, d')"
        using 1 ok(1) d(2) by (simp add: nc bindE_def thenE_def)
      moreover have "pow_inv d1" using pow_inv_cong [OF ok(4,5)] inv(1) by simp
      moreover have "\<forall>g. om_find (dgpos d1) 0 = Some g \<longrightarrow> unat (total_pow g) \<le> n" using ok(5) d(1) by (simp add: workers_def)
      ultimately show ?thesis
        using inv(2) ok(3,4) v by (intro no_worker_workers [OF ok1 _ _ t']) (auto simp: exclusive_def split: if_splits)
    qed
  qed
qed

lemma drop_workers: "keeps (workers b n) (bindE (get_pvo a) (\<lambda>(i, _). on_pvo (remove i)))"
proof -
  have "keeps (workers b n) (on_pvo (remove i))" for i
  proof (rule keepsI)
    fix d r d' assume d: "workers b n d" "on_pvo (remove i) d = (r, d')"
    have "db_tracking b d'" by (rule keepsD [OF db_create_tracking(4) _ d(2)]) (use d(1) in \<open>simp add: workers_def\<close>)
    moreover have s: "prods d' = prods d" "dgpos d' = dgpos d" "\<And>j v. om_find (pvos d') j = Some v \<Longrightarrow> om_find (pvos d) j = Some v"
      using d(2) by (auto simp: on_defs zoomE_def remove_def on_remove_def Let_def split: option.splits if_splits)
    ultimately show "workers b n d'"
      using d(1) pow_inv_cong [OF s(1,2)] by (simp add: workers_def exclusive_def) blast
  qed
  then show ?thesis by (intro keeps_intro)
qed


section \<open>A block\<close>

lemma keeps_on_db: "keeps I m \<Longrightarrow> keeps (\<lambda>c. I (c_db c)) (on_db m)"
  by (auto simp: keeps_def on_db_def zoomE_def split: prod.split)

lemma votes_workers: "keeps (\<lambda>c. workers b n (c_db c)) (update_pvomi_perblock env h)"
  unfolding update_pvomi_perblock_def check_candidate_def drop_candidate_def get_votes_def
  by (intro keeps_intro keeps_on_db keeps_updE keeps_read_from drop_workers new_candidate_workers keeps_workers view_votes; simp)

text \<open>The answers a block brings depend only on the state its parent left.\<close>

definition on_temp :: "unit ccE \<Rightarrow> bool" where
  "on_temp m \<longleftrightarrow> (\<exists>F. \<forall>c. m c = (fst (F (temp_pow_ops c)), c\<lparr>temp_pow_ops := snd (F (temp_pow_ops c))\<rparr>))"

lemma on_temp_then: "on_temp m \<Longrightarrow> on_temp n \<Longrightarrow> on_temp (thenE m n)"
proof -
  assume "on_temp m" "on_temp n"
  then obtain F G where F: "\<And>c. m c = (fst (F (temp_pow_ops c)), c\<lparr>temp_pow_ops := snd (F (temp_pow_ops c))\<rparr>)"
    and G: "\<And>c. n c = (fst (G (temp_pow_ops c)), c\<lparr>temp_pow_ops := snd (G (temp_pow_ops c))\<rparr>)"
    unfolding on_temp_def by blast
  show ?thesis unfolding on_temp_def
    by (intro exI [of _ "\<lambda>t. case F t of (Inl e, u) \<Rightarrow> (Inl e, u) | (Inr _, u) \<Rightarrow> G u"])
      (auto simp: thenE_def bindE_def F G split: prod.split sum.split)
qed

lemma on_temp_basic: "on_temp (ret ())" "on_temp (throw e)" "on_temp (updE (temp_pow_ops_update f))"
  unfolding on_temp_def
  by (intro exI [of _ "\<lambda>t. (Inr (), t)"] exI [of _ "\<lambda>t. (Inl e, t)"] exI [of _ "\<lambda>t. (Inr (), f t)"]; simp add: ret_def throw_def updE_def)+

lemma on_temp_for: "(\<And>x. on_temp (f x)) \<Longrightarrow> on_temp (forE xs f)"
  by (induction xs) (simp_all add: on_temp_then on_temp_basic)

lemma on_temp_read: "(\<And>x. on_temp (f x)) \<Longrightarrow> on_temp (bindE (read_from m t) f)"
  by (simp add: read_from_def on_temp_basic split: sum.split)

lemma pow_perblock_temp: "on_temp (update_pow_perblock env h)"
  unfolding update_pow_perblock_def
  by (simp split: option.split) (intro conjI impI allI on_temp_basic on_temp_then on_temp_read on_temp_for)

lemma pow_perblock_run:
  assumes "temp_pow_ops c1 = temp_pow_ops c" "update_pow_perblock env h c1 = (r, c2)"
  shows "c_db c2 = c_db c1" "temp_pow_ops c2 = temp_pow_ops (snd (update_pow_perblock env h c))"
  using pow_perblock_temp [of env h] assms unfolding on_temp_def by (auto simp: fun_eq_iff)

lemma update_pow_workers:
  assumes "update_pow env c = (Inr (), c')" "workers b n (c_db c)" "n + length (pow_order env (temp_pow_ops c)) < 2 ^ 32"
  shows "workers b (n + length (pow_order env (temp_pow_ops c))) (c_db c')"
proof -
  have k: "keeps (\<lambda>x. x = c) (on_db get_pow_target)" "keeps (\<lambda>x. x = c) (on_db get_dynamic_global_properties)"
    using keeps_reads(2) [of "\<lambda>d. d = c_db c"]
    by (auto simp: keeps_def on_db_def zoomE_def get_pow_target_def bindE_def split: prod.split sum.split)
  obtain t c1 where 1: "on_db get_pow_target c = (Inr t, c1)"
      "thenE (on_db get_dynamic_global_properties) (bindE (getE temp_pow_ops) (\<lambda>ops. on_db (forE (pow_order env ops) (pow_answer (info_parentHash env) t)))) c1 = (Inr (), c')"
    using assms(1) unfolding update_pow_def by (auto dest!: bindE_InrD)
  then have "c1 = c" using keepsD [OF k(1) _ 1(1)] by simp
  with 1(2) obtain g c2 where 2: "on_db get_dynamic_global_properties c = (Inr g, c2)"
      "on_db (forE (pow_order env (temp_pow_ops c2)) (pow_answer (info_parentHash env) t)) c2 = (Inr (), c')"
    by (auto dest!: thenE_InrD)
  then have "c2 = c" using keepsD [OF k(2) _ 2(1)] by simp
  with 2(2) obtain d' where "forE (pow_order env (temp_pow_ops c)) (pow_answer (info_parentHash env) t) (c_db c) = (Inr (), d')" "c_db c' = d'"
    by (auto dest!: on_db_InrD)
  with answers_workers [OF assms(2,3)] show ?thesis by simp
qed

lemma early_workers:
  assumes "early_stages env h c = (Inr (), c')" "workers b n (c_db c)" "temp_pow_ops c = temp_pow_ops c0"
    "n + length (pow_order env (temp_pow_ops (snd (update_pow_perblock env h c0)))) < 2 ^ 32"
  shows "\<exists>m. workers b m (c_db c')"
proof -
  let ?W = "\<lambda>n c. workers b n (c_db c)" and ?k = "length (pow_order env (temp_pow_ops (snd (update_pow_perblock env h c0))))"
  obtain i p c1 c2 c3 c4 c5 c6 c7 where s: "on_db (validate_block_header (verifySign env) h) c = (Inr (i, p), c1)"
    "on_db (process_block_header h) c1 = (Inr (), c2)" "update_pow_perblock env h c2 = (Inr (), c3)" "update_pow env c3 = (Inr (), c4)"
    "update_pvomi_perblock env h c4 = (Inr (), c5)" "on_db (update_global_dynamic_data h) c5 = (Inr (), c6)"
    "on_db (update_global_properties h) c6 = (Inr (), c7)" "on_db (update_signing_producer i h) c7 = (Inr (), c')"
    using assms(1) unfolding early_stages_def by (auto dest!: bindE_InrD thenE_InrD)
  have "?W n c1" by (rule keepsD [OF keeps_on_db [OF keeps_workers [OF view_header(1)]] assms(2) s(1)])
  then have 2: "?W n c2" by (rule keepsD [OF keeps_on_db [OF keeps_workers [OF view_header(2)]] _ s(2)])
  have "temp_pow_ops c2 = temp_pow_ops c0"
    using s(1,2) assms(3) by (auto simp: on_db_def zoomE_def split: prod.splits)
  note p = pow_perblock_run [OF this s(3)]
  have "?W n c3" using 2 p(1) by simp
  from update_pow_workers [OF s(4) this] p(2) assms(4) have "?W (n + ?k) c4" by simp
  then have "?W (n + ?k) c5" by (rule keepsD [OF votes_workers _ s(5)])
  then have "?W (n + ?k) c6" by (rule keepsD [OF keeps_on_db [OF keeps_workers [OF view_dynamic]] _ s(6)])
  then have "?W (n + ?k) c7" by (rule keepsD [OF keeps_on_db [OF global_workers] _ s(7)])
  then have "?W (n + ?k) c'" by (rule keepsD [OF keeps_on_db [OF keeps_workers [OF view_signing]] _ s(8)])
  then show ?thesis by blast
qed

text \<open>
  C12 (the queue of workers). A block that is applied keeps the queue of POW workers
  consistent: \<open>num_pow_witnesses\<close> counts the producers that wait, no two share a
  position, and nobody waits as a worker while being a candidate. This holds as long as
  fewer than \<open>2^32\<close> answers have been counted.
\<close>

theorem workers_consistent:
  assumes "push_block env b c = (Inr (), c')" "db_ok (c_db c)" "well L c" "pow_inv (c_db c)" "exclusive (c_db c)"
    "om_find (dgpos (c_db c)) 0 = Some g"
    "unat (total_pow g) + length (pow_order env (temp_pow_ops (snd (update_pow_perblock env b c)))) < 2 ^ 32"
  shows "pow_inv (c_db c') \<and> exclusive (c_db c')"
proof -
  let ?b = "c_db c"
  have a: "apply_block env b (started c) = (Inr (), c')" using assms(1) by (auto simp: push_block_eq split: prod.splits sum.splits)
  obtain c1 c2 where s: "early_stages env b (started c) = (Inr (), c1)" "update_last_irreversible_block env c1 = (Inr (), c2)"
    "process_hardforks c2 = (Inr (), c')"
    using a unfolding apply_block_eq by (auto dest!: thenE_InrD)
  have t: "db_tracking ?b (c_db (started c))" using db_start_tracking [OF assms(2)] by (simp add: started_def)
  have v: "pow_view (c_db (started c)) = pow_view ?b"
    by (simp add: pow_view_def started_def db_start_eq start_undo_session_def Let_def)
  have d: "dgpos (c_db (started c)) = dgpos ?b" by (simp add: started_def)
  have "workers ?b (unat (total_pow g)) (c_db (started c))"
    using view_inv [OF v assms(4,5)] t assms(6) d by (simp add: workers_def)
  then obtain m where w: "workers ?b m (c_db c1)"
    using early_workers [OF s(1) _ _ assms(7)] by (auto simp: started_def)
  have wl: "well L c1" using early_run(2) [OF s(1) refl t] assms(3) by simp
  have ok1: "db_ok (c_db c1)" using w db_tracking_ok by (auto simp: workers_def)
  obtain g1 where g1: "om_find (dgpos (c_db c1)) 0 = Some g1" using w by (auto simp: workers_def pow_inv_def)
  from ok1 g1 have "pow_view (c_db c2) = pow_view (c_db c1) \<and> gpos (c_db c2) = gpos (c_db c1) \<and> hardfork_versions c2 = hardfork_versions c1"
  proof (cases rule: lib_run [where env = env])
    case (throws e)
    with s(2) show ?thesis by simp
  next
    case (ok ps c3 num)
    have "c3 = c2" using ok(1) s(2) by simp
    with ok(5,6) g1 show ?thesis by (simp add: pow_view_def)
  qed
  note v2 = conjunct1 [OF this] conjunct1 [OF conjunct2 [OF this]] conjunct2 [OF conjunct2 [OF this]]
  note i2 = view_inv [OF v2(1)] w [unfolded workers_def]
  have "om_find (dgpos (c_db c2)) 0 \<noteq> None" using i2 by (auto simp: pow_inv_def)
  with hardforks_run [of c2] v2 wl s(3) have "c' = c2" by (simp add: well_def)
  with i2 show ?thesis by simp
qed

end
