(* ===== verification/ChainWitness.thy ===== *)
theory ChainWitness
  imports ChainGenesis ChainSlots ChainPow
begin

text \<open>
  A small chain: a node that starts from the genesis block with two producers and pushes
  blocks while no account votes and no worker answers. It shows that the hypotheses of the
  theorems on the controller are met by the code.
\<close>

section \<open>The chain\<close>

definition no_accounts :: State where
  "no_accounts = \<lparr>m_state = [], m_cache = [], m_unchangedCacheEntries = [], m_nonExistingAccountsCache = [], m_touched = [],
     m_accountStartNonce = 0, m_changeLog = []\<rparr>"

definition wit_env :: chain_env where
  "wit_env = \<lparr>keccak = \<lambda>_. 0, e_pick = \<lambda>_. 0, stateAt = Some (\<lambda>_. no_accounts), currentHash = 0, info_parentHash = 0,
     numberHash = \<lambda>_. 0, verifySign = \<lambda>_. True, pow_order = \<lambda>ops. ops\<rparr>"

definition wit_boot :: chain_controller where
  "wit_boot = \<lparr>c_db = initialize_indexes, all_votes = [], temp_pow_ops = [], hardfork_times = [0], hardfork_versions = [0],
     c_last_irreversible_block_num = 0, c_last_irreversible_block_hash = 0\<rparr>"

definition wit_genesis :: chain_controller where
  "wit_genesis = snd (the (initialize_chain wit_env [7, 5] wit_boot))"

definition wit_block :: "u256 \<Rightarrow> address \<Rightarrow> ver \<Rightarrow> BlockHeader" where
  "wit_block n p v = \<lparr>bh_number = n, bh_timestamp = 1513580324 + 3 * n, bh_parentHash = 9, bh_hash = 10 + n,
     bh_producer = p, bh_runningVersion = v, hf_version = 0, hf_time = 0\<rparr>"

lemma quiet_listing: "storage_map h pick a no_accounts = (Inr [], no_accounts\<lparr>m_nonExistingAccountsCache := [a]\<rparr>)"
  by (simp add: storage_map_def accountE_def account_def no_accounts_def bindE_def om_find_def os_insert_def)

lemma quiet_pow: "temp_pow_ops c = [] \<Longrightarrow> update_pow_perblock wit_env b c = (Inr (), c)"
  by (cases c) (simp add: update_pow_perblock_def wit_env_def read_from_def quiet_listing pow_addresses_def)

lemma quiet_votes: "get_votes wit_env h = ret []"
  by (simp add: get_votes_def wit_env_def read_from_def getVoteInfoMap_def bindE_def quiet_listing)

text \<open>The stages of such a block, without the two that read the account state.\<close>

definition quiet_stages :: "BlockHeader \<Rightarrow> unit ccE" where
  "quiet_stages b =
     bindE (on_db (validate_block_header (\<lambda>_. True) b)) (\<lambda>(i, _).
     thenE (on_db (process_block_header b))
    (thenE (on_db get_dynamic_global_properties)
    (thenE (on_db (update_global_dynamic_data b))
    (thenE (on_db (update_global_properties b))
    (thenE (on_db (update_signing_producer i b))
    (thenE (update_last_irreversible_block wit_env) process_hardforks))))))"

lemma quiet_update_pow: "om_find (dgpos (c_db c)) 0 = Some g \<Longrightarrow> temp_pow_ops c = [] \<Longrightarrow> update_pow wit_env c = (Inr (), c)"
  by (simp add: update_pow_def get_pow_target_def on_db_def zoomE_def thenE_def bindE_def wit_env_def)

lemma quiet_pvomi: "om_find (dgpos (c_db c)) 0 = Some g \<Longrightarrow> all_votes c = [] \<Longrightarrow> update_pvomi_perblock wit_env b c = (Inr (), c)"
  by (simp add: update_pvomi_perblock_def quiet_votes on_db_def zoomE_def thenE_def bindE_def)

lemma no_dgp: "om_find (dgpos (c_db c)) 0 = None \<Longrightarrow> on_db get_dynamic_global_properties c = (Inl OutOfRange, c)"
  by (simp add: on_db_def zoomE_def get_dynamic_global_properties_def on_defs gx_get_def gx_find_def theE_def bindE_def)

lemma quiet_mid:
  assumes "all_votes c = []" "temp_pow_ops c = []"
  shows "thenE (update_pow_perblock wit_env b) (thenE (update_pow wit_env) (thenE (update_pvomi_perblock wit_env b) k)) c =
    thenE (on_db get_dynamic_global_properties) k c"
proof (cases "om_find (dgpos (c_db c)) 0")
  case None
  have "update_pow wit_env c = (Inl OutOfRange, c)"
    using no_dgp [OF None] by (simp add: update_pow_def get_pow_target_def on_db_def zoomE_def bindE_def split: prod.splits)
  with no_dgp [OF None] assms(2) show ?thesis by (simp add: thenE_def bindE_def quiet_pow)
next
  case (Some g)
  have "on_db get_dynamic_global_properties c = (Inr g, c)" using Some by (simp add: on_db_def zoomE_def)
  with quiet_update_pow [OF Some assms(2)] quiet_pvomi [OF Some assms(1)] assms(2) show ?thesis
    by (simp add: thenE_def bindE_def quiet_pow)
qed

lemma quiet_apply:
  assumes "all_votes c = []" "temp_pow_ops c = []"
  shows "apply_block wit_env b c = quiet_stages b c"
proof -
  have "thenE (on_db m) f c = thenE (on_db m) g c"
    if "all_votes c = []" "temp_pow_ops c = []" "\<And>c. all_votes c = [] \<Longrightarrow> temp_pow_ops c = [] \<Longrightarrow> f c = g c"
    for m :: "unit dbE" and f g :: "unit ccE" and c
    using that by (simp add: thenE_def bindE_def on_db_def zoomE_def split: prod.split sum.split)
  note step = this [OF _ _ quiet_mid]
  obtain r c1 where 1: "on_db (validate_block_header (\<lambda>_. True) b) c = (r, c1)" by (rule prod.exhaust)
  then have c1: "all_votes c1 = []" "temp_pow_ops c1 = []"
    using assms by (auto simp: on_db_def zoomE_def split: prod.splits)
  have v: "verifySign wit_env = (\<lambda>_. True)" by (simp add: wit_env_def)
  show ?thesis
    unfolding apply_block_def quiet_stages_def v
    by (simp add: bindE_def 1 step [OF c1] split: sum.split prod.split)
qed

lemma wit_genesis_ok: "initialize_chain wit_env [7, 5] wit_boot = Some (Inr (), wit_genesis)"
  by code_simp

lemma wit_start: "c_db wit_boot = initialize_indexes" "length (hardfork_versions wit_boot) = ETI_HardforkNum + 1"
  by (simp_all add: wit_boot_def ETI_HardforkNum_def)

lemmas wit_facts = genesis_facts [OF wit_start wit_genesis_ok]

lemma wit_db: "db_ok (c_db wit_genesis)" "base_level (c_db wit_genesis)"
  using wit_facts(1) base_levelD by (auto simp: idle_def)

lemma wit_objects:
  "om_find (gpos (c_db wit_genesis)) 0 = Some (gpo_default\<lparr>active_producers := [7, 5] @ replicate 19 0\<rparr>)"
  "om_find (dgpos (c_db wit_genesis)) 0 = Some (dgpo_default\<lparr>dgp_time := 1513580324, recent_slots_filled := - 1\<rparr>)"
  "hardfork_versions wit_genesis = [0]" "all_votes wit_genesis = []" "temp_pow_ops wit_genesis = []"
  by code_simp+


theorem slot_clock_witness:
  "fst (bindE (get_slot_time 4) get_slot_at_time (c_db wit_genesis)) = Inr 4 \<and>
   (\<exists>s u. get_slot_at_time 1513580340 (c_db wit_genesis) = (Inr s, c_db wit_genesis) \<and>
      get_slot_time s (c_db wit_genesis) = (Inr u, c_db wit_genesis) \<and> u \<le> 1513580340)"
  using slot_clock [OF wit_objects(2), of 4 1513580340] by (auto simp: slot_base_def dgpo_default_def)

theorem schedule_fair_witness:
  "\<exists>names. map (\<lambda>i. fst (get_scheduled_producer (3 + of_nat i) (c_db wit_genesis))) [0..<TotalProducersPerRound] = map Inr names \<and>
     mset names = mset ([7, 5] @ replicate 19 0)"
  using schedule_fair [OF wit_objects(1,2), of 3] by (simp add: TotalProducersPerRound_def dgpo_default_def)

text \<open>The same chain with the two producers in another state.\<close>

definition wit_with :: "(producer_object \<Rightarrow> producer_object) \<Rightarrow> (producer_object \<Rightarrow> producer_object) \<Rightarrow> chain_controller" where
  "wit_with f g = wit_genesis\<lparr>c_db := (c_db wit_genesis)\<lparr>db_prod := gindex_init\<lparr>
     gx_indices := [(0, f (producer_default\<lparr>owner := 7\<rparr>)), (1, g (producer_default\<lparr>owner := 5\<rparr>))], gx_next_id := 2\<rparr>\<rparr>\<rparr>"

lemma wit_with_facts:
  assumes "owner (f (producer_default\<lparr>owner := 7\<rparr>)) = 7" "owner (g (producer_default\<lparr>owner := 5\<rparr>)) = 5"
  shows "db_ok (c_db (wit_with f g))" "om_find (gpos (c_db (wit_with f g))) 0 = om_find (gpos (c_db wit_genesis)) 0"
    "om_find (dgpos (c_db (wit_with f g))) 0 = om_find (dgpos (c_db wit_genesis)) 0"
    "hardfork_versions (wit_with f g) = [0]"
    "get_all_producers ([7, 5] @ replicate n 0) (c_db (wit_with f g)) =
      (Inr [f (producer_default\<lparr>owner := 7\<rparr>), g (producer_default\<lparr>owner := 5\<rparr>)], c_db (wit_with f g))"
proof -
  have "level0 prod_clash (db_prod (c_db (wit_with f g)))"
    using assms by (auto simp: wit_with_def level0_def gindex_init_def gx_ok_def om_wf_def uniq_def om_find_def prod_clash_def split: if_splits)
  then have "base_level (c_db (wit_with f g))" using wit_db(2) by (simp add: base_level_def wit_with_def)
  then show "db_ok (c_db (wit_with f g))" by (simp add: base_levelD)
  show "om_find (gpos (c_db (wit_with f g))) 0 = om_find (gpos (c_db wit_genesis)) 0"
    "om_find (dgpos (c_db (wit_with f g))) 0 = om_find (dgpos (c_db wit_genesis)) 0"
    "hardfork_versions (wit_with f g) = [0]"
    using wit_objects by (simp_all add: wit_with_def)
  show "get_all_producers ([7, 5] @ replicate n 0) (c_db (wit_with f g)) =
      (Inr [f (producer_default\<lparr>owner := 7\<rparr>), g (producer_default\<lparr>owner := 5\<rparr>)], c_db (wit_with f g))"
  proof -
    have "get_all_producers (replicate n 0) d = (Inr [], d)" for d by (induction n) simp_all
    then show ?thesis using assms by (simp add: wit_with_def get_producer_def find_prod_def bindE_def getE_def theE_def)
  qed
qed

text \<open>Blocks 9 and 4 are confirmed.\<close>

theorem irreversible_block_70_witness:
  "\<exists>c' num. update_last_irreversible_block wit_env
       (wit_with (last_confirmed_block_num_update (\<lambda>_. 9)) (last_confirmed_block_num_update (\<lambda>_. 4))) = (Inr (), c') \<and>
     map_option last_irreversible_block_num (om_find (dgpos (c_db c')) 0) = Some num \<and>
     IrreversibleThresholdPercent * 2 \<le> Percent100 * confirming num
       [producer_default\<lparr>owner := 7, last_confirmed_block_num := 9\<rparr>, producer_default\<lparr>owner := 5, last_confirmed_block_num := 4\<rparr>]"
proof -
  let ?f = "last_confirmed_block_num_update (\<lambda>_. 9)" and ?g = "last_confirmed_block_num_update (\<lambda>_. 4)"
  let ?c = "wit_with ?f ?g"
  have "fst (update_last_irreversible_block wit_env ?c) = Inr ()" by code_simp
  then obtain c' where r: "update_last_irreversible_block wit_env ?c = (Inr (), c')" by (metis prod.collapse)
  have "owner (?f (producer_default\<lparr>owner := 7\<rparr>)) = 7" "owner (?g (producer_default\<lparr>owner := 5\<rparr>)) = 5" by simp_all
  note f = wit_with_facts [of ?f ?g, OF this]
  note g = f(3) [unfolded wit_objects]
  show ?thesis
    using irreversible_block_70 [OF f(1) g r] f(2) wit_objects(1) f(5) r by (auto simp: dgpo_default_def)
qed

theorem hardfork_votes_counted_witness:
  "\<exists>d'. update_hardfork_votes ([7, 5] @ replicate 3 0) (c_db (wit_with (hardfork_ver_vote_update (\<lambda>_. 2)) id)) = (Inr (), d') \<and>
     map_option next_hardfork (om_find (gpos d') 0) = Some 2"
proof -
  let ?f = "hardfork_ver_vote_update (\<lambda>_. 2)"
  have "owner (?f (producer_default\<lparr>owner := 7\<rparr>)) = 7" "owner (id (producer_default\<lparr>owner := 5\<rparr>)) = 5" by simp_all
  note f = wit_with_facts [of ?f id, OF this]
  let ?v = "map (\<lambda>p. (hardfork_ver_vote p, hardfork_time_vote p)) [?f (producer_default\<lparr>owner := 7\<rparr>), id (producer_default\<lparr>owner := 5\<rparr>)]"
  have good: "{k \<in> set ?v. ETI_HardforkRequiredProducers \<le> count_list ?v k} = {(2, 0), (0, 0)}"
    by (auto simp: producer_default_def config_defs)
  have "Max {(2 :: ver, 0 :: time_point_sec), (0, 0)} = (2, 0)" by (intro Max_eqI) auto
  with good show ?thesis
    using hardfork_votes_counted [OF f(1) f(2) [unfolded wit_objects] f(5) [of 3]] by (auto simp only: Let_def) simp
qed


text \<open>The first block is accepted.\<close>

definition wit_pushed :: chain_controller where
  "wit_pushed = snd (quiet_stages (wit_block 1 5 0) (started wit_genesis))"

lemma wit_push: "(let (r, c) = quiet_stages (wit_block 1 5 0) (started wit_genesis) in (r, db_num (c_db c), db_lib (c_db c))) = (Inr (), 1, 0)"
  by code_simp

lemma quiet_push:
  assumes "all_votes c = []" "temp_pow_ops c = []"
  shows "push_block wit_env b c = (case quiet_stages b (started c) of
    (Inl e, c1) \<Rightarrow> (Inl e, snd (on_db db_undo c1)) | (Inr x, c1) \<Rightarrow> (Inr x, c1))"
proof -
  have "all_votes (started c) = []" "temp_pow_ops (started c) = []" using assms by (simp_all add: started_def)
  then show ?thesis by (simp add: push_block_eq quiet_apply)
qed

lemma wit_pushed_run: "push_block wit_env (wit_block 1 5 0) wit_genesis = (Inr (), wit_pushed)"
  "db_num (c_db wit_pushed) = 1" "db_lib (c_db wit_pushed) = 0"
  using wit_push by (simp_all add: quiet_push wit_objects wit_pushed_def split: prod.splits)

theorem block_authorised_witness:
  "\<exists>slot. fst (get_slot_at_time 1513580327 (c_db wit_genesis)) = Inr slot \<and>
    fst (get_scheduled_producer slot (c_db wit_genesis)) = Inr 5"
  using block_authorised [OF wit_pushed_run(1)] by (simp add: wit_block_def sec_def)


text \<open>
  The chain after a hardfork to version 5: a block of a client that runs version 3 changes the
  recorded version of its producer and is then refused.
\<close>

definition wit_forked :: chain_controller where
  "wit_forked = wit_genesis\<lparr>c_db := (c_db wit_genesis)\<lparr>db_gpo := gindex_init\<lparr>gx_indices :=
     [(0, gpo_default\<lparr>active_producers := [7, 5] @ replicate 19 0, current_hardfork_version := 5\<rparr>)], gx_next_id := 1\<rparr>\<rparr>\<rparr>"

lemma wit_refused: "fst (quiet_stages (wit_block 1 5 3) (started wit_forked)) = Inl InvlidRuningVersion"
  by code_simp

theorem push_block_atomic_witness:
  "fst (push_block wit_env (wit_block 1 5 3) wit_forked) = Inl InvlidRuningVersion \<and>
   c_db (snd (push_block wit_env (wit_block 1 5 3) wit_forked)) = c_db wit_forked"
proof -
  have "base_level (c_db wit_forked)"
    using wit_db(2) level0_init(2) by (simp add: base_level_def wit_forked_def)
  then have ok: "db_ok (c_db wit_forked)" by (simp add: base_levelD)
  have w: "well 0 wit_forked"
    using idle_invariants [OF wit_facts(1)] by (simp add: well_def wit_forked_def wit_objects known_hardfork_def om_find_def gpo_default_def ETI_HardforkNum_def)
  have q: "all_votes wit_forked = []" "temp_pow_ops wit_forked = []" by (simp_all add: wit_forked_def wit_objects)
  have p: "fst (push_block wit_env (wit_block 1 5 3) wit_forked) = Inl InvlidRuningVersion"
    using wit_refused by (auto simp: quiet_push [OF q] split: prod.split)
  then obtain c' where c': "push_block wit_env (wit_block 1 5 3) wit_forked = (Inl InvlidRuningVersion, c')" by (metis prod.collapse)
  have "c_db c' = c_db wit_forked" by (rule push_block_atomic [OF c' _ ok w]) simp
  with c' show ?thesis by simp
qed

theorem workers_consistent_witness: "pow_inv (c_db wit_pushed) \<and> exclusive (c_db wit_pushed)"
proof (rule workers_consistent [OF wit_pushed_run(1) wit_db(1) _ _ _ wit_objects(2)])
  show "well 0 wit_genesis" "pow_inv (c_db wit_genesis)"
    using wit_facts idle_invariants [OF wit_facts(1)] by (simp_all add: fresh_def)
  show "exclusive (c_db wit_genesis)" using wit_facts(1) by (auto simp: idle_def exclusive_def)
  show "unat (total_pow (dgpo_default\<lparr>dgp_time := 1513580324, recent_slots_filled := - 1\<rparr>)) +
      length (pow_order wit_env (temp_pow_ops (snd (update_pow_perblock wit_env (wit_block 1 5 0) wit_genesis)))) < 2 ^ 32"
    unfolding quiet_pow [OF wit_objects(5)] by (simp add: wit_objects wit_env_def dgpo_default_def)
qed

end
