(* ===== verification/Spec2Isabelle.thy ===== *)
theory Spec2Isabelle
  imports Chainbase_Undo VoteInv StateMapProps RlpProps VmProps ChainWitness
begin

text \<open>
  Verification of the block production, the account state and the contract interpreter of
  the repository, a node of a chain with delegated proof of stake (DPOS) and proof of work
  (POW) producers.

  \<^bold>\<open>The program.\<close> The chain controller (\<open>libproducer/chain_controller.cpp\<close>) applies blocks to
  an undo database (\<open>libproducer/chainbase.hpp\<close>) that holds the producers, their votes and
  the schedule. Every block opens an undo session; the session of a block that fails is undone,
  the sessions of irreversible blocks are committed. Once per round the controller asks the
  producer schedule (\<open>libproducer/producer_objects.cpp\<close>) for the next 21 seats. The votes it
  counts are those of the ledger (\<open>libethereum/Vote.cpp\<close>), and the POW answers those of the
  storage maps (\<open>libevm/Vote.cpp\<close>); both live in the storage of accounts of the state
  (\<open>libethereum/State.cpp\<close>), which caches accounts over a trie and logs changes for
  rollback. Contract code runs on the interpreter (\<open>libevm/VM.cpp\<close>) against an interface
  to the state. Blocks and accounts are encoded by RLP (\<open>libdevcore/RLP.h\<close>).

  \<^bold>\<open>Conventions.\<close> A C++ method that changes state or throws is a computation of \<open>Exc\<close>: a
  function from a state to an outcome, \<open>Inl\<close> of the exception or \<open>Inr\<close> of the result, and
  the state that is left. Integers are words of their width; \<open>Prelude\<close> has the ordered maps
  that stand for \<open>std::map\<close> and the like. Loops are recursive functions with a termination
  proof; those that need not end are \<open>partial_function (option)\<close>, with \<open>None\<close> for a run that
  does not return: \<open>databaseReversion\<close>, the iteration over an RLP list, the interpreter loop
  and the trampoline around it. No fuel is used; that they return is proved from the undo
  history, the length of the data and the gas. Hashes, signatures, the random choice of the
  cache entry to drop and what the controller reads of the block chain are parameters.

  \<^bold>\<open>The undo database.\<close> \<open>Chainbase\<close> models \<open>generic_index\<close> (\<open>emplace\<close>, \<open>modify\<close>, \<open>remove\<close>,
  \<open>undo\<close>, \<open>squash\<close>, \<open>commit\<close>, \<open>undo_all\<close>); \<open>Chainbase_Undo\<close> proves that undo restores the
  index exactly (C1), also after a squash (C23), for any nesting of sessions (C27), and what
  commit drops (C28). \<open>ChainDb\<close> has the object types, the six indices and the operations
  of \<open>chainbase::database\<close>. The contract of a state with an undo log is the locale \<open>undoable\<close>
  of \<open>Exc\<close>, interpreted for one index and for the database, and its weaker form
  \<open>revertible\<close>, interpreted for the account state.

  \<^bold>\<open>Schedule and controller.\<close> \<open>Config\<close> has the constants, version numbers (C30) and the
  shuffle of a round (C29). \<open>ProducerSchedule\<close> has the virtual race (C26, C31) and
  \<open>calculateNextRound\<close>; \<open>NextRound\<close> proves that it implements an abstract choice of seats
  (C2, C24, C25). \<open>ChainController\<close> models the controller with every stage of
  \<open>apply_block\<close>, the last irreversible block, hardforks and the reversion. \<open>ChainTrack\<close> has
  the locale \<open>db_client\<close>, what every stage keeps if the database operations keep it, and its
  interpretations; \<open>ChainReversion\<close> concludes that a failed block leaves the database as it was,
  unless it fails with \<open>UnknownHardfork\<close> (C8), and what \<open>databaseReversion\<close> restores and when it
  does not return (C9). \<open>ChainGenesis\<close> (C13),
  \<open>ChainSlots\<close> (C14, C15, C16, C20, C21, C22) and \<open>ChainPow\<close> (C12) treat genesis, slots, seats,
  the irreversible block, hardforks and the queue of POW workers; \<open>ChainWitness\<close> is a small
  chain on which the hypotheses of these theorems hold.

  \<^bold>\<open>Accounts and votes.\<close> \<open>Bytes\<close> has the byte images of hashes. \<open>AccountState\<close> models \<open>State\<close>
  and \<open>Account\<close>; \<open>AccountView\<close>, \<open>StateRollback\<close> and \<open>StateCommit\<close> relate it to a view
  without cache: rollback restores it (C4), commit keeps it (C32), but for one case that loses
  money (C37). \<open>Paging\<close> has \<open>UserStorage\<close> over the locale \<open>cells\<close>, interpreted for the storage
  of an account. \<open>VoteInfo\<close> models the records, \<open>VoteManager\<close> and the precompiled
  contracts; \<open>VoteLedger\<close>, \<open>VoteSpec\<close>, \<open>VoteDeregister\<close>, \<open>VoteProps\<close> and \<open>VoteInv\<close> prove that
  they implement operations on a map of records (C3), with received votes exact (C10), votes
  accounted for (C33), records read back (C34) and the payment of a redemption (C36). \<open>StateMap\<close> and
  \<open>StateMapProps\<close> have the older records and the POW answers (C35).

  \<^bold>\<open>RLP.\<close> \<open>Rlp\<close> models reader and writer, \<open>RlpProps\<close> proves that they agree on one encoding
  (C11) and that the cache of the subscript operator is correct (C19).

  \<^bold>\<open>Interpreter.\<close> \<open>Instr\<close> has the instruction set and the gas schedules, \<open>Vm\<close> the machine:
  metering, one case per instruction, the calls, the preparation and optimisation of the
  code, and \<open>exec\<close>. Pointer accesses are range checked and throw \<open>OutOfRange\<close> outside.
  \<open>VmSafe\<close> and \<open>VmStep\<close> execute every case symbolically, \<open>VmCode\<close> and \<open>VmRun\<close> do so for the
  prepared code and the loop, \<open>VmCall\<close> for the calls and the trampoline. \<open>VmBlind\<close>, \<open>VmOpt\<close> and
  \<open>VmSim\<close> simulate the machine with optimised code by the one without. \<open>VmStatic\<close> follows a
  static context. \<open>VmProps\<close> concludes that \<open>exec\<close> returns within bounds and gas (C5), that the
  optimising pass is sound (C6), that static contexts are safe (C7) but for \<open>CREATE2\<close> (C40),
  and states the effect of a turn (C17), the jump table (C18) and the arithmetic
  (C38, C39). With the optimising pass the code has at most 458752 bytes, seven for each of
  the 65536 constants a 16-bit offset can name; without it less than \<open>2 ^ 63\<close>, so that
  positions do not wrap. What the machine relies on from the interface is named: \<open>gas_lawful\<close>,
  that \<open>create\<close> and \<open>call\<close> give back no more gas than they got, and for static contexts
  \<open>read_only\<close>, that reading methods and static calls without value keep what is observed.
  \<open>sched_ok\<close> of \<open>VmSafe\<close> says that a schedule prices what stays in the loop; the schedules of
  \<open>libethcore/EVMSchedule.h\<close> satisfy it.

  \<^bold>\<open>Not modelled.\<close> \<open>Executive\<close> and \<open>ExtVM\<close>, which run calls on the state, so that the account
  state and the interpreter are verified on either side of the interface; \<open>Block\<close>, \<open>BlockChain\<close>,
  the queues, the client and the synchronisation, which are threads over a key-value store
  and a network library; the nodes of tries, which the state model identifies with
  their content; the memory mapped file and the locks of chainbase; the instructions under
  \<open>EIP_615\<close> and \<open>EIP_616\<close>, which the build leaves out; the JIT and WAVM adapters; the
  cryptographic libraries, ethash and the thirteen hash functions of \<open>libjumphash\<close>, which are
  third-party code; the network, the JSON interface and the command line programs.
\<close>

end
